(* ===== verification/Prelude.thy ===== *)
theory Prelude
  imports Complex_Main "HOL-Library.Multiset" "HOL-Library.List_Lexorder"
    "HOL-Library.Product_Lexorder"
begin

text \<open>
  The prelude of the development: what the modelled Python code uses of the language and its
  standard library, and the generic lemmas the component theories share.

  \<^item> \<open>py_error\<close> and \<open>result\<close>: a raised exception is a value \<open>Inl e\<close>, a returned value is
    \<open>Inr x\<close>; \<open>rbind\<close>, \<open>rmap\<close> and \<open>rfold\<close> sequence computations that may raise.
  \<^item> \<open>py_get\<close>, \<open>py_slice\<close>: list indexing with its \<open>IndexError\<close>, and slicing.
  \<^item> \<open>weak_order\<close>: the contract that Python's sort and \<open>heapq\<close> rely on for \<open>__lt__\<close>.
  \<^item> \<open>py_sorted\<close>: the stable sort of \<open>sorted\<close> and \<open>list.sort\<close>, over a comparison \<open>lt\<close>.
  \<^item> \<open>chunks\<close>: the blocks of a \<open>for start in range(0, n, size)\<close> loop over slices.
\<close>

named_theorems result_simps \<open>unfolding rules for computations that may raise\<close>
named_theorems py_list \<open>lengths, members and multisets of the list operations\<close>

section \<open>Exceptions as values\<close>

datatype py_error =
    ValueError string
  | AssertionError string
  | RuntimeError string
  | IndexError
  | KeyError string
  | ZeroDivisionError
  | TypeError string

type_synonym 'a result = "py_error + 'a"

definition rbind :: "'a result \<Rightarrow> ('a \<Rightarrow> 'b result) \<Rightarrow> 'b result" where
  "rbind m f = (case m of Inl e \<Rightarrow> Inl e | Inr x \<Rightarrow> f x)"

lemma rbind_Inl [simp, result_simps]: "rbind (Inl e) f = Inl e"
  by (simp add: rbind_def)

lemma rbind_Inr [simp, result_simps]: "rbind (Inr x) f = f x"
  by (simp add: rbind_def)

lemma rbind_eq_Inr [result_simps]: "rbind m f = Inr y \<longleftrightarrow> (\<exists>x. m = Inr x \<and> f x = Inr y)"
  by (cases m) auto

lemma rbind_eq_Inl [result_simps]:
  "rbind m f = Inl e \<longleftrightarrow> m = Inl e \<or> (\<exists>x. m = Inr x \<and> f x = Inl e)"
  by (cases m) auto

lemma rbind_cong [fundef_cong]:
  "m = m' \<Longrightarrow> (\<And>x. m' = Inr x \<Longrightarrow> f x = g x) \<Longrightarrow> rbind m f = rbind m' g"
  by (cases m') auto

lemma if_Inl_eq_Inr [result_simps]: "(if b then Inl e else m) = Inr x \<longleftrightarrow> \<not> b \<and> m = Inr x"
  by simp

lemma if_Inl_eq_Inr' [result_simps]: "(if b then m else Inl e) = Inr x \<longleftrightarrow> b \<and> m = Inr x"
  by simp

text \<open>A loop that computes one value per element and stops at the first exception.\<close>

fun rmap :: "('a \<Rightarrow> 'b result) \<Rightarrow> 'a list \<Rightarrow> 'b list result" where
  "rmap f [] = Inr []"
| "rmap f (x # xs) = rbind (f x) (\<lambda>y. rbind (rmap f xs) (\<lambda>ys. Inr (y # ys)))"

text \<open>A loop that threads an accumulator and stops at the first exception.\<close>

fun rfold :: "('s \<Rightarrow> 'a \<Rightarrow> 's result) \<Rightarrow> 's \<Rightarrow> 'a list \<Rightarrow> 's result" where
  "rfold f s [] = Inr s"
| "rfold f s (x # xs) = rbind (f s x) (\<lambda>s'. rfold f s' xs)"

lemma rmap_eq_Inr: "rmap f xs = Inr ys \<longleftrightarrow> list_all2 (\<lambda>x y. f x = Inr y) xs ys"
proof (induction xs arbitrary: ys)
  case Nil
  then show ?case by auto
next
  case (Cons x xs)
  then show ?case by (cases ys) (auto simp: result_simps)
qed

lemma rmap_length: "rmap f xs = Inr ys \<Longrightarrow> length ys = length xs"
  by (auto simp: rmap_eq_Inr dest: list_all2_lengthD)

lemma rmap_total: "(\<And>x. x \<in> set xs \<Longrightarrow> f x = Inr (g x)) \<Longrightarrow> rmap f xs = Inr (map g xs)"
  by (induction xs) auto

lemma rmap_cong [fundef_cong]:
  "xs = ys \<Longrightarrow> (\<And>x. x \<in> set ys \<Longrightarrow> f x = g x) \<Longrightarrow> rmap f xs = rmap g ys"
  by (induction xs arbitrary: ys) auto

lemma rmap_Inl: "rmap f xs = Inl e \<Longrightarrow> \<exists>x\<in>set xs. f x = Inl e"
  by (induction xs) (auto simp: result_simps)

lemma rfold_append:
  "rfold f s (xs @ ys) = rbind (rfold f s xs) (\<lambda>s'. rfold f s' ys)"
  by (induction xs arbitrary: s) (auto simp: rbind_def split: sum.splits)

lemma rfold_total: "(\<And>s x. x \<in> set xs \<Longrightarrow> f s x = Inr (g s x)) \<Longrightarrow> rfold f s xs = Inr (foldl g s xs)"
  by (induction xs arbitrary: s) auto

text \<open>A loop invariant over the elements done so far.\<close>

lemma rfold_invariant:
  assumes "P [] s"
    and "\<And>done x rest s. xs = done @ x # rest \<Longrightarrow> P done s \<Longrightarrow> \<exists>s'. f s x = Inr s' \<and> P (done @ [x]) s'"
  shows "\<exists>s'. rfold f s xs = Inr s' \<and> P xs s'"
proof -
  have "\<exists>s'. rfold f s todo = Inr s' \<and> P (done @ todo) s'" if "xs = done @ todo" "P done s" for "done" todo s
    using that
  proof (induction todo arbitrary: "done" s)
    case (Cons x todo)
    then obtain s' where "f s x = Inr s'" "P (done @ [x]) s'" using assms(2) by blast
    moreover from this Cons.IH [of "done @ [x]" s'] Cons.prems
    obtain s'' where "rfold f s' todo = Inr s''" "P (done @ x # todo) s''" by auto
    ultimately show ?case by auto
  qed simp
  from this [of "[]" xs s] assms(1) show ?thesis by simp
qed

lemma rfold_Inr_invariant:
  assumes run: "rfold f s xs = Inr s'" and init: "P [] s"
    and step: "\<And>done x rest s s'. xs = done @ x # rest \<Longrightarrow> P done s \<Longrightarrow> f s x = Inr s' \<Longrightarrow> P (done @ [x]) s'"
  shows "P xs s'"
proof -
  have "P (done @ todo) s'" if "xs = done @ todo" "P done s" "rfold f s todo = Inr s'" for "done" todo s
    using that
  proof (induction todo arbitrary: "done" s)
    case (Cons x todo)
    then obtain s1 where "f s x = Inr s1" "rfold f s1 todo = Inr s'" by (auto simp: rbind_eq_Inr)
    with Cons step [of "done" x todo s s1] show ?case by (metis append.assoc append_Cons append_Nil)
  qed simp
  from this [of "[]" xs s] assms show ?thesis by simp
qed

text \<open>Positions of a loop \<open>for i in range(n)\<close>.\<close>

lemma upt_split: "[0..<n] = xs @ x # ys \<Longrightarrow> x = length xs \<and> x < n \<and> xs = [0..<length xs]"
proof -
  assume e: "[0..<n] = xs @ x # ys"
  have n: "n = length xs + Suc (length ys)" using arg_cong [OF e, of length] by simp
  have "x = [0..<n] ! length xs" using e by simp
  then have "x = length xs" using n by (simp del: upt_Suc)
  moreover have "xs = take (length xs) [0..<n]" using e by simp
  ultimately show ?thesis using n by (simp del: upt_Suc)
qed

section \<open>Indexing and slicing\<close>

text \<open>\<open>xs[i]\<close> for an index the code computes from lengths and counters, hence never negative.\<close>

definition py_get :: "'a list \<Rightarrow> nat \<Rightarrow> 'a result" where
  "py_get xs i = (if i < length xs then Inr (xs ! i) else Inl IndexError)"

text \<open>\<open>xs[a:b]\<close> for nonnegative bounds: out-of-range bounds are clipped, \<open>b < a\<close> is empty.\<close>

definition py_slice :: "'a list \<Rightarrow> nat \<Rightarrow> nat \<Rightarrow> 'a list" where
  "py_slice xs a b = take (b - a) (drop a xs)"

lemma py_get_Inr [simp]: "i < length xs \<Longrightarrow> py_get xs i = Inr (xs ! i)"
  by (simp add: py_get_def)

lemma py_get_eq_Inr: "py_get xs i = Inr x \<longleftrightarrow> i < length xs \<and> xs ! i = x"
  by (auto simp: py_get_def)

lemma length_py_slice [simp]: "length (py_slice xs a b) = min (b - a) (length xs - a)"
  by (simp add: py_slice_def min.commute)

lemma py_slice_all: "py_slice xs 0 (length xs) = xs"
  by (simp add: py_slice_def)

lemma nth_py_slice: "i < b - a \<Longrightarrow> a + i < length xs \<Longrightarrow> py_slice xs a b ! i = xs ! (a + i)"
  by (simp add: py_slice_def)

lemma length_filter_all: "length (filter P xs) = length xs \<longleftrightarrow> (\<forall>x\<in>set xs. P x)"
proof
  show "length (filter P xs) = length xs \<Longrightarrow> \<forall>x\<in>set xs. P x"
    by (rule ccontr) (use length_filter_less [of _ xs P] in fastforce)
qed simp

lemma map_nth_upt: "map ((!) xs) [0..<length xs] = xs"
  by (rule map_nth)

text \<open>The blocks \<open>xs[start:start + size]\<close> of a loop \<open>for start in range(0, len(xs), size)\<close>.\<close>

fun chunks :: "nat \<Rightarrow> 'a list \<Rightarrow> 'a list list" where
  "chunks n xs = (if n = 0 \<or> xs = [] then [] else take n xs # chunks n (drop n xs))"

declare chunks.simps [simp del]

lemma chunks_Nil [simp]: "chunks n [] = []"
  by (simp add: chunks.simps)

lemma concat_chunks: "0 < n \<Longrightarrow> concat (chunks n xs) = xs"
proof (induction n xs rule: chunks.induct)
  case (1 n xs)
  then show ?case by (cases "xs = []") (auto simp: chunks.simps [of n xs])
qed

lemma chunks_bound: "c \<in> set (chunks n xs) \<Longrightarrow> c \<noteq> [] \<and> length c \<le> n"
proof (induction n xs rule: chunks.induct)
  case (1 n xs)
  show ?case
  proof (cases "n = 0 \<or> xs = []")
    case True
    with 1 show ?thesis by (simp add: chunks.simps [of n xs])
  next
    case False
    with 1 show ?thesis by (auto simp: chunks.simps [of n xs])
  qed
qed

lemma map_chunks: "chunks n (map f xs) = map (map f) (chunks n xs)"
proof (induction n xs rule: chunks.induct)
  case (1 n xs)
  show ?case
  proof (cases "n = 0 \<or> xs = []")
    case False
    then have "chunks n (map f xs) = map f (take n xs) # chunks n (map f (drop n xs))"
      by (simp add: chunks.simps [of n "map f xs"] take_map drop_map)
    with False 1 show ?thesis by (simp add: chunks.simps [of n xs])
  qed (auto simp: chunks.simps)
qed

lemma chunks_full:
  "0 < n \<Longrightarrow> n dvd length xs \<Longrightarrow> c \<in> set (chunks n xs) \<Longrightarrow> length c = n"
proof (induction n xs rule: chunks.induct)
  case (1 n xs)
  show ?case
  proof (cases "xs = []")
    case True
    with 1 show ?thesis by simp
  next
    case False
    then have le: "n \<le> length xs" using 1 by (auto dest: dvd_imp_le)
    then have "n dvd length (drop n xs)" using 1 by (auto intro: dvd_diff_nat)
    with 1 False le show ?thesis
      by (auto simp: chunks.simps [of n xs])
  qed
qed

text \<open>Rectangular lists: rows of one length.\<close>

lemma nth_concat_rect:
  assumes "\<And>r. r \<in> set rs \<Longrightarrow> length r = k" "x < length rs * k"
  shows "concat rs ! x = rs ! (x div k) ! (x mod k)"
  using assms
proof (induction rs arbitrary: x)
  case (Cons r rs)
  have k: "length r = k" "0 < k" using Cons.prems by (cases k; auto)+
  show ?case
  proof (cases "x < k")
    case False
    then have "x - k < length rs * k" using Cons.prems by auto
    moreover have "x div k = Suc ((x - k) div k)" "x mod k = (x - k) mod k"
      using False k by (simp_all add: le_div_geq le_mod_geq)
    ultimately show ?thesis using Cons False k by (simp add: nth_append)
  qed (use k in \<open>simp add: nth_append\<close>)
qed simp

lemma length_concat_rect: "(\<And>r. r \<in> set rs \<Longrightarrow> length r = k) \<Longrightarrow> length (concat rs) = length rs * k"
  by (induction rs) auto

text \<open>\<open>torch.clamp\<close>.\<close>

definition clamp :: "real \<Rightarrow> real \<Rightarrow> real \<Rightarrow> real" where
  "clamp lo hi x = min hi (max lo x)"

section \<open>Comparisons, sorting\<close>

text \<open>
  What \<open>sorted\<close> and \<open>heapq\<close> need of a class's \<open>__lt__\<close>: a strict weak order. Every comparison
  the modelled classes define is an instance.
\<close>

locale weak_order =
  fixes lt :: "'a \<Rightarrow> 'a \<Rightarrow> bool"
  assumes lt_asym: "lt x y \<Longrightarrow> \<not> lt y x"
    and not_lt_trans: "\<not> lt x y \<Longrightarrow> \<not> lt y z \<Longrightarrow> \<not> lt x z"
begin

lemma lt_irrefl: "\<not> lt x x"
  using lt_asym by blast

lemma lt_not_lt_trans: "lt x y \<Longrightarrow> \<not> lt z y \<Longrightarrow> lt x z"
  using not_lt_trans by blast

lemma not_lt_lt_trans: "\<not> lt y x \<Longrightarrow> lt y z \<Longrightarrow> lt x z"
  using not_lt_trans by blast

end

text \<open>
  \<open>sorted(xs)\<close>: the stable sort. \<open>insort_lt\<close> puts \<open>x\<close> before the first element it is not
  greater than, so equal elements keep their order; \<open>reverse=True\<close> keeps it as well, which is
  the sort of the reversed list, reversed.
\<close>

fun insort_lt :: "('a \<Rightarrow> 'a \<Rightarrow> bool) \<Rightarrow> 'a \<Rightarrow> 'a list \<Rightarrow> 'a list" where
  "insort_lt lt x [] = [x]"
| "insort_lt lt x (y # ys) = (if lt y x then y # insort_lt lt x ys else x # y # ys)"

definition py_sorted :: "('a \<Rightarrow> 'a \<Rightarrow> bool) \<Rightarrow> 'a list \<Rightarrow> 'a list" where
  "py_sorted lt xs = foldr (insort_lt lt) xs []"

definition py_sorted_rev :: "('a \<Rightarrow> 'a \<Rightarrow> bool) \<Rightarrow> 'a list \<Rightarrow> 'a list" where
  "py_sorted_rev lt xs = rev (py_sorted lt (rev xs))"

lemma mset_insort_lt [simp, py_list]: "mset (insort_lt lt x xs) = add_mset x (mset xs)"
  by (induction xs) auto

lemma mset_py_sorted [simp, py_list]: "mset (py_sorted lt xs) = mset xs"
  unfolding py_sorted_def by (induction xs) auto

lemma set_py_sorted [simp, py_list]: "set (py_sorted lt xs) = set xs"
  by (metis mset_py_sorted set_mset_mset)

lemma length_py_sorted [simp, py_list]: "length (py_sorted lt xs) = length xs"
  by (metis mset_py_sorted size_mset)

lemma mset_py_sorted_rev [simp, py_list]: "mset (py_sorted_rev lt xs) = mset xs"
  by (simp add: py_sorted_rev_def)

lemma set_py_sorted_rev [simp, py_list]: "set (py_sorted_rev lt xs) = set xs"
  by (simp add: py_sorted_rev_def)

lemma length_py_sorted_rev [simp, py_list]: "length (py_sorted_rev lt xs) = length xs"
  by (simp add: py_sorted_rev_def)

context weak_order begin

abbreviation ordered :: "'a list \<Rightarrow> bool" where
  "ordered \<equiv> sorted_wrt (\<lambda>x y. \<not> lt y x)"

lemma set_insort_lt: "set (insort_lt lt x xs) = insert x (set xs)"
  by (induction xs) auto

lemma ordered_insort_lt: "ordered xs \<Longrightarrow> ordered (insort_lt lt x xs)"
proof (induction xs)
  case Nil
  then show ?case by simp
next
  case (Cons y ys)
  show ?case
  proof (cases "lt y x")
    case True
    with Cons show ?thesis by (auto simp: set_insort_lt lt_asym)
  next
    case False
    with Cons.prems show ?thesis by (auto dest: not_lt_trans)
  qed
qed

lemma ordered_py_sorted: "ordered (py_sorted lt xs)"
  unfolding py_sorted_def by (induction xs) (auto intro: ordered_insort_lt)

lemma ordered_py_sorted_rev: "sorted_wrt (\<lambda>x y. \<not> lt x y) (py_sorted_rev lt xs)"
  using ordered_py_sorted [of "rev xs"] by (simp add: py_sorted_rev_def sorted_wrt_rev)

end

text \<open>
  \<open>sorted\<close> of tuples of integers compares them lexicographically, which is a linear order:
  every linear order is a strict weak order.
\<close>

lemma linorder_weak_order: "weak_order ((<) :: 'a::linorder \<Rightarrow> 'a \<Rightarrow> bool)"
  by unfold_locales auto

interpretation nat_order: weak_order "(<) :: nat \<Rightarrow> nat \<Rightarrow> bool"
  by (rule linorder_weak_order)

lemma sorted_py_sorted: "sorted (py_sorted (<) (xs :: 'a::linorder list))"
  using weak_order.ordered_py_sorted [OF linorder_weak_order, of xs] by (simp add: not_less)

section \<open>Permutations of index ranges\<close>

lemma mset_upt_distinct: "mset xs = mset [0..<n] \<Longrightarrow> distinct xs \<and> set xs = {0..<n} \<and> length xs = n"
  by (metis diff_zero distinct_upt length_upt mset_eq_imp_distinct_iff mset_eq_setD set_upt size_mset)

lemma mset_concat_swap:
  "mset xss = mset yss \<Longrightarrow> mset (concat xss) = mset (concat yss)"
proof -
  assume eq: "mset xss = mset yss"
  have "mset (concat zss) = sum_mset (image_mset mset (mset zss))" for zss :: "'a list list"
    by (induction zss) auto
  with eq show ?thesis by simp
qed

lemma sum_list_mset_eq: "mset xs = mset ys \<Longrightarrow> sum_list xs = sum_list (ys :: 'a::comm_monoid_add list)"
  by (metis sum_mset_sum_list)

lemma sum_list_map_mset: "(\<Sum>x\<leftarrow>xs. f x) = (\<Sum>x\<in>#mset xs. f x :: 'b::comm_monoid_add)"
  by (metis mset_map sum_mset_sum_list)

section \<open>Loops that keep a minimum or a maximum\<close>

lemma foldl_min_eq: "foldl min (m :: 'a::linorder) xs = Min (set (m # xs))"
proof -
  have "foldl min m xs = fold min xs m" by (simp add: foldl_conv_fold min.commute)
  then show ?thesis by (simp only: Min.set_eq_fold)
qed

lemma foldl_max_eq: "foldl max (m :: 'a::linorder) xs = Max (set (m # xs))"
proof -
  have "foldl max m xs = fold max xs m" by (simp add: foldl_conv_fold max.commute)
  then show ?thesis by (simp only: Max.set_eq_fold)
qed

lemma foldl_min_le: "x \<in> set (m # xs) \<Longrightarrow> foldl min m xs \<le> (x :: 'a::linorder)"
  unfolding foldl_min_eq by (rule Min_le) simp_all

lemma foldl_max_ge: "x \<in> set (m # xs) \<Longrightarrow> (x :: 'a::linorder) \<le> foldl max m xs"
  unfolding foldl_max_eq by (rule Max_ge) simp_all

lemma foldl_min_in: "foldl min (m :: 'a::linorder) xs \<in> set (m # xs)"
  unfolding foldl_min_eq by (rule Min_in) simp_all

lemma foldl_max_in: "foldl max (m :: 'a::linorder) xs \<in> set (m # xs)"
  unfolding foldl_max_eq by (rule Max_in) simp_all

end
