(* ===== verification/Heapq.thy ===== *)
theory Heapq
  imports Prelude
begin

text \<open>
  Python's \<open>heapq\<close>, as the standard library implements it on a list: \<open>heap_siftdown\<close> and
  \<open>heap_siftup\<close> move one item through the array, \<open>heappush\<close>, \<open>heappop\<close> and \<open>heapify\<close>
  use them. The partitioner of \<open>verl/utils/seqlen_balancing.py\<close> keeps its states in such a
  heap. Proved here: every operation keeps the multiset of items, and over a strict weak order
  \<open>heapify\<close> and \<open>heappush\<close> give a heap and \<open>heappop\<close> takes a smallest item and leaves a heap.
\<close>

section \<open>The operations\<close>

definition parent :: "nat \<Rightarrow> nat" where
  "parent i = (i - 1) div 2"

lemma parent_less [simp]: "0 < i \<Longrightarrow> parent i < i"
  by (auto simp: parent_def)

lemma parent_child [simp]: "parent (Suc (2 * p)) = p" "parent (Suc (Suc (2 * p))) = p"
  by (simp_all add: parent_def)

lemma parent_iff: "0 < i \<Longrightarrow> parent i = p \<longleftrightarrow> i = 2 * p + 1 \<or> i = 2 * p + 2"
  by (auto simp: parent_def)

fun siftdown_loop :: "('a \<Rightarrow> 'a \<Rightarrow> bool) \<Rightarrow> 'a \<Rightarrow> nat \<Rightarrow> 'a list \<Rightarrow> nat \<Rightarrow> 'a list" where
  "siftdown_loop lt newitem startpos h pos =
     (if startpos < pos \<and> lt newitem (h ! parent pos)
      then siftdown_loop lt newitem startpos (h[pos := h ! parent pos]) (parent pos)
      else h[pos := newitem])"

function siftup_loop :: "('a \<Rightarrow> 'a \<Rightarrow> bool) \<Rightarrow> 'a list \<Rightarrow> nat \<Rightarrow> 'a list \<times> nat" where
  "siftup_loop lt h pos =
     (if 2 * pos + 1 < length h
      then let childpos =
             (if 2 * pos + 2 < length h \<and> \<not> lt (h ! (2 * pos + 1)) (h ! (2 * pos + 2))
              then 2 * pos + 2 else 2 * pos + 1)
           in siftup_loop lt (h[pos := h ! childpos]) childpos
      else (h, pos))"
  by pat_completeness auto
termination
  by (relation "measure (\<lambda>(lt, h, pos). length h - pos)") (auto split: if_splits)

declare siftdown_loop.simps [simp del] siftup_loop.simps [simp del]

definition heap_siftdown :: "('a \<Rightarrow> 'a \<Rightarrow> bool) \<Rightarrow> 'a list \<Rightarrow> nat \<Rightarrow> nat \<Rightarrow> 'a list" where
  "heap_siftdown lt h startpos pos = siftdown_loop lt (h ! pos) startpos h pos"

definition heap_siftup :: "('a \<Rightarrow> 'a \<Rightarrow> bool) \<Rightarrow> 'a list \<Rightarrow> nat \<Rightarrow> 'a list" where
  "heap_siftup lt h pos =
     (let (h', pos') = siftup_loop lt h pos in heap_siftdown lt (h'[pos' := h ! pos]) pos pos')"

definition heappush :: "('a \<Rightarrow> 'a \<Rightarrow> bool) \<Rightarrow> 'a list \<Rightarrow> 'a \<Rightarrow> 'a list" where
  "heappush lt h item = heap_siftdown lt (h @ [item]) 0 (length h)"

definition heappop :: "('a \<Rightarrow> 'a \<Rightarrow> bool) \<Rightarrow> 'a list \<Rightarrow> ('a \<times> 'a list) result" where
  "heappop lt h =
     (if h = [] then Inl IndexError
      else let lastelt = last h; h' = butlast h
           in if h' = [] then Inr (lastelt, [])
              else Inr (h' ! 0, heap_siftup lt (h'[0 := lastelt]) 0))"

definition heapify :: "('a \<Rightarrow> 'a \<Rightarrow> bool) \<Rightarrow> 'a list \<Rightarrow> 'a list" where
  "heapify lt xs = foldl (heap_siftup lt) xs (rev [0..<length xs div 2])"

section \<open>Lengths and multisets\<close>

lemma length_siftdown_loop [simp, py_list]: "length (siftdown_loop lt x s h pos) = length h"
proof (induction lt x s h pos rule: siftdown_loop.induct)
  case (1 lt x s h pos)
  then show ?case by (simp add: siftdown_loop.simps [of lt x s h pos])
qed

lemma mset_siftdown_loop:
  "pos < length h \<Longrightarrow> mset (siftdown_loop lt x s h pos) = mset (h[pos := x])"
proof (induction lt x s h pos rule: siftdown_loop.induct)
  case (1 lt x s h pos)
  let ?pp = "parent pos"
  show ?case
  proof (cases "s < pos \<and> lt x (h ! ?pp)")
    case True
    have pp: "?pp < pos" using True by simp
    have "mset (h[pos := h ! ?pp, ?pp := x]) = mset ((h[pos := x])[pos := (h[pos := x]) ! ?pp, ?pp := (h[pos := x]) ! pos])"
      using pp 1(2) by simp
    also have "\<dots> = mset (h[pos := x])"
      by (rule mset_swap) (use pp 1(2) in auto)
    finally show ?thesis
      using 1 True pp by (simp add: siftdown_loop.simps [of lt x s h pos])
  next
    case False
    then show ?thesis by (subst siftdown_loop.simps) auto
  qed
qed

lemma length_siftup_loop [simp, py_list]:
  "length (fst (siftup_loop lt h pos)) = length h"
proof (induction lt h pos rule: siftup_loop.induct)
  case (1 lt h pos)
  then show ?case by (auto simp: siftup_loop.simps [of lt h pos] Let_def)
qed

lemma siftup_loop_pos:
  "pos < length h \<Longrightarrow> snd (siftup_loop lt h pos) < length h"
proof (induction lt h pos rule: siftup_loop.induct)
  case (1 lt h pos)
  then show ?case by (auto simp: siftup_loop.simps [of lt h pos] Let_def)
qed

lemma mset_siftup_loop:
  "pos < length h \<Longrightarrow>
   mset ((fst (siftup_loop lt h pos))[snd (siftup_loop lt h pos) := x]) = mset (h[pos := x])"
proof (induction lt h pos rule: siftup_loop.induct)
  case (1 lt h pos)
  define c where "c = (if 2 * pos + 2 < length h \<and> \<not> lt (h ! (2 * pos + 1)) (h ! (2 * pos + 2))
              then 2 * pos + 2 else 2 * pos + 1)"
  show ?case
  proof (cases "2 * pos + 1 < length h")
    case True
    have c: "pos < c" "c < length h" using True by (auto simp: c_def)
    have eq: "siftup_loop lt h pos = siftup_loop lt (h[pos := h ! c]) c"
      using True by (subst siftup_loop.simps) (simp add: c_def Let_def)
    have "mset (h[pos := h ! c, c := x]) = mset ((h[pos := x])[pos := (h[pos := x]) ! c, c := (h[pos := x]) ! pos])"
      using c by simp
    also have "\<dots> = mset (h[pos := x])"
      by (rule mset_swap) (use c in auto)
    finally have sw: "mset (h[pos := h ! c, c := x]) = mset (h[pos := x])" .
    have "mset ((fst (siftup_loop lt (h[pos := h ! c]) c))[snd (siftup_loop lt (h[pos := h ! c]) c) := x])
        = mset ((h[pos := h ! c])[c := x])"
      using 1(1)[OF True c_def] c by simp
    then show ?thesis by (simp add: eq sw)
  next
    case False
    then show ?thesis by (subst (1 2) siftup_loop.simps) simp
  qed
qed

lemma length_heap_siftup [simp, py_list]: "length (heap_siftup lt h pos) = length h"
  by (simp add: heap_siftup_def heap_siftdown_def split: prod.split)
    (metis fst_conv length_siftup_loop)

lemma mset_heap_siftup: "pos < length h \<Longrightarrow> mset (heap_siftup lt h pos) = mset h"
proof -
  assume pos: "pos < length h"
  obtain h' p' where l: "siftup_loop lt h pos = (h', p')" by fastforce
  have len: "length h' = length h" "p' < length h"
    using length_siftup_loop [of lt h pos] siftup_loop_pos [OF pos, of lt] by (simp_all add: l)
  have "mset (heap_siftup lt h pos) = mset (h'[p' := h ! pos])"
    using len by (simp add: heap_siftup_def heap_siftdown_def l mset_siftdown_loop)
  also have "\<dots> = mset h"
    using mset_siftup_loop [OF pos, of lt "h ! pos"] by (simp add: l)
  finally show ?thesis .
qed

lemma mset_heappush [simp, py_list]: "mset (heappush lt h x) = add_mset x (mset h)"
  by (simp add: heappush_def heap_siftdown_def mset_siftdown_loop)

lemma length_heappush [simp, py_list]: "length (heappush lt h x) = Suc (length h)"
  by (simp add: heappush_def heap_siftdown_def)

lemma set_heappush [simp, py_list]: "set (heappush lt h x) = insert x (set h)"
  by (metis mset_heappush set_mset_add_mset_insert set_mset_mset)

lemma heappop_total: "h \<noteq> [] \<Longrightarrow> \<exists>x h'. heappop lt h = Inr (x, h')"
  by (simp add: heappop_def Let_def)

lemma mset_heappop: "heappop lt h = Inr (x, h') \<Longrightarrow> mset h = add_mset x (mset h')"
proof -
  assume a: "heappop lt h = Inr (x, h')"
  then have ne: "h \<noteq> []" by (auto simp: heappop_def)
  then have mh: "mset h = add_mset (last h) (mset (butlast h))"
    by (metis append_butlast_last_id mset.simps(2) mset_append mset.simps(1) add_mset_add_single)
  show ?thesis
  proof (cases "butlast h = []")
    case True
    with a ne mh show ?thesis by (auto simp: heappop_def)
  next
    case False
    then have x: "x = butlast h ! 0" and h': "h' = heap_siftup lt ((butlast h)[0 := last h]) 0"
      using a ne by (auto simp: heappop_def Let_def)
    have "mset h' = mset ((butlast h)[0 := last h])"
      unfolding h' by (rule mset_heap_siftup) (use False in \<open>cases h; auto\<close>)
    also have "\<dots> = add_mset (last h) (mset (butlast h) - {#butlast h ! 0#})"
      by (rule mset_update) (use False in \<open>cases h; auto\<close>)
    finally have h'_eq: "mset h' = add_mset (last h) (mset (butlast h) - {#butlast h ! 0#})" .
    have "butlast h ! 0 \<in># mset (butlast h)"
      using False by (metis length_greater_0_conv nth_mem set_mset_mset)
    then show ?thesis using h'_eq mh x by simp
  qed
qed

lemma length_heappop: "heappop lt h = Inr (x, h') \<Longrightarrow> length h = Suc (length h')"
  by (metis mset_heappop size_add_mset size_mset)

lemma set_heappop: "heappop lt h = Inr (x, h') \<Longrightarrow> set h = insert x (set h')"
  by (metis mset_heappop set_mset_add_mset_insert set_mset_mset)

lemma heapify_fold:
  "(\<forall>i\<in>set is. i < length xs) \<Longrightarrow>
   mset (foldl (heap_siftup lt) xs is) = mset xs \<and> length (foldl (heap_siftup lt) xs is) = length xs"
  by (induction "is" arbitrary: xs) (auto simp: mset_heap_siftup)

lemma mset_heapify [simp, py_list]: "mset (heapify lt xs) = mset xs"
  unfolding heapify_def by (rule heapify_fold [THEN conjunct1]) auto

lemma length_heapify [simp, py_list]: "length (heapify lt xs) = length xs"
  by (metis mset_heapify size_mset)

section \<open>The heap order\<close>

text \<open>
  \<open>heap_from lt s h\<close>: in the part of the array whose parents are at \<open>s\<close> or after it, no item
  is smaller than its parent. \<open>below s pos\<close>: \<open>pos\<close> is in the subtree of \<open>s\<close>.
\<close>

definition heap_from :: "('a \<Rightarrow> 'a \<Rightarrow> bool) \<Rightarrow> nat \<Rightarrow> 'a list \<Rightarrow> bool" where
  "heap_from lt s h \<longleftrightarrow> (\<forall>i. 0 < i \<and> i < length h \<and> s \<le> parent i \<longrightarrow> \<not> lt (h ! i) (h ! parent i))"

inductive below :: "nat \<Rightarrow> nat \<Rightarrow> bool" where
  below_refl: "below s s"
| left: "below s p \<Longrightarrow> below s (2 * p + 1)"
| right: "below s p \<Longrightarrow> below s (2 * p + 2)"

lemma below_ge: "below s p \<Longrightarrow> s \<le> p"
  by (induction rule: below.induct) auto

lemma below_parent: "below s p \<Longrightarrow> s < p \<Longrightarrow> below s (parent p)"
  by (induction rule: below.induct) (auto dest: below_ge)

lemma below_0: "below 0 p"
proof (induction p rule: less_induct)
  case (less p)
  consider "p = 0" | q where "p = 2 * q + 1" | q where "p = 2 * q + 2"
    by (metis add_2_eq_Suc' add_Suc_right even_Suc evenE nat.exhaust oddE plus_1_eq_Suc
        One_nat_def add.right_neutral mult_Suc_right)
  then show ?case
    by cases (use less below.intros in auto)
qed

text \<open>What holds while \<open>siftdown_loop\<close> moves \<open>x\<close> up: only \<open>pos\<close> may be smaller than its parent.\<close>

definition down_inv :: "('a \<Rightarrow> 'a \<Rightarrow> bool) \<Rightarrow> nat \<Rightarrow> 'a list \<Rightarrow> nat \<Rightarrow> bool" where
  "down_inv lt s g pos \<longleftrightarrow> pos < length g \<and> below s pos \<and>
     (\<forall>i. 0 < i \<and> i < length g \<and> s \<le> parent i \<and> i \<noteq> pos \<longrightarrow> \<not> lt (g ! i) (g ! parent i)) \<and>
     (\<forall>i. 0 < i \<and> i < length g \<and> parent i = pos \<and> s < pos \<longrightarrow> \<not> lt (g ! i) (g ! parent pos))"

text \<open>What holds while \<open>siftup_loop\<close> moves the hole at \<open>pos\<close> down.\<close>

definition up_inv :: "('a \<Rightarrow> 'a \<Rightarrow> bool) \<Rightarrow> nat \<Rightarrow> 'a list \<Rightarrow> nat \<Rightarrow> bool" where
  "up_inv lt s h pos \<longleftrightarrow> pos < length h \<and> below s pos \<and>
     (\<forall>i. 0 < i \<and> i < length h \<and> s \<le> parent i \<and> i \<noteq> pos \<and> parent i \<noteq> pos \<longrightarrow>
        \<not> lt (h ! i) (h ! parent i)) \<and>
     (\<forall>i. 0 < i \<and> i < length h \<and> parent i = pos \<and> s < pos \<longrightarrow> \<not> lt (h ! i) (h ! parent pos))"

context weak_order begin

lemma down_inv_step:
  assumes inv: "down_inv lt s (h[pos := x]) pos" and s: "s < pos" and lt: "lt x (h ! parent pos)"
  shows "down_inv lt s ((h[pos := h ! parent pos])[parent pos := x]) (parent pos)"
proof -
  let ?pp = "parent pos" let ?g = "h[pos := x]" let ?g' = "(h[pos := h ! ?pp])[?pp := x]"
  have pp: "?pp < pos" "pos < length h" using s inv by (auto simp: down_inv_def)
  have g: "?g ! pos = x" "?g ! ?pp = h ! ?pp" "?g' ! ?pp = x" "?g' ! pos = h ! ?pp"
    using pp by auto
  have same: "?g' ! i = ?g ! i" if "i \<noteq> pos" "i \<noteq> ?pp" for i
    using that by auto
  have bel: "below s ?pp" using inv s by (auto simp: down_inv_def intro: below_parent)
  have up: "\<not> lt (?g ! i) (?g ! parent i)"
    if "0 < i" "i < length h" "s \<le> parent i" "i \<noteq> pos" for i
    using inv that by (simp add: down_inv_def)
  have gp: "\<not> lt (?g ! i) (h ! ?pp)" if "0 < i" "i < length h" "parent i = pos" for i
    using inv that s g by (auto simp: down_inv_def)
  have notlt: "\<not> lt (h ! ?pp) x" using lt lt_asym by blast
  have main: "\<not> lt (?g' ! i) (?g' ! parent i)"
    if i: "0 < i" "i < length h" "s \<le> parent i" "i \<noteq> ?pp" for i
  proof (cases "i = pos")
    case True
    then show ?thesis using notlt g by simp
  next
    case False
    then have gi: "?g' ! i = ?g ! i" using i same by simp
    consider "parent i = pos" | "parent i = ?pp" | "parent i \<noteq> pos" "parent i \<noteq> ?pp" by blast
    then show ?thesis
    proof cases
      case 1
      then show ?thesis using gp i gi g(4) by metis
    next
      case 2
      then have "\<not> lt (?g ! i) (h ! ?pp)" using up [of i] i False g by metis
      then have "\<not> lt (?g ! i) x" using notlt not_lt_trans by blast
      then show ?thesis using 2 gi g(3) by metis
    next
      case 3
      then show ?thesis using up [of i] i False gi same by metis
    qed
  qed
  have grand: "\<not> lt (?g' ! i) (?g' ! parent ?pp)"
    if i: "0 < i" "i < length h" "parent i = ?pp" "s < ?pp" for i
  proof -
    have "parent ?pp < ?pp" using i(4) by (intro parent_less) simp
    then have q: "parent ?pp \<noteq> ?pp" "parent ?pp \<noteq> pos" using pp by auto
    have sp: "s \<le> parent ?pp" using below_parent [OF bel i(4)] below_ge by blast
    have top: "\<not> lt (h ! ?pp) (?g ! parent ?pp)" using up [of ?pp] sp pp i(4) g by auto
    show ?thesis
    proof (cases "i = pos")
      case True
      then show ?thesis using top g(4) same q by metis
    next
      case False
      have ip: "i \<noteq> ?pp" using parent_less [OF i(1)] i(3) by auto
      have "\<not> lt (?g ! i) (h ! ?pp)" using up [of i] i False g(2) by (metis less_imp_le_nat)
      then have "\<not> lt (?g ! i) (?g ! parent ?pp)" using top not_lt_trans by blast
      then show ?thesis using same False ip q by metis
    qed
  qed
  show ?thesis
    unfolding down_inv_def using pp bel main grand by simp
qed

lemma down_inv_done:
  "down_inv lt s g pos \<Longrightarrow> \<not> (s < pos \<and> lt (g ! pos) (g ! parent pos)) \<Longrightarrow> heap_from lt s g"
proof -
  assume inv: "down_inv lt s g pos" and stop: "\<not> (s < pos \<and> lt (g ! pos) (g ! parent pos))"
  have "\<not> lt (g ! i) (g ! parent i)" if i: "0 < i" "i < length g" "s \<le> parent i" for i
  proof (cases "i = pos")
    case True
    have "parent pos < pos" using i True by simp
    then have "s < pos" using i(3) unfolding True by (rule le_less_trans [rotated])
    then show ?thesis using stop True by simp
  qed (use inv i in \<open>simp add: down_inv_def\<close>)
  then show ?thesis by (simp add: heap_from_def)
qed

lemma siftdown_loop_heap:
  "down_inv lt s (h[pos := x]) pos \<Longrightarrow> heap_from lt s (siftdown_loop lt x s h pos)"
proof (induction pos arbitrary: h rule: less_induct)
  case (less pos)
  have pos: "pos < length h" using less.prems by (simp add: down_inv_def)
  show ?case
  proof (cases "s < pos \<and> lt x (h ! parent pos)")
    case True
    then have "heap_from lt s (siftdown_loop lt x s (h[pos := h ! parent pos]) (parent pos))"
      using less.IH [of "parent pos"] down_inv_step [OF less.prems] by simp
    with True show ?thesis by (simp add: siftdown_loop.simps [of lt x s h pos])
  next
    case False
    then have "heap_from lt s (h[pos := x])"
      using down_inv_done [OF less.prems] pos
      by (metis le_less_trans less_irrefl nth_list_update_eq nth_list_update_neq parent_less zero_le)
    with False show ?thesis by (subst siftdown_loop.simps) auto
  qed
qed

lemma up_inv_step:
  assumes inv: "up_inv lt s h pos" and c: "0 < c" "c < length h" "parent c = pos"
    and least: "\<And>i. 0 < i \<Longrightarrow> i < length h \<Longrightarrow> parent i = pos \<Longrightarrow> \<not> lt (h ! i) (h ! c)"
  shows "up_inv lt s (h[pos := h ! c]) c"
proof -
  have pc: "pos < c" "pos < length h" using c parent_less [of c] by auto
  have bel: "below s c"
    using inv c(1,3) below.intros(2,3) [of s pos] by (auto simp: up_inv_def parent_iff)
  have sp: "s \<le> pos" using inv below_ge by (auto simp: up_inv_def)
  have a: "\<not> lt (h ! i) (h ! parent i)"
    if "0 < i" "i < length h" "s \<le> parent i" "i \<noteq> pos" "parent i \<noteq> pos" for i
    using inv that by (simp add: up_inv_def)
  have b: "\<not> lt (h ! i) (h ! parent pos)" if "0 < i" "i < length h" "parent i = pos" "s < pos" for i
    using inv that by (simp add: up_inv_def)
  let ?h = "h[pos := h ! c]"
  have main: "\<not> lt (?h ! i) (?h ! parent i)"
    if i: "0 < i" "i < length h" "s \<le> parent i" "i \<noteq> c" "parent i \<noteq> c" for i
  proof (cases "i = pos")
    case True
    then have "parent pos < pos" using i(1) by simp
    then have "s < pos" using i(3) unfolding True by (rule le_less_trans [rotated])
    then show ?thesis using b [of c] c True pc \<open>parent pos < pos\<close>
      by (metis length_list_update nth_list_update_eq nth_list_update_neq less_irrefl)
  next
    case False
    then show ?thesis using a [of i] least [of i] i pc by (cases "parent i = pos") auto
  qed
  have "\<not> lt (?h ! i) (?h ! parent c)" if i: "0 < i" "i < length h" "parent i = c" for i
  proof -
    have "c < i" using i parent_less by metis
    then show ?thesis using a [of i] i c pc sp by auto
  qed
  with main bel c show ?thesis by (simp add: up_inv_def)
qed

lemma siftup_loop_inv:
  "up_inv lt s h pos \<Longrightarrow> siftup_loop lt h pos = (h', p') \<Longrightarrow>
   up_inv lt s h' p' \<and> length h' \<le> 2 * p' + 1"
proof (induction "length h - pos" arbitrary: h pos rule: less_induct)
  case less
  define c where "c = (if 2 * pos + 2 < length h \<and> \<not> lt (h ! (2 * pos + 1)) (h ! (2 * pos + 2))
              then 2 * pos + 2 else 2 * pos + 1)"
  show ?case
  proof (cases "2 * pos + 1 < length h")
    case True
    have c: "0 < c" "c < length h" "parent c = pos" "pos < c"
      using True by (auto simp: c_def)
    have eq: "siftup_loop lt h pos = siftup_loop lt (h[pos := h ! c]) c"
      using True by (subst siftup_loop.simps) (simp add: c_def Let_def)
    have "\<not> lt (h ! i) (h ! c)" if "0 < i" "i < length h" "parent i = pos" for i
      using that lt_irrefl lt_asym by (auto simp: parent_iff c_def)
    then have "up_inv lt s (h[pos := h ! c]) c"
      using less.prems(1) c by (intro up_inv_step) auto
    then show ?thesis
      using less.hyps [of "h[pos := h ! c]" c] less.prems(2) c eq by auto
  next
    case False
    then have "h' = h" "p' = pos" using less.prems(2) by (auto simp: siftup_loop.simps [of lt h pos])
    with less.prems(1) False show ?thesis by simp
  qed
qed

lemma heap_siftup_heap:
  assumes heap: "heap_from lt (Suc s) h" and s: "s < length h"
  shows "heap_from lt s (heap_siftup lt h s)"
proof -
  obtain h' p' where l: "siftup_loop lt h s = (h', p')" by fastforce
  have "up_inv lt s h s"
    using heap s by (auto simp: up_inv_def heap_from_def intro: below_refl)
  then have inv: "up_inv lt s h' p'" "length h' \<le> 2 * p' + 1"
    using siftup_loop_inv [OF _ l] by auto
  have noch: "parent i \<noteq> p'" if "0 < i" "i < length h'" for i
    using that inv(2) by (auto simp: parent_iff)
  have "down_inv lt s (h'[p' := h ! s]) p'"
    using inv(1) noch by (auto simp: down_inv_def up_inv_def nth_list_update)
  then have "heap_from lt s (siftdown_loop lt (h ! s) s (h'[p' := h ! s]) p')"
    using siftdown_loop_heap [of s "h'[p' := h ! s]"] by simp
  moreover have "p' < length h'" using inv(1) by (simp add: up_inv_def)
  ultimately show ?thesis by (simp add: heap_siftup_def heap_siftdown_def l)
qed

lemma heappush_heap: "heap_from lt 0 h \<Longrightarrow> heap_from lt 0 (heappush lt h x)"
proof -
  assume heap: "heap_from lt 0 h"
  have "down_inv lt 0 ((h @ [x])[length h := x]) (length h)"
  proof -
    have "\<not> lt ((h @ [x]) ! i) ((h @ [x]) ! parent i)" if "0 < i" "i < length h" for i
    proof -
      have "parent i < length h" using that parent_less [of i] by linarith
      with heap that show ?thesis by (simp add: heap_from_def nth_append)
    qed
    moreover have "parent i \<noteq> length h" if "0 < i" "i < Suc (length h)" for i
      using that parent_less [of i] by linarith
    ultimately show ?thesis by (auto simp: down_inv_def below_0 less_Suc_eq)
  qed
  then show ?thesis
    unfolding heappush_def heap_siftdown_def using siftdown_loop_heap [of 0 "h @ [x]" "length h" x]
    by simp
qed

lemma heap_root_least: "heap_from lt 0 h \<Longrightarrow> i < length h \<Longrightarrow> \<not> lt (h ! i) (h ! 0)"
proof (induction i rule: less_induct)
  case (less i)
  show ?case
  proof (cases "i = 0")
    case True
    then show ?thesis by (simp add: lt_irrefl)
  next
    case False
    then have p: "parent i < i" by simp
    then have "\<not> lt (h ! parent i) (h ! 0)" "\<not> lt (h ! i) (h ! parent i)"
      using less False by (auto simp: heap_from_def)
    then show ?thesis using not_lt_trans by blast
  qed
qed

lemma heappop_heap:
  assumes heap: "heap_from lt 0 h" and pop: "heappop lt h = Inr (x, h')"
  shows "heap_from lt 0 h' \<and> (\<forall>y\<in>set h'. \<not> lt y x)"
proof -
  have ne: "h \<noteq> []" using pop by (auto simp: heappop_def)
  have x: "x = h ! 0"
    using pop ne by (cases h rule: rev_cases) (auto simp: heappop_def Let_def nth_append split: if_splits)
  have "heap_from lt 0 h'"
  proof (cases "butlast h = []")
    case True
    with pop ne show ?thesis by (auto simp: heappop_def heap_from_def)
  next
    case False
    then have h': "h' = heap_siftup lt ((butlast h)[0 := last h]) 0"
      using pop ne by (auto simp: heappop_def Let_def)
    have "heap_from lt (Suc 0) ((butlast h)[0 := last h])"
      unfolding heap_from_def
    proof (intro allI impI)
      fix i assume i: "0 < i \<and> i < length ((butlast h)[0 := last h]) \<and> Suc 0 \<le> parent i"
      then have "parent i < length h - 1" by (auto intro: less_trans [OF parent_less])
      then have "(butlast h)[0 := last h] ! i = h ! i" "(butlast h)[0 := last h] ! parent i = h ! parent i"
        using i by (auto simp: nth_list_update nth_butlast)
      then show "\<not> lt ((butlast h)[0 := last h] ! i) ((butlast h)[0 := last h] ! parent i)"
        using heap i by (auto simp: heap_from_def)
    qed
    then show ?thesis unfolding h' by (rule heap_siftup_heap) (use False in \<open>cases h; auto\<close>)
  qed
  moreover have "\<not> lt y x" if "y \<in> set h'" for y
    using that heap_root_least [OF heap] set_heappop [OF pop] x
    by (metis in_set_conv_nth insert_iff)
  ultimately show ?thesis by blast
qed

lemma heapify_heap: "heap_from lt 0 (heapify lt xs)"
proof -
  have "heap_from lt 0 (foldl (heap_siftup lt) xs (rev [0..<n]))"
    if "heap_from lt n xs" "n \<le> length xs" for n xs
    using that
  proof (induction n arbitrary: xs)
    case (Suc n)
    then have "heap_from lt n (heap_siftup lt xs n)" by (intro heap_siftup_heap) auto
    with Suc show ?case by simp
  qed simp
  moreover have "heap_from lt (length xs div 2) xs"
    by (auto simp: heap_from_def parent_def)
  ultimately show ?thesis unfolding heapify_def by simp
qed

end

end
