(* ===== verification/Partitioning.thy ===== *)
theory Partitioning
  imports Heapq
begin

text \<open>
  The partitioner of \<open>verl/utils/seqlen_balancing.py\<close>: \<open>karmarkar_karp\<close> (the largest
  differencing method with its classes \<open>Set\<close> and \<open>State\<close> and its \<open>heapq\<close> of states),
  \<open>greedy_partition\<close>, \<open>get_seqlen_balanced_partitions\<close> with its checks, and
  \<open>log_seqlen_unbalance\<close>.

  Sequence lengths and workloads are Python integers (\<open>int\<close>), indices into the list and the
  number of partitions are counts (\<open>nat\<close>). Every \<open>assert\<close> and every indexing that can fail is
  an \<open>Inl\<close> branch.
\<close>

section \<open>The classes \<open>Set\<close> and \<open>State\<close>\<close>

record kk_set =
  set_sum :: int
  set_items :: "(nat \<times> int) list"

definition set_init :: kk_set where
  "set_init = \<lparr>set_sum = 0, set_items = []\<rparr>"

definition set_add :: "kk_set \<Rightarrow> nat \<Rightarrow> int \<Rightarrow> kk_set" where
  "set_add s idx val = s\<lparr>set_items := set_items s @ [(idx, val)], set_sum := set_sum s + val\<rparr>"

definition set_merge :: "kk_set \<Rightarrow> kk_set \<Rightarrow> kk_set" where
  "set_merge s other = foldl (\<lambda>s (idx, val). set_add s idx val) s (set_items other)"

definition set_lt :: "kk_set \<Rightarrow> kk_set \<Rightarrow> bool" where
  "set_lt s other =
     (if set_sum s \<noteq> set_sum other then set_sum s < set_sum other
      else if length (set_items s) \<noteq> length (set_items other)
      then length (set_items s) < length (set_items other)
      else set_items s < set_items other)"

record kk_state =
  st_k :: nat
  st_sets :: "kk_set list"

definition state_init :: "(nat \<times> int) list \<Rightarrow> nat \<Rightarrow> kk_state result" where
  "state_init items k =
     (if length items \<noteq> 1 \<and> length items \<noteq> k then Inl (AssertionError ''len(items) not in [1, k]'')
      else rbind
        (rfold (\<lambda>sets (i, idx, seqlen).
             rbind (py_get sets i) (\<lambda>s. Inr (sets[i := set_add s idx seqlen])))
           (replicate k set_init) (enumerate 0 items))
        (\<lambda>sets. Inr \<lparr>st_k = k, st_sets = py_sorted_rev set_lt sets\<rparr>))"

definition get_partitions :: "kk_state \<Rightarrow> nat list list" where
  "get_partitions st = map (\<lambda>s. map fst (set_items s)) (st_sets st)"

definition state_merge :: "kk_state \<Rightarrow> kk_state \<Rightarrow> kk_state" where
  "state_merge st other = st\<lparr>st_sets := py_sorted_rev set_lt
     (map (\<lambda>i. set_merge (st_sets st ! i) (st_sets other ! (st_k st - 1 - i))) [0..<st_k st])\<rparr>"

definition spread :: "kk_state \<Rightarrow> int" where
  "spread st = set_sum (hd (st_sets st)) - set_sum (last (st_sets st))"

definition state_lt :: "kk_state \<Rightarrow> kk_state \<Rightarrow> bool" where
  "state_lt st other =
     (if spread st \<noteq> spread other then spread st > spread other
      else set_lt (hd (st_sets other)) (hd (st_sets st)))"

section \<open>\<open>karmarkar_karp\<close>\<close>

text \<open>The loop \<open>while len(states_pq) > 1\<close>.\<close>

function kk_loop :: "kk_state list \<Rightarrow> kk_state list result" where
  "kk_loop pq =
     (if 1 < length pq
      then rbind (heappop state_lt pq) (\<lambda>(state0, pq1).
           rbind (heappop state_lt pq1) (\<lambda>(state1, pq2).
           kk_loop (heappush state_lt pq2 (state_merge state0 state1))))
      else Inr pq)"
  by pat_completeness auto
termination
  by (relation "measure length") (auto dest!: length_heappop)

declare kk_loop.simps [simp del]

text \<open>The items of the initial states: blocks of \<open>k\<close> sorted items, or one item each.\<close>

definition kk_blocks :: "int list \<Rightarrow> nat \<Rightarrow> bool \<Rightarrow> (nat \<times> int) list list result" where
  "kk_blocks seqlen_list k_partitions equal_size =
     (let sorted_seqlen_list = py_sorted (<) (map (\<lambda>(i, seqlen). (seqlen, i)) (enumerate 0 seqlen_list));
          items = map (\<lambda>(seqlen, idx). (idx, seqlen)) sorted_seqlen_list
      in if equal_size
         then if k_partitions = 0 then Inl ZeroDivisionError
              else if length seqlen_list mod k_partitions \<noteq> 0
              then Inl (AssertionError ''len(seqlen_list) % k_partitions != 0'')
              else Inr (chunks k_partitions items)
         else Inr (map (\<lambda>x. [x]) items))"

definition equal_size_check :: "int list \<Rightarrow> nat \<Rightarrow> bool \<Rightarrow> nat list list \<Rightarrow> nat list list result" where
  "equal_size_check seqlen_list k_partitions equal_size partitions =
     (if equal_size \<and> (\<exists>p\<in>set partitions. length p * k_partitions \<noteq> length seqlen_list)
      then Inl (AssertionError ''len(partition) * k_partitions != len(seqlen_list)'')
      else Inr partitions)"

definition karmarkar_karp :: "int list \<Rightarrow> nat \<Rightarrow> bool \<Rightarrow> nat list list result" where
  "karmarkar_karp seqlen_list k_partitions equal_size =
     rbind (kk_blocks seqlen_list k_partitions equal_size) (\<lambda>blocks.
     rbind (rfold (\<lambda>pq items. rbind (state_init items k_partitions)
                     (\<lambda>st. Inr (heappush state_lt pq st))) [] blocks) (\<lambda>states_pq.
     rbind (kk_loop states_pq) (\<lambda>pq.
     rbind (py_get pq 0) (\<lambda>final_state.
     equal_size_check seqlen_list k_partitions equal_size (get_partitions final_state)))))"

section \<open>\<open>greedy_partition\<close>\<close>

text \<open>The inner loop that finds the first partition with the smallest sum.\<close>

fun min_idx_loop :: "int list \<Rightarrow> nat list \<Rightarrow> nat option \<Rightarrow> nat option" where
  "min_idx_loop psums [] min_idx = min_idx"
| "min_idx_loop psums (j # js) None = min_idx_loop psums js (Some j)"
| "min_idx_loop psums (j # js) (Some m) =
     min_idx_loop psums js (Some (if psums ! j < psums ! m then j else m))"

definition greedy_step :: "nat \<Rightarrow> nat list list \<times> int list \<Rightarrow> int \<times> nat \<Rightarrow> (nat list list \<times> int list) result" where
  "greedy_step k_partitions ps_sums item =
     (case (ps_sums, item) of ((partitions, psums), (seqlen, i)) \<Rightarrow>
       case min_idx_loop psums [0..<k_partitions] None of
         None \<Rightarrow> Inl (TypeError ''list indices must be integers'')
       | Some m \<Rightarrow> Inr (partitions[m := partitions ! m @ [i]], psums[m := psums ! m + seqlen]))"

definition greedy_partition :: "int list \<Rightarrow> nat \<Rightarrow> bool \<Rightarrow> nat list list result" where
  "greedy_partition seqlen_list k_partitions equal_size =
     (let bias = (if equal_size then sum_list seqlen_list + 1 else 0);
          sorted_seqlen = map (\<lambda>(i, seqlen). (seqlen + bias, i)) (enumerate 0 seqlen_list)
      in rbind (rfold (greedy_step k_partitions)
                 (replicate k_partitions [], replicate k_partitions 0) sorted_seqlen)
           (\<lambda>(partitions, _). equal_size_check seqlen_list k_partitions equal_size partitions))"

section \<open>\<open>get_seqlen_balanced_partitions\<close>\<close>

definition check_and_sort_partitions :: "int list \<Rightarrow> nat \<Rightarrow> nat list list \<Rightarrow> nat list list result" where
  "check_and_sort_partitions seqlen_list k_partitions partitions =
     (if length partitions \<noteq> k_partitions then Inl (AssertionError ''len(partitions) != k_partitions'')
      else if \<exists>p\<in>set partitions. p = [] then Inl (AssertionError ''partition is empty'')
      else if set (concat partitions) \<noteq> set [0..<length seqlen_list]
      then Inl (AssertionError ''seen_idx'')
      else Inr (map (py_sorted (<)) partitions))"

definition get_seqlen_balanced_partitions :: "int list \<Rightarrow> nat \<Rightarrow> bool \<Rightarrow> nat list list result" where
  "get_seqlen_balanced_partitions seqlen_list k_partitions equal_size =
     (if length seqlen_list < k_partitions
      then Inl (AssertionError ''number of items < k_partitions'')
      else rbind (karmarkar_karp seqlen_list k_partitions equal_size)
             (check_and_sort_partitions seqlen_list k_partitions))"


section \<open>The comparisons are strict weak orders\<close>

lemma set_lt_iff:
  "set_lt a b \<longleftrightarrow> (set_sum a, length (set_items a), set_items a) < (set_sum b, length (set_items b), set_items b)"
  by (auto simp: set_lt_def less_prod_def)

interpretation set_order: weak_order set_lt
  by unfold_locales (auto simp: set_lt_iff)

interpretation state_order: weak_order state_lt
proof unfold_locales
  fix x y z
  show "state_lt x y \<Longrightarrow> \<not> state_lt y x"
    by (auto simp: state_lt_def set_order.lt_asym split: if_splits)
  show "\<not> state_lt x y \<Longrightarrow> \<not> state_lt y z \<Longrightarrow> \<not> state_lt x z"
    by (auto simp: state_lt_def split: if_splits dest: set_order.not_lt_trans)
qed

section \<open>Sets and states keep their items\<close>

definition set_ok :: "kk_set \<Rightarrow> bool" where
  "set_ok s \<longleftrightarrow> set_sum s = sum_list (map snd (set_items s))"

lemma set_merge_sel [simp]:
  "set_items (set_merge s t) = set_items s @ set_items t"
  "set_sum (set_merge s t) = set_sum s + sum_list (map snd (set_items t))"
proof -
  have "set_items (foldl (\<lambda>s (idx, val). set_add s idx val) s xs) = set_items s @ xs \<and>
      set_sum (foldl (\<lambda>s (idx, val). set_add s idx val) s xs) = set_sum s + sum_list (map snd xs)" for xs
    by (induction xs arbitrary: s) (auto simp: set_add_def)
  then show "set_items (set_merge s t) = set_items s @ set_items t"
    "set_sum (set_merge s t) = set_sum s + sum_list (map snd (set_items t))"
    by (simp_all add: set_merge_def)
qed

definition st_items :: "kk_state \<Rightarrow> (nat \<times> int) list" where
  "st_items st = concat (map set_items (st_sets st))"

definition state_ok :: "nat \<Rightarrow> kk_state \<Rightarrow> bool" where
  "state_ok k st \<longleftrightarrow> st_k st = k \<and> length (st_sets st) = k \<and> (\<forall>s\<in>set (st_sets st). set_ok s) \<and>
     sorted_wrt (\<lambda>s t. \<not> set_lt s t) (st_sets st)"

abbreviation single :: "nat \<times> int \<Rightarrow> kk_set" where
  "single x \<equiv> \<lparr>set_sum = snd x, set_items = [x]\<rparr>"

lemma state_init_fold:
  "length done + length items \<le> k \<Longrightarrow>
   rfold (\<lambda>sets (i, idx, seqlen). rbind (py_get sets i) (\<lambda>s. Inr (sets[i := set_add s idx seqlen])))
     (done @ replicate (k - length done) set_init) (enumerate (length done) items) =
   Inr (done @ map single items @ replicate (k - length done - length items) set_init)"
proof (induction items arbitrary: "done")
  case Nil
  then show ?case by simp
next
  case (Cons x items)
  obtain idx v where x: "x = (idx, v)" by fastforce
  have rep: "replicate (k - length done) set_init = set_init # replicate (k - length (done @ [y])) set_init" for y
  proof -
    obtain m where m: "k - length done = Suc m"
      using Cons.prems by (cases "k - length done") auto
    then have "k - Suc (length done) = m" by simp
    with m show ?thesis by simp
  qed
  have upd: "(done @ replicate (k - length done) set_init)[length done := set_add set_init idx v] =
      (done @ [single x]) @ replicate (k - length (done @ [single x])) set_init"
    using rep [of "single x"] by (simp add: set_add_def set_init_def x)
  show ?case
    using Cons.IH [of "done @ [single x]"] Cons.prems upd rep [of "single x"]
    by (simp add: x nth_append py_get_def)
qed

lemma state_init_eq:
  assumes "length items = 1 \<or> length items = k" "0 < k"
  shows "state_init items k =
    Inr \<lparr>st_k = k, st_sets = py_sorted_rev set_lt (map single items @ replicate (k - length items) set_init)\<rparr>"
proof -
  have "length ([] :: kk_set list) + length items \<le> k" using assms by auto
  from state_init_fold [OF this] show ?thesis using assms by (auto simp: state_init_def)
qed

lemma mset_set_items_cong:
  "mset xs = mset ys \<Longrightarrow> mset (concat (map set_items xs)) = mset (concat (map set_items ys))"
  by (rule mset_concat_swap) simp

lemma state_init_ok:
  assumes "length items = 1 \<or> length items = k" "0 < k" "state_init items k = Inr st"
  shows "state_ok k st" "mset (st_items st) = mset items"
    "mset (st_sets st) = mset (map single items @ replicate (k - length items) set_init)"
proof -
  have st: "st = \<lparr>st_k = k, st_sets = py_sorted_rev set_lt (map single items @ replicate (k - length items) set_init)\<rparr>"
    using assms state_init_eq by auto
  show ms: "mset (st_sets st) = mset (map single items @ replicate (k - length items) set_init)"
    by (simp add: st)
  have "length items \<le> k" using assms by auto
  then show "state_ok k st"
    by (auto simp: state_ok_def st set_order.ordered_py_sorted_rev set_ok_def set_init_def)
  have one: "concat (map set_items (map single items)) = items"
    by (induction items) auto
  have "concat (replicate n ([] :: (nat \<times> int) list)) = []" for n by (induction n) auto
  with mset_set_items_cong [OF ms] show "mset (st_items st) = mset items"
    by (simp add: st_items_def one [unfolded map_map comp_def] comp_def map_replicate set_init_def)
qed

lemma mset_concat_zip_rev:
  "length xs = length ys \<Longrightarrow>
   mset (concat (map (\<lambda>i. f (xs ! i) @ f (ys ! (length xs - 1 - i))) [0..<length xs])) =
   mset (concat (map f xs)) + mset (concat (map f ys))"
proof -
  assume len: "length xs = length ys"
  have rev_eq: "map (\<lambda>i. f (ys ! (length xs - 1 - i))) [0..<length xs] = rev (map f ys)"
    by (rule nth_equalityI) (auto simp: len rev_nth)
  have fst_eq: "map (\<lambda>i. f (xs ! i)) [0..<length xs] = map f xs"
    by (rule nth_equalityI) auto
  have split: "mset (concat (map (\<lambda>i. g i @ h i) is)) = mset (concat (map g is)) + mset (concat (map h is))"
    for g h :: "nat \<Rightarrow> 'b list" and "is"
    by (induction "is") auto
  show ?thesis
    unfolding split fst_eq rev_eq by (simp add: mset_concat_swap [of "rev (map f ys)" "map f ys"])
qed

lemma state_merge_ok:
  assumes a: "state_ok k a" and b: "state_ok k b"
  shows "state_ok k (state_merge a b)" "mset (st_items (state_merge a b)) = mset (st_items a) + mset (st_items b)"
proof -
  let ?xs = "map (\<lambda>i. set_merge (st_sets a ! i) (st_sets b ! (k - 1 - i))) [0..<k]"
  have k: "st_k a = k" "length (st_sets a) = k" "length (st_sets b) = k"
    using a b by (auto simp: state_ok_def)
  have ok: "set_ok s" if "s \<in> set ?xs" for s
  proof -
    from that obtain i where i: "i < k" "s = set_merge (st_sets a ! i) (st_sets b ! (k - 1 - i))" by auto
    have "set_ok (st_sets a ! i)" "set_ok (st_sets b ! (k - 1 - i))"
      using i(1) a b k by (auto simp: state_ok_def)
    with i(2) show ?thesis by (simp add: set_ok_def)
  qed
  then show "state_ok k (state_merge a b)"
    using k by (auto simp: state_ok_def state_merge_def set_order.ordered_py_sorted_rev)
  have "mset (st_items (state_merge a b)) = mset (concat (map set_items ?xs))"
    unfolding st_items_def by (rule mset_set_items_cong) (simp add: state_merge_def k)
  also have "\<dots> = mset (st_items a) + mset (st_items b)"
    using mset_concat_zip_rev [of "st_sets a" "st_sets b" set_items] k
    by (simp add: st_items_def comp_def)
  finally show "mset (st_items (state_merge a b)) = mset (st_items a) + mset (st_items b)" .
qed

section \<open>The loop\<close>

text \<open>
  Whatever the comparison orders first, the loop ends with one state; a property of states that
  \<open>merge\<close> keeps holds for it, and it has all the items.
\<close>

lemma kk_loop_result:
  assumes "pq \<noteq> []" "\<And>st. st \<in> set pq \<Longrightarrow> state_ok k st \<and> P st"
    and "\<And>a b. state_ok k a \<Longrightarrow> state_ok k b \<Longrightarrow> P a \<Longrightarrow> P b \<Longrightarrow> P (state_merge a b)"
  shows "\<exists>st. kk_loop pq = Inr [st] \<and> state_ok k st \<and> P st \<and>
    mset (st_items st) = (\<Sum>s\<leftarrow>pq. mset (st_items s))"
  using assms(1,2)
proof (induction pq rule: kk_loop.induct)
  case (1 pq)
  show ?case
  proof (cases "1 < length pq")
    case False
    then obtain st where "pq = [st]" using 1(2) by (cases pq) auto
    then show ?thesis using 1(3) by (simp add: kk_loop.simps [of "[st]"])
  next
    case True
    obtain s0 pq1 where p0: "heappop state_lt pq = Inr (s0, pq1)" using heappop_total [OF 1(2)] by blast
    have "pq1 \<noteq> []" using length_heappop [OF p0] True by auto
    then obtain s1 pq2 where p1: "heappop state_lt pq1 = Inr (s1, pq2)" using heappop_total by blast
    let ?m = "state_merge s0 s1" let ?pq = "heappush state_lt pq2 ?m"
    have mem: "set pq = insert s0 (insert s1 (set pq2))"
      using set_heappop [OF p0] set_heappop [OF p1] by simp
    then have ok: "state_ok k s0 \<and> P s0" "state_ok k s1 \<and> P s1" using 1(3) by auto
    have m: "state_ok k ?m \<and> P ?m" using ok state_merge_ok assms(3) by auto
    have "mset pq = {#s0, s1#} + mset pq2"
      using mset_heappop [OF p0] mset_heappop [OF p1] by simp
    then have "(\<Sum>s\<leftarrow>pq. mset (st_items s)) = mset (st_items s0) + mset (st_items s1) + (\<Sum>s\<leftarrow>pq2. mset (st_items s))"
      by (simp add: sum_list_map_mset add.assoc)
    also have "\<dots> = (\<Sum>s\<leftarrow>?pq. mset (st_items s))"
      using state_merge_ok(2) [of k s0 s1] ok
      by (simp add: sum_list_map_mset)
    finally have sum: "(\<Sum>s\<leftarrow>pq. mset (st_items s)) = (\<Sum>s\<leftarrow>?pq. mset (st_items s))" .
    have "?pq \<noteq> []" "\<And>st. st \<in> set ?pq \<Longrightarrow> state_ok k st \<and> P st"
      using m 1(3) mem by (auto simp: length_0_conv [symmetric] simp del: length_0_conv)
    then have "\<exists>st. kk_loop ?pq = Inr [st] \<and> state_ok k st \<and> P st \<and>
        mset (st_items st) = (\<Sum>s\<leftarrow>?pq. mset (st_items s))"
      using 1(1) [OF True p0 _ p1] by auto
    then show ?thesis
      using True p0 p1 sum by (simp add: kk_loop.simps [of pq])
  qed
qed

section \<open>Three properties that \<open>merge\<close> keeps\<close>

text \<open>The sums of a state differ by at most \<open>M\<close>.\<close>

definition gap_le :: "int \<Rightarrow> kk_state \<Rightarrow> bool" where
  "gap_le M st \<longleftrightarrow> (\<forall>s\<in>set (st_sets st). \<forall>t\<in>set (st_sets st). set_sum s - set_sum t \<le> M)"

lemma set_lt_sum: "\<not> set_lt s t \<Longrightarrow> set_sum t \<le> set_sum s"
  by (auto simp: set_lt_def split: if_splits)

lemma state_ok_sums: "state_ok k st \<Longrightarrow> i \<le> j \<Longrightarrow> j < k \<Longrightarrow> set_sum (st_sets st ! j) \<le> set_sum (st_sets st ! i)"
  by (cases "i = j") (auto simp: state_ok_def sorted_wrt_iff_nth_less intro!: set_lt_sum)

lemma state_ok_set_sum:
  "state_ok k st \<Longrightarrow> i < k \<Longrightarrow> set_sum (st_sets st ! i) = sum_list (map snd (set_items (st_sets st ! i)))"
  by (auto simp: state_ok_def set_ok_def)

lemma merge_sets:
  "state_ok k a \<Longrightarrow> state_ok k b \<Longrightarrow> s \<in> set (st_sets (state_merge a b)) \<longleftrightarrow>
     (\<exists>i<k. s = set_merge (st_sets a ! i) (st_sets b ! (k - 1 - i)))"
  by (auto simp: state_merge_def state_ok_def)

lemma gap_le_merge:
  assumes a: "state_ok k a" and b: "state_ok k b" and M: "gap_le M a" "gap_le M b"
  shows "gap_le M (state_merge a b)"
  unfolding gap_le_def
proof (intro ballI)
  fix s t assume "s \<in> set (st_sets (state_merge a b))" "t \<in> set (st_sets (state_merge a b))"
  then obtain i j where ij: "i < k" "j < k"
    and s: "s = set_merge (st_sets a ! i) (st_sets b ! (k - 1 - i))"
    and t: "t = set_merge (st_sets a ! j) (st_sets b ! (k - 1 - j))"
    using merge_sets [OF a b] by blast
  let ?A = "\<lambda>i. set_sum (st_sets a ! i)" and ?B = "\<lambda>i. set_sum (st_sets b ! (k - 1 - i))"
  have sum: "set_sum s = ?A i + ?B i" "set_sum t = ?A j + ?B j"
    using ij state_ok_set_sum [OF b] by (simp_all add: s t)
  have gaps: "?A i - ?A j \<le> M" "?B i - ?B j \<le> M"
    using M a b ij by (auto simp: gap_le_def state_ok_def)
  show "set_sum s - set_sum t \<le> M"
  proof (cases "i \<le> j")
    case True
    then have "?B i \<le> ?B j" using state_ok_sums [OF b, of "k - 1 - j" "k - 1 - i"] ij by simp
    then show ?thesis using sum gaps by linarith
  next
    case False
    then have "?A i \<le> ?A j" using state_ok_sums [OF a, of j i] ij by simp
    then show ?thesis using sum gaps by linarith
  qed
qed

text \<open>All sets of a state have the same number of items.\<close>

definition same_size :: "kk_state \<Rightarrow> bool" where
  "same_size st \<longleftrightarrow> (\<exists>n. \<forall>s\<in>set (st_sets st). length (set_items s) = n)"

lemma same_size_merge:
  assumes a: "state_ok k a" and b: "state_ok k b" and "same_size a" "same_size b"
  shows "same_size (state_merge a b)"
proof -
  from assms obtain n m where n: "\<forall>s\<in>set (st_sets a). length (set_items s) = n"
    and m: "\<forall>s\<in>set (st_sets b). length (set_items s) = m" by (auto simp: same_size_def)
  have "length (set_items s) = n + m" if s: "s \<in> set (st_sets (state_merge a b))" for s
  proof -
    obtain i where i: "i < k" "s = set_merge (st_sets a ! i) (st_sets b ! (k - 1 - i))"
      using s merge_sets [OF a b] by blast
    then have "st_sets a ! i \<in> set (st_sets a)" "st_sets b ! (k - 1 - i) \<in> set (st_sets b)"
      using a b by (auto simp: state_ok_def)
    with i n m show ?thesis by simp
  qed
  then show ?thesis by (auto simp: same_size_def)
qed

text \<open>
  With nonnegative values the empty sets are the smallest, so they are at the end of a state,
  and \<open>merge\<close> fills them first: a state with \<open>n\<close> items has at least \<open>min k n\<close> nonempty sets.
\<close>

definition filled :: "kk_state \<Rightarrow> nat" where
  "filled st = length (filter (\<lambda>s. set_items s \<noteq> []) (st_sets st))"

definition well_filled :: "nat \<Rightarrow> kk_state \<Rightarrow> bool" where
  "well_filled k st \<longleftrightarrow> (\<forall>(i, v)\<in>set (st_items st). 0 \<le> v) \<and> min k (length (st_items st)) \<le> filled st"

lemma empty_set_least:
  assumes "set_ok s" "set_ok t" "\<not> set_lt s t" "set_items s = []" "\<forall>(i, v)\<in>set (set_items t). 0 \<le> v"
  shows "set_items t = []"
proof (rule ccontr)
  assume ne: "set_items t \<noteq> []"
  have "0 \<le> sum_list (map snd (set_items t))"
    by (rule sum_list_nonneg) (use assms(5) in auto)
  then show False
    using assms ne by (auto simp: set_lt_def set_ok_def split: if_splits)
qed

lemma filled_prefix:
  assumes ok: "state_ok k st" and pos: "\<forall>(i, v)\<in>set (st_items st). 0 \<le> v" and i: "i < filled st"
  shows "i < k \<and> set_items (st_sets st ! i) \<noteq> []"
proof -
  let ?P = "\<lambda>s. set_items s \<noteq> []" let ?xs = "st_sets st"
  have len: "length ?xs = k" using ok by (simp add: state_ok_def)
  have down: "set_items (?xs ! m) = []" if "j < m" "m < k" "set_items (?xs ! j) = []" for j m
  proof (rule empty_set_least [of "?xs ! j"])
    show "set_ok (?xs ! j)" "set_ok (?xs ! m)" "\<not> set_lt (?xs ! j) (?xs ! m)"
      using ok that len by (auto simp: state_ok_def sorted_wrt_iff_nth_less)
    show "set_items (?xs ! j) = []" using that by simp
    have "?xs ! m \<in> set ?xs" using that len by simp
    then show "\<forall>(i, v)\<in>set (set_items (?xs ! m)). 0 \<le> v"
      using pos by (auto simp: st_items_def)
  qed
  have ik: "i < k" using i len length_filter_le [of ?P ?xs] by (simp add: filled_def)
  show ?thesis
  proof (rule ccontr)
    assume "\<not> ?thesis"
    then have empty: "set_items (?xs ! i) = []" using ik by simp
    have "filter ?P (drop i ?xs) = []"
      unfolding filter_empty_conv
    proof (intro ballI)
      fix s assume "s \<in> set (drop i ?xs)"
      then obtain m where "m < length ?xs - i" "s = ?xs ! (i + m)" by (auto simp: in_set_conv_nth)
      then show "\<not> ?P s" using empty down [of i "i + m"] len by (cases m) auto
    qed
    then have "filled st = length (filter ?P (take i ?xs))"
      unfolding filled_def by (metis append_Nil2 append_take_drop_id filter_append)
    also have "\<dots> \<le> i" using length_filter_le [of ?P "take i ?xs"] by simp
    finally show False using i by simp
  qed
qed

lemma filled_le: "state_ok k st \<Longrightarrow> filled st \<le> k"
  using length_filter_le [of "\<lambda>s. set_items s \<noteq> []" "st_sets st"] by (simp add: filled_def state_ok_def)

lemma filled_merge:
  assumes a: "state_ok k a" and b: "state_ok k b"
    and pos: "\<forall>(i, v)\<in>set (st_items a). 0 \<le> v" "\<forall>(i, v)\<in>set (st_items b). 0 \<le> v"
  shows "min k (filled a + filled b) \<le> filled (state_merge a b)"
proof -
  let ?P = "\<lambda>s. set_items s \<noteq> []"
  let ?m = "\<lambda>i. set_merge (st_sets a ! i) (st_sets b ! (k - 1 - i))"
  have k: "st_k a = k" using a by (simp add: state_ok_def)
  have le: "filled a \<le> k" "filled b \<le> k"
    using filled_le a b by blast+
  have "mset (st_sets (state_merge a b)) = mset (map ?m [0..<k])"
    by (simp add: state_merge_def k)
  then have "mset (filter ?P (st_sets (state_merge a b))) = mset (filter ?P (map ?m [0..<k]))"
    by (simp only: mset_filter)
  then have "filled (state_merge a b) = length (filter ?P (map ?m [0..<k]))"
    unfolding filled_def by (rule mset_eq_length)
  also have "\<dots> = card {i. i < k \<and> ?P (?m i)}"
    by (auto simp: length_filter_conv_card intro!: arg_cong [where f = card])
  finally have card: "filled (state_merge a b) = card {i. i < k \<and> ?P (?m i)}" .
  have "{0..<filled a} \<union> {k - filled b..<k} \<subseteq> {i. i < k \<and> ?P (?m i)}"
  proof
    fix i assume "i \<in> {0..<filled a} \<union> {k - filled b..<k}"
    then consider "i < filled a" | "k - 1 - i < filled b" "i < k" using le by fastforce
    then show "i \<in> {i. i < k \<and> ?P (?m i)}"
      by cases (use filled_prefix [OF a pos(1), of i] filled_prefix [OF b pos(2), of "k - 1 - i"] in auto)
  qed
  then have "card ({0..<filled a} \<union> {k - filled b..<k}) \<le> filled (state_merge a b)"
    unfolding card by (intro card_mono) auto
  moreover have "min k (filled a + filled b) \<le> card ({0..<filled a} \<union> {k - filled b..<k})"
  proof (cases "filled a \<le> k - filled b")
    case True
    then have "card ({0..<filled a} \<union> {k - filled b..<k}) = filled a + filled b"
      using le by (subst card_Un_disjoint) auto
    then show ?thesis by simp
  next
    case False
    then have "{0..<filled a} \<union> {k - filled b..<k} = {0..<k}" using le by auto
    then show ?thesis by simp
  qed
  ultimately show ?thesis by simp
qed

lemma well_filled_merge:
  assumes a: "state_ok k a" and b: "state_ok k b" and "well_filled k a" "well_filled k b"
  shows "well_filled k (state_merge a b)"
proof -
  have m: "mset (st_items (state_merge a b)) = mset (st_items a) + mset (st_items b)"
    using state_merge_ok(2) [OF a b] .
  then have "set (st_items (state_merge a b)) = set (st_items a) \<union> set (st_items b)"
    by (metis set_mset_mset set_mset_union)
  moreover have "length (st_items (state_merge a b)) = length (st_items a) + length (st_items b)"
    using m by (metis size_mset size_union)
  moreover have "min k (filled a + filled b) \<le> filled (state_merge a b)"
    using assms by (intro filled_merge) (auto simp: well_filled_def)
  ultimately show ?thesis using assms by (auto simp: well_filled_def)
qed


section \<open>The initial states\<close>

lemma kk_items:
  "mset (map (\<lambda>(seqlen, idx). (idx, seqlen))
     (py_sorted (<) (map (\<lambda>(i, seqlen). (seqlen, i)) (enumerate 0 xs)))) = mset (enumerate 0 (xs :: int list))"
  by (simp add: multiset.map_comp comp_def case_prod_unfold)

lemma kk_blocks_ok:
  assumes "0 < k" "xs \<noteq> []" "equal_size \<longrightarrow> k dvd length xs"
  obtains blocks where "kk_blocks xs k equal_size = Inr blocks" "blocks \<noteq> []"
    "mset (concat blocks) = mset (enumerate 0 xs)"
    "\<And>b. b \<in> set blocks \<Longrightarrow> length b = (if equal_size then k else 1)"
proof -
  let ?items = "map (\<lambda>(seqlen, idx). (idx, seqlen))
     (py_sorted (<) (map (\<lambda>(i, seqlen). (seqlen, i)) (enumerate 0 xs)))"
  let ?blocks = "if equal_size then chunks k ?items else map (\<lambda>x. [x]) ?items"
  have eq: "kk_blocks xs k equal_size = Inr ?blocks"
    using assms by (auto simp: kk_blocks_def Let_def mod_eq_0_iff_dvd)
  have cat: "concat ?blocks = ?items"
  proof -
    have "concat (map (\<lambda>x. [x]) ys) = ys" for ys :: "(nat \<times> int) list" by (induction ys) auto
    then show ?thesis using assms(1) by (simp add: concat_chunks del: map_map)
  qed
  then have ms: "mset (concat ?blocks) = mset (enumerate 0 xs)" using kk_items by simp
  moreover have "?blocks \<noteq> []"
  proof
    assume "?blocks = []"
    then have "length ?items = 0" using cat by (simp only: concat.simps(1) list.size(3))
    then show False using assms(2) by simp
  qed
  moreover have "length b = (if equal_size then k else 1)" if "b \<in> set ?blocks" for b
    using that assms chunks_full [of k ?items b] by (auto split: if_splits)
  ultimately show ?thesis using that [OF eq] by blast
qed

lemma push_all:
  assumes "0 < k" "\<And>b. b \<in> set blocks \<Longrightarrow> length b = 1 \<or> length b = k"
  shows "\<exists>pq'. rfold (\<lambda>pq items. rbind (state_init items k) (\<lambda>st. Inr (heappush state_lt pq st))) pq blocks = Inr pq' \<and>
    set pq' = set pq \<union> {st. \<exists>b\<in>set blocks. state_init b k = Inr st} \<and>
    (\<Sum>s\<leftarrow>pq'. mset (st_items s)) = (\<Sum>s\<leftarrow>pq. mset (st_items s)) + mset (concat blocks)"
  using assms(2)
proof (induction blocks arbitrary: pq)
  case Nil
  then show ?case by simp
next
  case (Cons b blocks)
  then obtain st where st: "state_init b k = Inr st" using state_init_eq [of b k] assms(1) by auto
  have items: "mset (st_items st) = mset b"
    using state_init_ok(2) [OF _ assms(1) st] Cons.prems by simp
  have "\<And>b'. b' \<in> set blocks \<Longrightarrow> length b' = 1 \<or> length b' = k" using Cons.prems by simp
  from Cons.IH [OF this, of "heappush state_lt pq st"]
  obtain pq' where pq': "rfold (\<lambda>pq items. rbind (state_init items k) (\<lambda>st. Inr (heappush state_lt pq st)))
        (heappush state_lt pq st) blocks = Inr pq'"
      "set pq' = set (heappush state_lt pq st) \<union> {st. \<exists>b\<in>set blocks. state_init b k = Inr st}"
      "(\<Sum>s\<leftarrow>pq'. mset (st_items s)) = (\<Sum>s\<leftarrow>heappush state_lt pq st. mset (st_items s)) + mset (concat blocks)"
    by blast
  show ?case
    using pq' st items by (auto simp: sum_list_map_mset)
qed

text \<open>The shape of every run: a final state that satisfies what the initial states do.\<close>

lemma karmarkar_karp_run:
  assumes k: "0 < k" and xs: "xs \<noteq> []" and eqs: "equal_size \<longrightarrow> k dvd length xs"
    and init: "\<And>b st. mset b \<subseteq># mset (enumerate 0 xs) \<Longrightarrow> length b = (if equal_size then k else 1) \<Longrightarrow>
        state_init b k = Inr st \<Longrightarrow> P st"
    and merge: "\<And>a b. state_ok k a \<Longrightarrow> state_ok k b \<Longrightarrow> P a \<Longrightarrow> P b \<Longrightarrow> P (state_merge a b)"
  shows "\<exists>st. karmarkar_karp xs k equal_size = equal_size_check xs k equal_size (get_partitions st) \<and>
    state_ok k st \<and> P st \<and> mset (st_items st) = mset (enumerate 0 xs)"
proof -
  obtain blocks where b: "kk_blocks xs k equal_size = Inr blocks" "blocks \<noteq> []"
    "mset (concat blocks) = mset (enumerate 0 xs)"
    "\<And>b. b \<in> set blocks \<Longrightarrow> length b = (if equal_size then k else 1)"
    using kk_blocks_ok [OF k xs eqs] by blast
  have one: "length b = 1 \<or> length b = k" if "b \<in> set blocks" for b
    using b(4) [OF that] by (auto split: if_splits)
  obtain pq where pq: "rfold (\<lambda>pq items. rbind (state_init items k) (\<lambda>st. Inr (heappush state_lt pq st))) [] blocks = Inr pq"
    "set pq = {st. \<exists>b\<in>set blocks. state_init b k = Inr st}"
    "(\<Sum>s\<leftarrow>pq. mset (st_items s)) = mset (concat blocks)"
    using push_all [OF k one, of blocks "[]"] by auto
  have P: "state_ok k st \<and> P st" if st: "st \<in> set pq" for st
  proof -
    obtain b' where b': "b' \<in> set blocks" "state_init b' k = Inr st" using st pq(2) by auto
    have "mset b' \<subseteq># mset (concat blocks)"
      using b'(1) by (induction blocks) (auto intro: subset_mset.add_increasing2 subset_mset.add_increasing)
    then show ?thesis using init b' b k one [OF b'(1)] state_init_ok(1) [OF _ k b'(2)] by auto
  qed
  obtain b0 where "b0 \<in> set blocks" using b(2) by (cases blocks) auto
  then have "pq \<noteq> []" using pq(2) state_init_eq [OF one k] by force
  then obtain st where st: "kk_loop pq = Inr [st]" "state_ok k st" "P st"
      "mset (st_items st) = (\<Sum>s\<leftarrow>pq. mset (st_items s))"
    using kk_loop_result [of pq k P] P merge by blast
  have "karmarkar_karp xs k equal_size = equal_size_check xs k equal_size (get_partitions st)"
    using b(1) pq(1) st(1) by (simp add: karmarkar_karp_def)
  with st pq(3) b(3) show ?thesis by auto
qed

lemma get_partitions_concat: "concat (get_partitions st) = map fst (st_items st)"
  by (simp add: get_partitions_def st_items_def map_concat comp_def)

lemma get_partitions_perm:
  assumes "mset (st_items st) = mset (enumerate 0 xs)"
  shows "mset (concat (get_partitions st)) = mset [0..<length xs]"
proof -
  have "mset (map fst (st_items st)) = mset (map fst (enumerate 0 xs))"
    using assms by (metis mset_map)
  then show ?thesis by (simp add: get_partitions_concat)
qed

text \<open>An item is an index and its value, so the sum of a set is the sum of its partition.\<close>

lemma get_partitions_sums:
  assumes "mset (st_items st) = mset (enumerate 0 xs)" "state_ok k st" "s \<in> set (st_sets st)"
  shows "set_sum s = (\<Sum>i\<leftarrow>map fst (set_items s). xs ! i)"
proof -
  have "set (set_items s) \<subseteq> set (enumerate 0 xs)"
    using assms(1,3) by (metis (no_types, lifting) UN_upper image_eqI list.set_map set_concat set_mset_mset st_items_def)
  then have "snd x = xs ! fst x" if "x \<in> set (set_items s)" for x
    using that by (auto simp: in_set_enumerate_eq)
  then have "map snd (set_items s) = map ((!) xs) (map fst (set_items s))" by simp
  moreover have "set_sum s = sum_list (map snd (set_items s))"
    using assms(2,3) by (simp add: state_ok_def set_ok_def)
  ultimately show ?thesis by (simp only:)
qed


section \<open>The interface: a partitioner\<close>

text \<open>
  What a partitioner of \<open>k\<close> parts promises its callers for nonnegative values: it returns, its
  parts are \<open>k\<close> lists that hold every index exactly once, the sums of any two parts differ by at
  most the largest value (where sizes are free), and the parts have the same size where that
  was asked for.
\<close>

definition part_sum :: "int list \<Rightarrow> nat list \<Rightarrow> int" where
  "part_sum xs p = (\<Sum>i\<leftarrow>p. xs ! i)"

lemma part_sum_concat: "(\<Sum>p\<leftarrow>ps. part_sum xs p) = (\<Sum>i\<leftarrow>concat ps. xs ! i)"
  by (induction ps) (auto simp: part_sum_def)

locale partitioner =
  fixes part :: "int list \<Rightarrow> nat \<Rightarrow> bool \<Rightarrow> nat list list result"
  assumes part_total:
      "0 < k \<Longrightarrow> xs \<noteq> [] \<Longrightarrow> (\<forall>x\<in>set xs. 0 \<le> x) \<Longrightarrow> (eq \<longrightarrow> k dvd length xs) \<Longrightarrow> \<exists>ps. part xs k eq = Inr ps"
    and part_perm:
      "0 < k \<Longrightarrow> xs \<noteq> [] \<Longrightarrow> (\<forall>x\<in>set xs. 0 \<le> x) \<Longrightarrow> part xs k eq = Inr ps \<Longrightarrow>
       length ps = k \<and> mset (concat ps) = mset [0..<length xs]"
    and part_equal:
      "0 < k \<Longrightarrow> part xs k True = Inr ps \<Longrightarrow> p \<in> set ps \<Longrightarrow> length p * k = length xs"
    and part_gap:
      "0 < k \<Longrightarrow> xs \<noteq> [] \<Longrightarrow> (\<forall>x\<in>set xs. 0 \<le> x \<and> x \<le> M) \<Longrightarrow> part xs k False = Inr ps \<Longrightarrow>
       p \<in> set ps \<Longrightarrow> q \<in> set ps \<Longrightarrow> part_sum xs p - part_sum xs q \<le> M"
begin

lemma part_disjoint:
  assumes "0 < k" "xs \<noteq> []" "\<forall>x\<in>set xs. 0 \<le> x" "part xs k eq = Inr ps"
  shows "distinct (concat ps) \<and> set (concat ps) = {0..<length xs}"
  using part_perm [OF assms] mset_upt_distinct [of "concat ps" "length xs"] by simp

lemma part_total_sum:
  assumes "0 < k" "xs \<noteq> []" "\<forall>x\<in>set xs. 0 \<le> x" "part xs k eq = Inr ps"
  shows "(\<Sum>p\<leftarrow>ps. part_sum xs p) = sum_list xs"
proof -
  have "(\<Sum>p\<leftarrow>ps. part_sum xs p) = (\<Sum>i\<leftarrow>concat ps. xs ! i)"
    by (rule part_sum_concat)
  also have "\<dots> = (\<Sum>i\<leftarrow>[0..<length xs]. xs ! i)"
    using part_perm [OF assms] by (simp add: sum_list_map_mset del: mset_upt)
  finally show ?thesis by (simp add: map_nth)
qed

text \<open>No part is more than the average plus the largest value.\<close>

lemma part_load:
  assumes "0 < k" "xs \<noteq> []" "\<forall>x\<in>set xs. 0 \<le> x \<and> x \<le> M" "part xs k False = Inr ps" "p \<in> set ps"
  shows "int k * part_sum xs p \<le> sum_list xs + int k * M"
proof -
  have len: "length ps = k" using part_perm [of k xs False ps] assms by auto
  have "(\<Sum>q\<leftarrow>ps. part_sum xs p) \<le> (\<Sum>q\<leftarrow>ps. part_sum xs q + M)"
    using part_gap [OF assms(1-5)] by (intro sum_list_mono) (simp add: diff_le_eq add.commute)
  then have "int k * part_sum xs p \<le> (\<Sum>q\<leftarrow>ps. part_sum xs q) + int k * M"
    by (simp add: sum_list_addf sum_list_triv len)
  then show ?thesis using part_total_sum [of k xs False ps] assms by auto
qed

end

section \<open>\<open>karmarkar_karp\<close> is a partitioner\<close>

lemma karmarkar_karp_total:
  assumes k: "0 < k" and xs: "xs \<noteq> []" and eqs: "eq \<longrightarrow> k dvd length xs"
  shows "\<exists>ps. karmarkar_karp xs k eq = Inr ps \<and> length ps = k \<and> mset (concat ps) = mset [0..<length xs] \<and>
    (eq \<longrightarrow> (\<forall>p\<in>set ps. length p * k = length xs))"
proof -
  have init: "eq \<longrightarrow> same_size st"
    if "length b = (if eq then k else 1)" "state_init b k = Inr st" for b st
  proof
    assume eq: eq
    then have "mset (st_sets st) = mset (map single b)"
      using state_init_ok(3) [of b k st] that k by simp
    then have "set (st_sets st) = set (map single b)" by (rule mset_eq_setD)
    then show "same_size st" by (auto simp: same_size_def)
  qed
  have "\<exists>st. karmarkar_karp xs k eq = equal_size_check xs k eq (get_partitions st) \<and>
      state_ok k st \<and> (eq \<longrightarrow> same_size st) \<and> mset (st_items st) = mset (enumerate 0 xs)"
    by (rule karmarkar_karp_run [OF k xs eqs, where P = "\<lambda>st. eq \<longrightarrow> same_size st"])
      (use init in blast, use same_size_merge in blast)
  then obtain st where st: "karmarkar_karp xs k eq = equal_size_check xs k eq (get_partitions st)"
    "state_ok k st" "eq \<longrightarrow> same_size st" "mset (st_items st) = mset (enumerate 0 xs)" by blast
  have len: "length (st_items st) = length xs" using st(4) by (metis length_enumerate size_mset)
  have size: "length p * k = length xs" if e: eq and p: "p \<in> set (get_partitions st)" for p
  proof -
    obtain n where n: "\<forall>s\<in>set (st_sets st). length (set_items s) = n"
      using st(3) e by (auto simp: same_size_def)
    have "length (st_items st) = (\<Sum>s\<leftarrow>st_sets st. length (set_items s))"
      by (simp add: st_items_def length_concat comp_def)
    also have "\<dots> = (\<Sum>s\<leftarrow>st_sets st. n)" by (rule arg_cong [where f = sum_list]) (use n in simp)
    also have "\<dots> = n * k" using st(2) by (simp add: sum_list_triv state_ok_def)
    finally show ?thesis using p n len by (auto simp: get_partitions_def)
  qed
  then have "karmarkar_karp xs k eq = Inr (get_partitions st)"
    using st(1) by (auto simp: equal_size_check_def)
  moreover have "length (get_partitions st) = k" using st(2) by (simp add: get_partitions_def state_ok_def)
  ultimately show ?thesis using get_partitions_perm [OF st(4)] size by auto
qed

lemma karmarkar_karp_errors:
  "karmarkar_karp xs k True = Inr ps \<Longrightarrow> 0 < k \<and> k dvd length xs"
  "karmarkar_karp xs k eq = Inr ps \<Longrightarrow> xs \<noteq> []"
proof -
  show "karmarkar_karp xs k True = Inr ps \<Longrightarrow> 0 < k \<and> k dvd length xs"
    by (auto simp: karmarkar_karp_def kk_blocks_def Let_def result_simps mod_eq_0_iff_dvd split: if_splits)
  have "kk_loop [] = Inr []" by (simp add: kk_loop.simps)
  then show "karmarkar_karp xs k eq = Inr ps \<Longrightarrow> xs \<noteq> []"
    by (auto simp: karmarkar_karp_def kk_blocks_def Let_def py_get_def py_sorted_def result_simps
        split: if_splits)
qed

lemma karmarkar_karp_gap:
  assumes k: "0 < k" and xs: "xs \<noteq> []" and M: "\<forall>x\<in>set xs. 0 \<le> x \<and> x \<le> M"
    and run: "karmarkar_karp xs k False = Inr ps" and pq: "p \<in> set ps" "q \<in> set ps"
  shows "part_sum xs p - part_sum xs q \<le> M"
proof -
  have init: "gap_le M st"
    if b: "mset b \<subseteq># mset (enumerate 0 xs)" "length b = (if False then k else 1)" "state_init b k = Inr st" for b st
  proof -
    obtain i v where iv: "b = [(i, v)]" using b(2) by (auto simp: length_Suc_conv)
    have "(i, v) \<in> set (enumerate 0 xs)" using b(1) iv by (simp flip: set_mset_mset)
    then have v: "0 \<le> v" "v \<le> M" using M by (auto simp: in_set_enumerate_eq)
    have "set (st_sets st) = set (map single b @ replicate (k - 1) set_init)"
      using state_init_ok(3) [of b k st] iv b(3) k by (metis One_nat_def length_Cons list.size(3) set_mset_mset)
    then show ?thesis using v by (auto simp: gap_le_def iv set_init_def)
  qed
  obtain st where st: "karmarkar_karp xs k False = equal_size_check xs k False (get_partitions st)"
    "state_ok k st" "gap_le M st" "mset (st_items st) = mset (enumerate 0 xs)"
    using karmarkar_karp_run [OF k xs, where P = "gap_le M" and equal_size = False] init gap_le_merge
    by blast
  have ps: "ps = get_partitions st" using st(1) run by (simp add: equal_size_check_def)
  then obtain s t where "s \<in> set (st_sets st)" "t \<in> set (st_sets st)"
    "p = map fst (set_items s)" "q = map fst (set_items t)" using pq by (auto simp: get_partitions_def)
  then show ?thesis
    using st(3) get_partitions_sums [OF st(4,2)] by (auto simp: gap_le_def part_sum_def)
qed

interpretation kk: partitioner karmarkar_karp
proof unfold_locales
  fix xs :: "int list" and k eq ps p q M
  show "0 < k \<Longrightarrow> xs \<noteq> [] \<Longrightarrow> (\<forall>x\<in>set xs. 0 \<le> x) \<Longrightarrow> (eq \<longrightarrow> k dvd length xs) \<Longrightarrow> \<exists>ps. karmarkar_karp xs k eq = Inr ps"
    using karmarkar_karp_total by blast
  show "length ps = k \<and> mset (concat ps) = mset [0..<length xs]"
    if "0 < k" "xs \<noteq> []" "karmarkar_karp xs k eq = Inr ps"
    using karmarkar_karp_total [of k xs eq] karmarkar_karp_errors(1) [of xs k ps] that by (cases eq) auto
  show "0 < k \<Longrightarrow> karmarkar_karp xs k True = Inr ps \<Longrightarrow> p \<in> set ps \<Longrightarrow> length p * k = length xs"
    using karmarkar_karp_total [of k xs True] karmarkar_karp_errors by fastforce
  show "0 < k \<Longrightarrow> xs \<noteq> [] \<Longrightarrow> (\<forall>x\<in>set xs. 0 \<le> x \<and> x \<le> M) \<Longrightarrow> karmarkar_karp xs k False = Inr ps \<Longrightarrow>
       p \<in> set ps \<Longrightarrow> q \<in> set ps \<Longrightarrow> part_sum xs p - part_sum xs q \<le> M"
    by (rule karmarkar_karp_gap)
qed

end
