(* ===== verification/Balanced_Partitions.thy ===== *)
theory Balanced_Partitions
  imports Partitioning
begin

text \<open>
  \<open>greedy_partition\<close> meets the contract of a partitioner, \<open>get_seqlen_balanced_partitions\<close> never
  raises where its documented preconditions hold, and the imbalance metrics of
  \<open>log_seqlen_unbalance\<close> (\<open>verl/utils/seqlen_balancing.py\<close>) are those of the partition.
\<close>

section \<open>\<open>greedy_partition\<close> is a partitioner\<close>

lemma min_idx_loop_Some:
  "\<exists>m'. min_idx_loop psums js (Some m) = Some m' \<and> m' \<in> insert m (set js) \<and>
     (\<forall>j\<in>insert m (set js). psums ! m' \<le> psums ! j)"
proof (induction js arbitrary: m)
  case (Cons j js)
  from Cons [of "if psums ! j < psums ! m then j else m"] show ?case by (auto split: if_splits)
qed simp

lemma min_idx_loop_least:
  assumes "0 < k"
  obtains m where "min_idx_loop psums [0..<k] None = Some m" "m < k" "\<And>j. j < k \<Longrightarrow> psums ! m \<le> psums ! j"
proof -
  have "[0..<k] = 0 # [1..<k]" using assms by (simp add: upt_conv_Cons)
  moreover obtain m where "min_idx_loop psums [1..<k] (Some 0) = Some m" "m \<in> insert 0 (set [1..<k])"
      "\<forall>j\<in>insert 0 (set [1..<k]). psums ! m \<le> psums ! j"
    using min_idx_loop_Some [of psums "[1..<k]" 0] by blast
  moreover have "insert 0 (set [1..<k]) = {0..<k}" using assms by auto
  ultimately show ?thesis using that [of m] by (metis atLeastLessThan_iff min_idx_loop.simps(2) zero_le)
qed

text \<open>What holds after the items \<open>seen\<close> (value plus bias, index) are placed.\<close>

definition greedy_inv :: "int list \<Rightarrow> nat \<Rightarrow> int \<Rightarrow> (int \<times> nat) list \<Rightarrow> nat list list \<times> int list \<Rightarrow> bool" where
  "greedy_inv xs k bias seen s \<longleftrightarrow>
     length (fst s) = k \<and> length (snd s) = k \<and> mset (concat (fst s)) = mset (map snd seen) \<and>
     (\<forall>j<k. snd s ! j = int (length (fst s ! j)) * bias + part_sum xs (fst s ! j))"

lemma mset_concat_update:
  "m < length ps \<Longrightarrow> mset (concat (ps[m := ps ! m @ [i]])) = add_mset i (mset (concat ps))"
proof (induction ps arbitrary: m)
  case (Cons p ps)
  then show ?case by (cases m) auto
qed simp

lemma greedy_step_inv:
  assumes k: "0 < k" and inv: "greedy_inv xs k bias seen s" and v: "v = xs ! i + bias"
  obtains m where "m < k" "\<And>j. j < k \<Longrightarrow> snd s ! m \<le> snd s ! j"
    "greedy_step k s (v, i) = Inr ((fst s)[m := fst s ! m @ [i]], (snd s)[m := snd s ! m + v])"
    "greedy_inv xs k bias (seen @ [(v, i)]) ((fst s)[m := fst s ! m @ [i]], (snd s)[m := snd s ! m + v])"
proof -
  obtain m where m: "min_idx_loop (snd s) [0..<k] None = Some m" "m < k" "\<And>j. j < k \<Longrightarrow> snd s ! m \<le> snd s ! j"
    using min_idx_loop_least [OF k] by blast
  have len: "m < length (fst s)" "m < length (snd s)" using inv m by (auto simp: greedy_inv_def)
  have step: "greedy_step k s (v, i) = Inr ((fst s)[m := fst s ! m @ [i]], (snd s)[m := snd s ! m + v])"
    using m(1) by (simp add: greedy_step_def case_prod_unfold)
  have "greedy_inv xs k bias (seen @ [(v, i)]) ((fst s)[m := fst s ! m @ [i]], (snd s)[m := snd s ! m + v])"
    using inv m(2) len v
    by (auto simp: greedy_inv_def mset_concat_update nth_list_update part_sum_def algebra_simps)
  with step m show ?thesis using that by blast
qed

lemma greedy_items: "map (\<lambda>(i, seqlen). (seqlen + bias, i)) (enumerate 0 xs) = map (\<lambda>i. (xs ! i + bias, i)) [0..<length xs]"
  by (rule nth_equalityI) (auto simp: nth_enumerate_eq)

lemma greedy_run:
  assumes k: "0 < k" and init: "Q [] (replicate k [], replicate k 0)"
    and step: "\<And>n s m. n < length xs \<Longrightarrow> greedy_inv xs k bias (map (\<lambda>i. (xs ! i + bias, i)) [0..<n]) s \<Longrightarrow>
        Q (map (\<lambda>i. (xs ! i + bias, i)) [0..<n]) s \<Longrightarrow> m < k \<Longrightarrow> (\<And>j. j < k \<Longrightarrow> snd s ! m \<le> snd s ! j) \<Longrightarrow>
        Q (map (\<lambda>i. (xs ! i + bias, i)) [0..<Suc n]) ((fst s)[m := fst s ! m @ [n]], (snd s)[m := snd s ! m + (xs ! n + bias)])"
  shows "\<exists>s. rfold (greedy_step k) (replicate k [], replicate k 0)
      (map (\<lambda>(i, seqlen). (seqlen + bias, i)) (enumerate 0 xs)) = Inr s \<and>
    greedy_inv xs k bias (map (\<lambda>i. (xs ! i + bias, i)) [0..<length xs]) s \<and>
    Q (map (\<lambda>i. (xs ! i + bias, i)) [0..<length xs]) s"
  unfolding greedy_items
proof (rule rfold_invariant [where P = "\<lambda>seen s. greedy_inv xs k bias seen s \<and> Q seen s"])
  show "greedy_inv xs k bias [] (replicate k [], replicate k 0) \<and> Q [] (replicate k [], replicate k 0)"
    using init by (auto simp: greedy_inv_def part_sum_def concat_replicate_trivial)
next
  fix seen x rest s
  let ?f = "\<lambda>i. (xs ! i + bias, i)"
  assume eq: "map ?f [0..<length xs] = seen @ x # rest" and inv: "greedy_inv xs k bias seen s \<and> Q seen s"
  let ?n = "length seen"
  have n: "?n < length xs" using arg_cong [OF eq, of length] by simp
  have seen: "seen = map ?f [0..<?n]"
  proof -
    have "take ?n (map ?f [0..<length xs]) = seen" using eq by simp
    then show ?thesis using n by (simp add: take_map)
  qed
  have x: "x = ?f ?n" using n arg_cong [OF eq, of "\<lambda>l. l ! ?n"] by simp
  obtain m where m: "m < k" "\<And>j. j < k \<Longrightarrow> snd s ! m \<le> snd s ! j"
    "greedy_step k s x = Inr ((fst s)[m := fst s ! m @ [?n]], (snd s)[m := snd s ! m + (xs ! ?n + bias)])"
    "greedy_inv xs k bias (seen @ [x]) ((fst s)[m := fst s ! m @ [?n]], (snd s)[m := snd s ! m + (xs ! ?n + bias)])"
    using greedy_step_inv [OF k conjunct1 [OF inv], of "xs ! ?n + bias" ?n] x by metis
  have "seen @ [x] = map ?f [0..<Suc ?n]" using seen x by simp
  then have "Q (seen @ [x]) ((fst s)[m := fst s ! m @ [?n]], (snd s)[m := snd s ! m + (xs ! ?n + bias)])"
    using step [OF n _ _ m(1,2)] inv seen by metis
  with m show "\<exists>s'. greedy_step k s x = Inr s' \<and> greedy_inv xs k bias (seen @ [x]) s' \<and> Q (seen @ [x]) s'"
    by blast
qed

text \<open>Free sizes: the sums stay within the largest value of each other.\<close>

lemma greedy_gap_run:
  assumes k: "0 < k" and M: "\<forall>x\<in>set xs. 0 \<le> x \<and> x \<le> M" and M0: "0 \<le> M"
  shows "\<exists>ps psums. greedy_partition xs k False = Inr ps \<and>
    greedy_inv xs k 0 (map (\<lambda>i. (xs ! i + 0, i)) [0..<length xs]) (ps, psums) \<and>
    (\<forall>i<k. \<forall>j<k. psums ! i - psums ! j \<le> M)"
proof -
  have step: "\<forall>a<k. \<forall>b<k. ((snd s)[m := snd s ! m + (xs ! n + 0)]) ! a - ((snd s)[m := snd s ! m + (xs ! n + 0)]) ! b \<le> M"
    if n: "n < length xs" and inv: "greedy_inv xs k 0 (map (\<lambda>i. (xs ! i + 0, i)) [0..<n]) s"
      and gap: "\<forall>a<k. \<forall>b<k. snd s ! a - snd s ! b \<le> M" and m: "m < k" "\<And>j. j < k \<Longrightarrow> snd s ! m \<le> snd s ! j" for n s m
  proof (intro allI impI)
    fix a b assume ab: "a < k" "b < k"
    have v: "0 \<le> xs ! n" "xs ! n \<le> M" using M n by auto
    have "length (snd s) = k" using inv by (simp add: greedy_inv_def)
    then show "((snd s)[m := snd s ! m + (xs ! n + 0)]) ! a - ((snd s)[m := snd s ! m + (xs ! n + 0)]) ! b \<le> M"
      using gap [rule_format, OF ab] m(2) [OF ab(1)] m(2) [OF ab(2)] v m(1) M0 by (auto simp: nth_list_update)
  qed
  have "\<exists>s. rfold (greedy_step k) (replicate k [], replicate k 0) (map (\<lambda>(i, seqlen). (seqlen + 0, i)) (enumerate 0 xs)) = Inr s \<and>
    greedy_inv xs k 0 (map (\<lambda>i. (xs ! i + 0, i)) [0..<length xs]) s \<and> (\<forall>a<k. \<forall>b<k. snd s ! a - snd s ! b \<le> M)"
    by (rule greedy_run [OF k, where Q = "\<lambda>_ s. \<forall>a<k. \<forall>b<k. snd s ! a - snd s ! b \<le> M"])
      (use M0 step in auto)
  then show ?thesis by (auto simp: greedy_partition_def equal_size_check_def)
qed


text \<open>
  Equal sizes: the bias is larger than all values together, so a partition with fewer items has
  the smaller sum and the counts never differ by more than one.
\<close>

lemma greedy_counts:
  assumes inv: "greedy_inv xs k bias seen s" and nn: "\<forall>x\<in>set xs. 0 \<le> x"
    and bias: "sum_list xs < bias" and seen: "seen = map (\<lambda>i. (xs ! i + bias, i)) [0..<n]" "n \<le> length xs"
    and m: "m < k" "\<And>j. j < k \<Longrightarrow> snd s ! m \<le> snd s ! j" and j: "j < k"
  shows "length (fst s ! m) \<le> length (fst s ! j)"
proof (rule ccontr)
  assume "\<not> ?thesis"
  then have lt: "length (fst s ! j) + 1 \<le> length (fst s ! m)" by simp
  have ms: "mset (concat (fst s)) = mset [0..<n]" and len: "length (fst s) = k"
    and val: "\<And>j. j < k \<Longrightarrow> snd s ! j = int (length (fst s ! j)) * bias + part_sum xs (fst s ! j)"
    using inv by (auto simp: greedy_inv_def seen(1) comp_def)
  have idx: "i < length xs" if "p \<in> set (fst s)" "i \<in> set p" for p i
  proof -
    have "i \<in> set (concat (fst s))" using that by auto
    then have "i \<in> set [0..<n]" unfolding mset_eq_setD [OF ms] .
    then show ?thesis using seen(2) by simp
  qed
  have nonneg: "0 \<le> part_sum xs p" if "p \<in> set (fst s)" for p
    unfolding part_sum_def by (rule sum_list_nonneg) (use idx [OF that] nn in auto)
  have "(\<Sum>p\<leftarrow>fst s. part_sum xs p) = (\<Sum>i\<leftarrow>concat (fst s). xs ! i)"
    by (rule part_sum_concat)
  also have "\<dots> = (\<Sum>i\<leftarrow>[0..<n]. xs ! i)" using ms by (simp add: sum_list_map_mset del: mset_upt)
  also have "\<dots> = sum_list (take n xs)" using seen(2) by (metis map_nth_upt length_take min.absorb2 map_cong nth_take set_upt atLeastLessThan_iff)
  also have "\<dots> \<le> sum_list xs"
    using nn by (metis append_take_drop_id add_increasing2 in_set_dropD order_refl sum_list.append sum_list_nonneg)
  finally have tot: "(\<Sum>p\<leftarrow>fst s. part_sum xs p) \<le> sum_list xs" .
  have "part_sum xs (fst s ! j) \<le> (\<Sum>p\<leftarrow>fst s. part_sum xs p)"
    by (rule member_le_sum_list) (use nonneg j len in auto)
  then have "snd s ! j < (int (length (fst s ! j)) + 1) * bias"
    using val [OF j] tot bias by (simp add: distrib_right)
  also have "\<dots> \<le> int (length (fst s ! m)) * bias"
  proof (rule mult_right_mono)
    show "0 \<le> bias" using bias nn by (metis order.strict_implies_order order_trans sum_list_nonneg)
  qed (use lt in linarith)
  also have "\<dots> \<le> snd s ! m" using val [OF m(1)] nonneg [of "fst s ! m"] m(1) len by simp
  finally show False using m(2) [OF j] by simp
qed

lemma counts_equal:
  fixes ps :: "nat list list"
  assumes "length ps = k" "k dvd length (concat ps)" "\<forall>a<k. \<forall>b<k. length (ps ! a) \<le> length (ps ! b) + 1" "p \<in> set ps"
  shows "length p * k = length (concat ps)"
proof -
  let ?c = "Min (length ` set ps)"
  have ne: "ps \<noteq> []" using assms(4) by auto
  have c: "?c \<in> length ` set ps" by (rule Min_in) (use ne in auto)
  have ge: "?c \<le> length q" if "q \<in> set ps" for q using that by simp
  have le: "length q \<le> ?c + 1" if "q \<in> set ps" for q
    using c that assms(1,3) by (metis (no_types, lifting) imageE in_set_conv_nth)
  define t where "t = (\<Sum>q\<leftarrow>ps. length q - ?c)"
  have sum: "length (concat ps) = k * ?c + t"
  proof -
    have "length (concat ps) = (\<Sum>q\<leftarrow>ps. ?c + (length q - ?c))"
      unfolding length_concat by (rule arg_cong [where f = sum_list]) (use ge in auto)
    then show ?thesis using assms(1) by (simp add: sum_list_addf sum_list_triv t_def)
  qed
  obtain q0 where q0: "q0 \<in> set ps" "length q0 = ?c" using c by auto
  have "t < k"
  proof -
    obtain ys zs where sp: "ps = ys @ q0 # zs" using q0(1) by (meson split_list)
    have "(\<Sum>q\<leftarrow>qs. length q - ?c) \<le> length qs" if "set qs \<subseteq> set ps" for qs
      using that by (induction qs) (auto dest!: le)
    then have "(\<Sum>q\<leftarrow>ys. length q - ?c) \<le> length ys" "(\<Sum>q\<leftarrow>zs. length q - ?c) \<le> length zs"
      using sp by auto
    moreover have "t = (\<Sum>q\<leftarrow>ys. length q - ?c) + (\<Sum>q\<leftarrow>zs. length q - ?c)"
      unfolding t_def by (subst (2) sp) (simp add: q0(2) del: set_append)
    moreover have "k = length ys + 1 + length zs" using assms(1) sp by (metis add.assoc add_Suc length_Cons length_append plus_1_eq_Suc add.commute add_Suc_right)
    ultimately show ?thesis by linarith
  qed
  moreover have "k dvd t" using assms(2) sum by (metis dvd_add_right_iff dvd_triv_left)
  ultimately have t: "t = 0" by (metis dvd_imp_le not_le gr0I)
  then have "length p - ?c = 0" using assms(4) by (auto simp: t_def sum_list_nonneg_eq_0_iff)
  then have "length p = ?c" using ge [OF assms(4)] by simp
  then show ?thesis using sum t by simp
qed

lemma greedy_equal_run:
  assumes k: "0 < k" and nn: "\<forall>x\<in>set xs. 0 \<le> x" and dvd: "k dvd length xs"
  shows "\<exists>ps psums. greedy_partition xs k True = Inr ps \<and>
    greedy_inv xs k (sum_list xs + 1) (map (\<lambda>i. (xs ! i + (sum_list xs + 1), i)) [0..<length xs]) (ps, psums) \<and>
    (\<forall>p\<in>set ps. length p * k = length xs)"
proof -
  let ?b = "sum_list xs + 1"
  let ?Q = "\<lambda>_ s. \<forall>a<k. \<forall>b<k. length (fst s ! a) \<le> length (fst s ! b) + 1"
  have step: "?Q () ((fst s)[m := fst s ! m @ [n]], (snd s)[m := snd s ! m + (xs ! n + ?b)])"
    if n: "n < length xs" and inv: "greedy_inv xs k ?b (map (\<lambda>i. (xs ! i + ?b, i)) [0..<n]) s"
      and Q: "?Q () s" and m: "m < k" "\<And>j. j < k \<Longrightarrow> snd s ! m \<le> snd s ! j" for n s m
  proof -
    have "length (fst s ! m) \<le> length (fst s ! j)" if "j < k" for j
      using greedy_counts [OF inv nn _ refl _ m that] n by simp
    moreover have "length (fst s) = k" using inv by (simp add: greedy_inv_def)
    ultimately show ?thesis using Q m(1) by (auto simp: nth_list_update le_SucI)
  qed
  have "\<exists>s. rfold (greedy_step k) (replicate k [], replicate k 0) (map (\<lambda>(i, seqlen). (seqlen + ?b, i)) (enumerate 0 xs)) = Inr s \<and>
    greedy_inv xs k ?b (map (\<lambda>i. (xs ! i + ?b, i)) [0..<length xs]) s \<and> ?Q () s"
    by (rule greedy_run [OF k, where Q = "\<lambda>_. ?Q ()"]) (use step in auto)
  then obtain ps psums where run: "rfold (greedy_step k) (replicate k [], replicate k 0)
      (map (\<lambda>(i, seqlen). (seqlen + ?b, i)) (enumerate 0 xs)) = Inr (ps, psums)"
    and inv: "greedy_inv xs k ?b (map (\<lambda>i. (xs ! i + ?b, i)) [0..<length xs]) (ps, psums)"
    and Q: "\<forall>a<k. \<forall>b<k. length (ps ! a) \<le> length (ps ! b) + 1"
    by auto
  have len: "length ps = k" "length (concat ps) = length xs"
    using inv mset_eq_length [of "concat ps" "[0..<length xs]"] by (auto simp: greedy_inv_def comp_def)
  then have "\<forall>p\<in>set ps. length p * k = length xs"
    using counts_equal [OF len(1) _ Q] dvd by auto
  with run inv show ?thesis
    by (auto simp: greedy_partition_def equal_size_check_def Let_def)
qed

lemma greedy_inv_perm:
  "greedy_inv xs k bias (map (\<lambda>i. (xs ! i + bias, i)) [0..<length xs]) (ps, psums) \<Longrightarrow>
   length ps = k \<and> mset (concat ps) = mset [0..<length xs]"
  by (simp add: greedy_inv_def comp_def)

lemma greedy_shape:
  assumes k: "0 < k" and run: "greedy_partition xs k eq = Inr ps"
  shows "length ps = k \<and> mset (concat ps) = mset [0..<length xs]"
proof -
  let ?bias = "if eq then sum_list xs + 1 else 0"
  have "\<exists>s. rfold (greedy_step k) (replicate k [], replicate k 0)
      (map (\<lambda>(i, seqlen). (seqlen + ?bias, i)) (enumerate 0 xs)) = Inr s \<and>
    greedy_inv xs k ?bias (map (\<lambda>i. (xs ! i + ?bias, i)) [0..<length xs]) s \<and> True"
    by (rule greedy_run [OF k, where Q = "\<lambda>_ _. True"]) simp_all
  then obtain ps' psums where g: "rfold (greedy_step k) (replicate k [], replicate k 0)
      (map (\<lambda>(i, seqlen). (seqlen + ?bias, i)) (enumerate 0 xs)) = Inr (ps', psums)"
    "greedy_inv xs k ?bias (map (\<lambda>i. (xs ! i + ?bias, i)) [0..<length xs]) (ps', psums)" by auto
  then have "ps = ps'"
    using run unfolding greedy_partition_def Let_def g(1) by (auto simp: equal_size_check_def split: if_splits)
  then show ?thesis using greedy_inv_perm [OF g(2)] by simp
qed

interpretation greedy: partitioner greedy_partition
proof unfold_locales
  fix xs :: "int list" and k eq ps p q M
  show "\<exists>ps. greedy_partition xs k eq = Inr ps"
    if a: "0 < k" "xs \<noteq> []" "\<forall>x\<in>set xs. 0 \<le> x" "eq \<longrightarrow> k dvd length xs"
  proof (cases eq)
    case True
    then show ?thesis using greedy_equal_run [of k xs] a by auto
  next
    case False
    have "\<forall>x\<in>set xs. 0 \<le> x \<and> x \<le> Max (set xs)" using a by simp
    moreover have "0 \<le> Max (set xs)" using a(2,3) by (simp add: Max_in)
    ultimately show ?thesis using greedy_gap_run [of k xs "Max (set xs)"] a(1) False by auto
  qed
  show "length p * k = length xs" if "greedy_partition xs k True = Inr ps" "p \<in> set ps"
    using that unfolding greedy_partition_def Let_def
    by (auto simp: equal_size_check_def rbind_eq_Inr if_Inl_eq_Inr simp del: rfold.simps)
  show "0 < k \<Longrightarrow> greedy_partition xs k eq = Inr ps \<Longrightarrow> length ps = k \<and> mset (concat ps) = mset [0..<length xs]"
    by (rule greedy_shape)
  show "part_sum xs p - part_sum xs q \<le> M"
    if a: "0 < k" "xs \<noteq> []" "\<forall>x\<in>set xs. 0 \<le> x \<and> x \<le> M" "greedy_partition xs k False = Inr ps"
      "p \<in> set ps" "q \<in> set ps"
  proof -
    have "0 \<le> M" using a(2,3) by (cases xs) auto
    then obtain psums where g: "greedy_inv xs k 0 (map (\<lambda>i. (xs ! i + 0, i)) [0..<length xs]) (ps, psums)"
        "\<forall>i<k. \<forall>j<k. psums ! i - psums ! j \<le> M"
      using greedy_gap_run [OF a(1,3)] a(4) by auto
    obtain i j where "i < k" "j < k" "p = ps ! i" "q = ps ! j"
      using a(5,6) g(1) by (auto simp: greedy_inv_def in_set_conv_nth)
    then show ?thesis using g by (auto simp: greedy_inv_def)
  qed
qed


section \<open>\<open>get_seqlen_balanced_partitions\<close> never raises on nonnegative lengths\<close>

lemma karmarkar_karp_filled:
  assumes k: "0 < k" "k \<le> length xs" and nn: "\<forall>x\<in>set xs. 0 \<le> x" and eqs: "eq \<longrightarrow> k dvd length xs"
    and run: "karmarkar_karp xs k eq = Inr ps" and p: "p \<in> set ps"
  shows "p \<noteq> []"
proof -
  have xs: "xs \<noteq> []" using k by auto
  have init: "well_filled k st"
    if b: "mset b \<subseteq># mset (enumerate 0 xs)" "length b = (if eq then k else 1)" "state_init b k = Inr st" for b st
  proof -
    have sets: "mset (st_sets st) = mset (map single b @ replicate (k - length b) set_init)"
      and items: "mset (st_items st) = mset b"
      using state_init_ok(2,3) [of b k st] b k by (auto split: if_splits)
    have "set (st_items st) \<subseteq> set (enumerate 0 xs)"
      using b(1) items by (metis set_mset_mset set_mset_mono)
    then have pos: "\<forall>(i, v)\<in>set (st_items st). 0 \<le> v" using nn by (auto simp: in_set_enumerate_eq)
    have "filled st = length (filter (\<lambda>s. set_items s \<noteq> []) (map single b @ replicate (k - length b) set_init))"
      unfolding filled_def 
      by (rule mset_eq_length) (simp only: mset_filter sets)
    also have "\<dots> = length b" by (simp add: set_init_def filter_map comp_def)
    also have "\<dots> = length (st_items st)" using items by (metis size_mset)
    finally show ?thesis using pos by (simp add: well_filled_def)
  qed
  have "\<exists>st. karmarkar_karp xs k eq = equal_size_check xs k eq (get_partitions st) \<and>
      state_ok k st \<and> well_filled k st \<and> mset (st_items st) = mset (enumerate 0 xs)"
    by (rule karmarkar_karp_run [OF k(1) xs eqs, where P = "well_filled k"])
      (use init in blast, use well_filled_merge in blast)
  then obtain st where st: "karmarkar_karp xs k eq = equal_size_check xs k eq (get_partitions st)"
    "state_ok k st" "well_filled k st" "mset (st_items st) = mset (enumerate 0 xs)" by blast
  have ps: "ps = get_partitions st" using st(1) run by (auto simp: equal_size_check_def split: if_splits)
  have "length (st_items st) = length xs" using mset_eq_length [OF st(4)] by simp
  then have "k \<le> filled st" using st(3) k(2) by (simp add: well_filled_def)
  then have "length (filter (\<lambda>s. set_items s \<noteq> []) (st_sets st)) = length (st_sets st)"
    using filled_le [OF st(2)] st(2) by (simp add: filled_def state_ok_def)
  then have "\<forall>s\<in>set (st_sets st). set_items s \<noteq> []" 
    using length_filter_less [of _ "st_sets st" "\<lambda>s. set_items s \<noteq> []"] by fastforce
  then show ?thesis using p ps by (auto simp: get_partitions_def)
qed

lemma get_seqlen_balanced_run:
  assumes "0 < k" "k \<le> length xs" "\<forall>x\<in>set xs. 0 \<le> x" "eq \<longrightarrow> k dvd length xs"
  obtains ps where "karmarkar_karp xs k eq = Inr ps"
    "get_seqlen_balanced_partitions xs k eq = Inr (map (py_sorted (<)) ps)"
    "length ps = k" "mset (concat ps) = mset [0..<length xs]" "\<And>p. p \<in> set ps \<Longrightarrow> p \<noteq> []"
proof -
  have xs: "xs \<noteq> []" using assms by auto
  obtain ps where ps: "karmarkar_karp xs k eq = Inr ps" using kk.part_total [OF assms(1) xs assms(3,4)] by blast
  have perm: "length ps = k" "mset (concat ps) = mset [0..<length xs]"
    using kk.part_perm [OF assms(1) xs assms(3) ps] by auto
  have ne: "p \<noteq> []" if "p \<in> set ps" for p using karmarkar_karp_filled [OF assms ps that] .
  have "set (concat ps) = set [0..<length xs]" by (rule mset_eq_setD [OF perm(2)])
  then have "get_seqlen_balanced_partitions xs k eq = Inr (map (py_sorted (<)) ps)"
    using assms(2) ps perm(1) ne by (auto simp: get_seqlen_balanced_partitions_def check_and_sort_partitions_def)
  then show ?thesis using that ps perm ne by blast
qed

lemma mset_concat_sorted: "mset (concat (map (py_sorted lt) ps)) = mset (concat ps)"
  by (induction ps) auto

lemma distinct_py_sorted [simp, py_list]: "distinct (py_sorted lt xs) \<longleftrightarrow> distinct xs"
  by (metis mset_eq_imp_distinct_iff mset_py_sorted)

lemma py_sorted_eq_Nil [simp, py_list]: "py_sorted lt xs = [] \<longleftrightarrow> xs = []"
  by (metis length_0_conv length_py_sorted)

lemma part_sum_sorted: "part_sum xs (py_sorted lt p) = part_sum xs p"
  by (simp add: part_sum_def sum_list_map_mset)

lemma mean_bounds:
  assumes "0 < k" "int k * a \<le> t" "t \<le> int k * b"
  shows "a \<le> t / real k" "t / real k \<le> b"
proof -
  have "real k * a \<le> t" "t \<le> real k * b"
    using assms(2,3) by (metis of_int_le_iff of_int_mult of_int_of_nat_eq)+
  then show "a \<le> t / real k" "t / real k \<le> b" using assms(1) by (simp_all add: field_simps)
qed

lemma get_seqlen_balanced_needs:
  assumes "get_seqlen_balanced_partitions xs k eq = Inr ps"
  shows "0 < k \<and> k \<le> length xs \<and> (eq \<longrightarrow> k dvd length xs)"
proof -
  obtain ps' where run: "karmarkar_karp xs k eq = Inr ps'" and le: "k \<le> length xs"
    using assms by (auto simp: get_seqlen_balanced_partitions_def result_simps split: if_splits)
  have "0 < k"
  proof (rule ccontr)
    assume "\<not> ?thesis"
    then have k: "k = 0" by simp
    have ps': "ps' = []"
      using assms run k by (auto simp: get_seqlen_balanced_partitions_def check_and_sort_partitions_def split: if_splits)
    then have "xs = []"
      using assms run k by (auto simp: get_seqlen_balanced_partitions_def check_and_sort_partitions_def split: if_splits)
    then show False using karmarkar_karp_errors(2) [OF run] by simp
  qed
  then show ?thesis using le karmarkar_karp_errors(1) [of xs k ps'] run by (cases eq) auto
qed

section \<open>\<open>log_seqlen_unbalance\<close>\<close>

text \<open>
  The returned dictionary has six keys with the same prefix; the record has one field per key.
  The division of \<open>mean\<close> is real division.
\<close>

record unbalance_stats =
  us_min :: int
  us_max :: int
  us_minmax_diff :: int
  us_balanced_min :: int
  us_balanced_max :: int
  us_mean :: real

text \<open>One round of the loop over the batches as they came: minimum, maximum and total so far.\<close>

definition unbalance_step :: "int option \<times> int option \<times> int \<Rightarrow> int \<Rightarrow> int option \<times> int option \<times> int" where
  "unbalance_step acc cur =
     (case acc of (mn, mx, t) \<Rightarrow>
        ((case mn of None \<Rightarrow> Some cur | Some m \<Rightarrow> if cur < m then Some cur else Some m),
         (case mx of None \<Rightarrow> Some cur | Some m \<Rightarrow> if cur > m then Some cur else Some m),
         t + cur))"

definition log_seqlen_unbalance :: "int list \<Rightarrow> nat list list \<Rightarrow> unbalance_stats result" where
  "log_seqlen_unbalance seqlen_list partitions =
     (if partitions = [] then Inl ZeroDivisionError
      else let batch_size = length seqlen_list div length partitions in
        if batch_size = 0 then Inl (ValueError ''range() arg 3 must not be zero'')
        else case foldl unbalance_step (None, None, 0) (map sum_list (chunks batch_size seqlen_list)) of
            (Some mn, Some mx, t) \<Rightarrow>
              rbind (rmap (\<lambda>partition. rbind (rmap (py_get seqlen_list) partition) (\<lambda>vs. Inr (sum_list vs))) partitions)
                (\<lambda>balanced. Inr \<lparr>us_min = mn, us_max = mx, us_minmax_diff = mx - mn,
                   us_balanced_min = foldl min (hd balanced) (tl balanced),
                   us_balanced_max = foldl max (hd balanced) (tl balanced),
                   us_mean = real_of_int t / real (length partitions)\<rparr>)
          | _ \<Rightarrow> Inl (TypeError ''unsupported operand type(s) for -''))"

lemma unbalance_fold:
  "foldl unbalance_step (Some mn, Some mx, t) ss =
     (Some (foldl min mn ss), Some (foldl max mx ss), t + sum_list ss)"
  by (induction ss arbitrary: mn mx t) (auto simp: unbalance_step_def min_def max_def)

lemma sum_list_chunks: "0 < n \<Longrightarrow> sum_list (map sum_list (chunks n xs)) = sum_list (xs :: int list)"
proof -
  have "sum_list (concat xss) = sum_list (map sum_list xss)" for xss :: "int list list" by (induction xss) auto
  from this [of "chunks n xs"] show "0 < n \<Longrightarrow> ?thesis" by (simp add: concat_chunks)
qed

lemma log_seqlen_unbalance_eq:
  assumes ps: "ps \<noteq> []" and size: "length ps \<le> length xs" and idx: "\<And>p i. p \<in> set ps \<Longrightarrow> i \<in> set p \<Longrightarrow> i < length xs"
  obtains st where "log_seqlen_unbalance xs ps = Inr st"
    "us_balanced_min st = foldl min (part_sum xs (hd ps)) (map (part_sum xs) (tl ps))"
    "us_balanced_max st = foldl max (part_sum xs (hd ps)) (map (part_sum xs) (tl ps))"
    "us_mean st = real_of_int (sum_list xs) / real (length ps)" "us_minmax_diff st = us_max st - us_min st"
    "\<And>b. b \<in> set (chunks (length xs div length ps) xs) \<Longrightarrow> us_min st \<le> sum_list b \<and> sum_list b \<le> us_max st"
proof -
  let ?bs = "length xs div length ps"
  have bs: "0 < ?bs" using ps size by (simp add: div_greater_zero_iff)
  have "xs \<noteq> []" using ps size by auto
  then obtain c cs where c: "chunks ?bs xs = c # cs" using bs by (simp add: chunks.simps [of ?bs xs])
  have fold: "foldl unbalance_step (None, None, 0) (map sum_list (chunks ?bs xs)) =
      (Some (foldl min (sum_list c) (map sum_list cs)), Some (foldl max (sum_list c) (map sum_list cs)), sum_list xs)"
    using sum_list_chunks [OF bs, of xs] c unbalance_fold [of "sum_list c" "sum_list c" "sum_list c" "map sum_list cs"]
    by (simp add: unbalance_step_def)
  have bal: "rmap (\<lambda>partition. rbind (rmap (py_get xs) partition) (\<lambda>vs. Inr (sum_list vs))) ps = Inr (map (part_sum xs) ps)"
  proof (rule rmap_total)
    fix p assume "p \<in> set ps"
    then have "rmap (py_get xs) p = Inr (map ((!) xs) p)" using idx by (intro rmap_total) simp
    then show "rbind (rmap (py_get xs) p) (\<lambda>vs. Inr (sum_list vs)) = Inr (part_sum xs p)" by (simp add: part_sum_def)
  qed
  have range: "foldl min (sum_list c) (map sum_list cs) \<le> sum_list b \<and> sum_list b \<le> foldl max (sum_list c) (map sum_list cs)"
    if "b \<in> set (chunks ?bs xs)" for b
    using that c foldl_min_le [of "sum_list b" "sum_list c" "map sum_list cs"]
      foldl_max_ge [of "sum_list b" "sum_list c" "map sum_list cs"] by auto
  show ?thesis
  proof (rule that)
    show "log_seqlen_unbalance xs ps = Inr \<lparr>us_min = foldl min (sum_list c) (map sum_list cs),
        us_max = foldl max (sum_list c) (map sum_list cs),
        us_minmax_diff = foldl max (sum_list c) (map sum_list cs) - foldl min (sum_list c) (map sum_list cs),
        us_balanced_min = foldl min (part_sum xs (hd ps)) (map (part_sum xs) (tl ps)),
        us_balanced_max = foldl max (part_sum xs (hd ps)) (map (part_sum xs) (tl ps)),
        us_mean = real_of_int (sum_list xs) / real (length ps)\<rparr>"
      unfolding log_seqlen_unbalance_def Let_def fold bal using ps bs by (simp add: hd_map map_tl)
  qed (use range in auto)
qed

section \<open>Properties\<close>

text \<open>
  C4. \<open>get_seqlen_balanced_partitions\<close> on nonnegative lengths, with at least as many items as
  partitions and, for equal sizes, a divisible number of items: it returns (no assertion fails),
  and the result is \<open>k\<close> nonempty, strictly increasing index lists that hold every index
  \<open>0..<n\<close> exactly once; with \<open>equal_size\<close> all have \<open>n / k\<close> items, and without it the sums of
  any two partitions differ by at most the largest length.
\<close>
theorem get_seqlen_balanced_partitions_correct:
  assumes "0 < k" "k \<le> length xs" "\<forall>x\<in>set xs. 0 \<le> x \<and> x \<le> M" "eq \<longrightarrow> k dvd length xs"
  shows "\<exists>ps. get_seqlen_balanced_partitions xs k eq = Inr ps \<and> length ps = k \<and>
    mset (concat ps) = mset [0..<length xs] \<and>
    (\<forall>p\<in>set ps. p \<noteq> [] \<and> sorted p \<and> distinct p) \<and>
    (eq \<longrightarrow> (\<forall>p\<in>set ps. length p * k = length xs)) \<and>
    (\<not> eq \<longrightarrow> (\<forall>p\<in>set ps. \<forall>q\<in>set ps. part_sum xs p - part_sum xs q \<le> M))"
proof -
  have nn: "\<forall>x\<in>set xs. 0 \<le> x" and xs: "xs \<noteq> []" using assms by auto
  obtain ps where ps: "karmarkar_karp xs k eq = Inr ps"
    "get_seqlen_balanced_partitions xs k eq = Inr (map (py_sorted (<)) ps)"
    "length ps = k" "mset (concat ps) = mset [0..<length xs]" "\<And>p. p \<in> set ps \<Longrightarrow> p \<noteq> []"
    using get_seqlen_balanced_run [OF assms(1,2) nn assms(4)] by blast
  have "distinct (concat ps)" using mset_upt_distinct [OF ps(4)] by blast
  then have dist: "distinct p" if "p \<in> set ps" for p using that by (meson distinct_concat_iff)
  have "(eq \<longrightarrow> (\<forall>p\<in>set ps. length p * k = length xs)) \<and>
      (\<not> eq \<longrightarrow> (\<forall>p\<in>set ps. \<forall>q\<in>set ps. part_sum xs p - part_sum xs q \<le> M))"
    using kk.part_equal [OF assms(1)] kk.part_gap [OF assms(1) xs assms(3)] ps(1) by (cases eq) auto
  then show ?thesis
    using ps(2-5) dist by (intro exI [of _ "map (py_sorted (<)) ps"])
      (auto simp: mset_concat_sorted sorted_py_sorted distinct_py_sorted part_sum_sorted simp del: mset_concat)
qed

text \<open>
  C5. When it raises: for nonnegative lengths, \<open>get_seqlen_balanced_partitions\<close> returns exactly
  when \<open>1 \<le> k \<le> n\<close> and, for equal sizes, \<open>k\<close> divides \<open>n\<close>.
\<close>
theorem get_seqlen_balanced_partitions_returns_iff:
  "\<forall>x\<in>set xs. 0 \<le> x \<Longrightarrow>
   (\<exists>ps. get_seqlen_balanced_partitions xs k eq = Inr ps) \<longleftrightarrow> 0 < k \<and> k \<le> length xs \<and> (eq \<longrightarrow> k dvd length xs)"
  using get_seqlen_balanced_run [of k xs eq] get_seqlen_balanced_needs [of xs k eq] by metis

text \<open>
  C6. \<open>greedy_partition\<close> keeps the same promises: it returns, every index is in exactly one of the
  \<open>k\<close> partitions, equal sizes hold where asked for, and otherwise \<open>k\<close> times the sum of any
  partition is at most the total plus \<open>k\<close> times the largest length.
\<close>
theorem greedy_partition_correct:
  assumes "0 < k" "xs \<noteq> []" "\<forall>x\<in>set xs. 0 \<le> x \<and> x \<le> M" "eq \<longrightarrow> k dvd length xs"
  shows "\<exists>ps. greedy_partition xs k eq = Inr ps \<and> length ps = k \<and> mset (concat ps) = mset [0..<length xs] \<and>
    (eq \<longrightarrow> (\<forall>p\<in>set ps. length p * k = length xs)) \<and>
    (\<not> eq \<longrightarrow> (\<forall>p\<in>set ps. int k * part_sum xs p \<le> sum_list xs + int k * M))"
proof -
  have nn: "\<forall>x\<in>set xs. 0 \<le> x" using assms(3) by auto
  obtain ps where ps: "greedy_partition xs k eq = Inr ps"
    using greedy.part_total [OF assms(1,2) nn assms(4)] by blast
  show ?thesis
    using ps greedy.part_perm [OF assms(1,2) nn ps] greedy.part_equal [OF assms(1)]
      greedy.part_load [OF assms(1-3)] by (cases eq) auto
qed

text \<open>
  The metrics of a balanced partition: \<open>log_seqlen_unbalance\<close> of what
  \<open>get_seqlen_balanced_partitions\<close> returned does not raise, its mean is the total over \<open>k\<close> and
  lies between \<open>balanced_min\<close> and \<open>balanced_max\<close>, and these two differ by at most the largest
  length.
\<close>
theorem log_seqlen_unbalance_balanced:
  assumes "0 < k" "k \<le> length xs" "\<forall>x\<in>set xs. 0 \<le> x \<and> x \<le> M"
  shows "\<exists>ps st. get_seqlen_balanced_partitions xs k False = Inr ps \<and> log_seqlen_unbalance xs ps = Inr st \<and>
    us_mean st = real_of_int (sum_list xs) / real k \<and> us_balanced_min st \<le> us_mean st \<and> us_mean st \<le> us_balanced_max st \<and>
    us_balanced_max st - us_balanced_min st \<le> M"
proof -
  have nn: "\<forall>x\<in>set xs. 0 \<le> x" and xs: "xs \<noteq> []" using assms by auto
  obtain ps0 where ps0: "karmarkar_karp xs k False = Inr ps0"
    "get_seqlen_balanced_partitions xs k False = Inr (map (py_sorted (<)) ps0)"
    "length ps0 = k" "mset (concat ps0) = mset [0..<length xs]"
    using get_seqlen_balanced_run [OF assms(1,2) nn, of False] by blast
  define ps where "ps = map (py_sorted (<)) ps0"
  have len: "length ps = k" "ps \<noteq> []" "length ps \<le> length xs" using ps0(3) assms by (auto simp: ps_def)
  have perm: "mset (concat ps) = mset [0..<length xs]" using ps0(4) by (simp add: ps_def mset_concat_sorted)
  have idx: "i < length xs" if "p \<in> set ps" "i \<in> set p" for p i
    using that mset_upt_distinct [OF perm] by auto
  obtain st where st: "log_seqlen_unbalance xs ps = Inr st"
    "us_balanced_min st = foldl min (part_sum xs (hd ps)) (map (part_sum xs) (tl ps))"
    "us_balanced_max st = foldl max (part_sum xs (hd ps)) (map (part_sum xs) (tl ps))"
    "us_mean st = real_of_int (sum_list xs) / real (length ps)"
    by (rule log_seqlen_unbalance_eq [OF len(2,3)]) (use idx in blast)+
  let ?S = "part_sum xs ` set ps"
  have S: "set (part_sum xs (hd ps) # map (part_sum xs) (tl ps)) = ?S" using len(2) by (cases ps) auto
  have mm: "us_balanced_min st \<in> ?S" "us_balanced_max st \<in> ?S"
    using foldl_min_in foldl_max_in st(2,3) S by metis+
  have bounds: "us_balanced_min st \<le> part_sum xs p" "part_sum xs p \<le> us_balanced_max st" if "p \<in> set ps" for p
  proof -
    have "part_sum xs p \<in> set (part_sum xs (hd ps) # map (part_sum xs) (tl ps))" unfolding S using that by simp
    then show "us_balanced_min st \<le> part_sum xs p" "part_sum xs p \<le> us_balanced_max st"
      unfolding st(2,3) by (rule foldl_min_le, rule foldl_max_ge)
  qed
  have total: "(\<Sum>p\<leftarrow>ps. part_sum xs p) = sum_list xs"
  proof -
    have "(\<Sum>i\<leftarrow>concat ps. xs ! i) = (\<Sum>i\<leftarrow>[0..<length xs]. xs ! i)"
      unfolding sum_list_map_mset perm ..
    then show ?thesis unfolding part_sum_concat map_nth_upt .
  qed
  have "us_balanced_max st - us_balanced_min st \<le> M"
    using mm kk.part_gap [OF assms(1) xs assms(3) ps0(1)] by (auto simp: ps_def part_sum_sorted)
  moreover have "int k * us_balanced_min st \<le> sum_list xs" "sum_list xs \<le> int k * us_balanced_max st"
    using sum_list_mono [of ps "\<lambda>_. us_balanced_min st" "part_sum xs"]
      sum_list_mono [of ps "part_sum xs" "\<lambda>_. us_balanced_max st"] bounds
    by (simp_all add: total len(1) sum_list_triv)
  ultimately show ?thesis
    using ps0(2) st(1,4) len(1) assms(1) mean_bounds [of k] by (auto simp: ps_def)
qed

section \<open>The properties at concrete inputs\<close>

theorem get_seqlen_balanced_partitions_correct_witness:
  "get_seqlen_balanced_partitions [5, 3, 8, 1] 2 False = Inr [[2, 3], [0, 1]] \<and>
   (\<exists>ps. get_seqlen_balanced_partitions [5, 3, 8, 1] 2 False = Inr ps \<and> mset (concat ps) = {#0, 1, 2, 3#} \<and>
     (\<forall>p\<in>set ps. \<forall>q\<in>set ps. part_sum [5, 3, 8, 1] p - part_sum [5, 3, 8, 1] q \<le> 8))"
proof
  show "get_seqlen_balanced_partitions [5, 3, 8, 1] 2 False = Inr [[2, 3], [0, 1]]" by code_simp
  show "\<exists>ps. get_seqlen_balanced_partitions [5, 3, 8, 1] 2 False = Inr ps \<and> mset (concat ps) = {#0, 1, 2, 3#} \<and>
     (\<forall>p\<in>set ps. \<forall>q\<in>set ps. part_sum [5, 3, 8, 1] p - part_sum [5, 3, 8, 1] q \<le> 8)"
    using get_seqlen_balanced_partitions_correct [of 2 "[5, 3, 8, 1]" 8 False] by (auto simp: eval_nat_numeral)
qed

theorem get_seqlen_balanced_partitions_returns_iff_witness:
  "\<not> (\<exists>ps. get_seqlen_balanced_partitions [5, 3, 8] 2 True = Inr ps) \<and>
   (\<exists>ps. get_seqlen_balanced_partitions [5, 3, 8] 2 False = Inr ps)"
  using get_seqlen_balanced_partitions_returns_iff [of "[5, 3, 8]" 2 True]
    get_seqlen_balanced_partitions_returns_iff [of "[5, 3, 8]" 2 False] by simp

theorem greedy_partition_correct_witness:
  "greedy_partition [5, 3, 8, 1] 2 True = Inr [[0, 3], [1, 2]] \<and>
   (\<exists>ps. greedy_partition [5, 3, 8, 1] 2 True = Inr ps \<and> (\<forall>p\<in>set ps. length p * 2 = length [5, 3, 8, 1 :: int]))"
proof
  show "greedy_partition [5, 3, 8, 1] 2 True = Inr [[0, 3], [1, 2]]" by code_simp
  show "\<exists>ps. greedy_partition [5, 3, 8, 1] 2 True = Inr ps \<and> (\<forall>p\<in>set ps. length p * 2 = length [5, 3, 8, 1 :: int])"
    using greedy_partition_correct [of 2 "[5, 3, 8, 1]" 8 True] by auto
qed

theorem log_seqlen_unbalance_balanced_witness:
  "\<exists>ps st. get_seqlen_balanced_partitions [5, 3, 8, 1] 2 False = Inr ps \<and> log_seqlen_unbalance [5, 3, 8, 1] ps = Inr st \<and>
     us_mean st = 17 / 2 \<and> us_balanced_max st - us_balanced_min st \<le> 8"
  using log_seqlen_unbalance_balanced [of 2 "[5, 3, 8, 1]" 8] by auto

end
