(* ===== verification/Micro_Batches.thy ===== *)
theory Micro_Batches
  imports Balanced_Partitions "HOL-Library.Word"
begin

text \<open>
  Dynamic micro-batching (\<open>verl/utils/seqlen_balancing.py\<close>): \<open>rearrange_micro_batches\<close> splits a
  batch by token count, \<open>restore_dynamic_batch\<close> puts the rows computed per micro-batch back in
  order, \<open>get_group_balanced_partitions\<close> keeps the samples of one prompt together, and the
  trainer's \<open>_balance_batch\<close> reorders a global batch. Rows are selected by
  \<open>index_select_tensor_dict\<close> of \<open>verl/utils/tensordict_utils.py\<close>.

  Token counts are Python integers; workloads are computed on \<open>int64\<close> tensors, so they are
  64-bit words that wrap, read back as signed integers by \<open>.tolist()\<close>.
\<close>

section \<open>Workloads and rounding\<close>

definition calculate_workload :: "64 word \<Rightarrow> 64 word" where
  "calculate_workload seqlens = 24576 * seqlens + seqlens ^ 2"

definition workload_of :: "int \<Rightarrow> int" where
  "workload_of l = sint (calculate_workload (word_of_int l))"

definition ceildiv :: "int \<Rightarrow> int \<Rightarrow> int result" where
  "ceildiv a b = (if b = 0 then Inl ZeroDivisionError else Inr (- (a div (- b))))"

definition roundup_divisible :: "int \<Rightarrow> int \<Rightarrow> int result" where
  "roundup_divisible a b = (if b = 0 then Inl ZeroDivisionError else Inr (((a + b - 1) div b) * b))"

section \<open>Batches of named columns\<close>

text \<open>
  A \<open>TensorDict\<close> maps keys to columns: a dense tensor of shape (B, S), a nested (jagged) tensor,
  a \<open>NonTensorStack\<close> with one entry per row, or \<open>NonTensorData\<close> shared by all rows.
\<close>

datatype column =
    Tensor nat "int list list"
  | NestedTensor "int list list"
  | NonTensorStack "string list"
  | NonTensorData string

type_synonym tensor_dict = "(string \<times> column) list"

definition td_get :: "tensor_dict \<Rightarrow> string \<Rightarrow> column result" where
  "td_get batch key = (case map_of batch key of None \<Rightarrow> Inl (KeyError key) | Some c \<Rightarrow> Inr c)"

definition select_rows :: "'a list \<Rightarrow> nat list \<Rightarrow> 'a list result" where
  "select_rows rows indices = rmap (py_get rows) indices"

fun select_column :: "nat list \<Rightarrow> column \<Rightarrow> column result" where
  "select_column indices (Tensor s rows) = rbind (select_rows rows indices) (\<lambda>r. Inr (Tensor s r))"
| "select_column indices (NestedTensor rows) = rbind (select_rows rows indices) (\<lambda>r. Inr (NestedTensor r))"
| "select_column indices (NonTensorStack vs) = rbind (select_rows vs indices) (\<lambda>r. Inr (NonTensorStack r))"
| "select_column indices (NonTensorData v) = Inr (NonTensorData v)"

definition index_select_tensor_dict :: "tensor_dict \<Rightarrow> nat list \<Rightarrow> tensor_dict result" where
  "index_select_tensor_dict batch indices =
     rmap (\<lambda>(key, c). rbind (select_column indices c) (\<lambda>c'. Inr (key, c'))) batch"

section \<open>\<open>rearrange_micro_batches\<close>\<close>

text \<open>The longest sequence (or the padded width) and the effective length of every row.\<close>

definition seq_lens :: "tensor_dict \<Rightarrow> (int \<times> int list) result" where
  "seq_lens batch =
     rbind (td_get batch ''input_ids'') (\<lambda>input_ids.
       case input_ids of
         NestedTensor rows \<Rightarrow>
           (case map (\<lambda>r. int (length r)) rows of
              [] \<Rightarrow> Inl (ValueError ''max() arg is an empty sequence'')
            | l # ls \<Rightarrow> Inr (foldl max l ls, l # ls))
       | _ \<Rightarrow> rbind (td_get batch ''attention_mask'') (\<lambda>mask.
           case mask of
             Tensor s rows \<Rightarrow> Inr (int s, map sum_list rows)
           | _ \<Rightarrow> Inl (TypeError ''attention_mask'')))"

text \<open>
  The number of micro-batches. \<open>all_reduce\<close> is the MAX all-reduce of the data-parallel group: it is
  \<open>None\<close> where torch.distributed is not initialised or no group is passed.
\<close>

definition count_micro_batches ::
  "int \<Rightarrow> int \<Rightarrow> int \<Rightarrow> int option \<Rightarrow> (int \<Rightarrow> int) option \<Rightarrow> bool \<Rightarrow> int option \<Rightarrow> int result" where
  "count_micro_batches num_groups total_seqlen max_token_len min_num_micro_batch all_reduce
      same_micro_num_in_dp num_batches_divided_by =
     rbind (ceildiv total_seqlen max_token_len) (\<lambda>needed.
     let n1 = min num_groups needed;
         n2 = (case min_num_micro_batch of None \<Rightarrow> n1 | Some m \<Rightarrow> max m n1);
         n3 = (case all_reduce of Some reduce \<Rightarrow> if same_micro_num_in_dp then reduce n2 else n2 | None \<Rightarrow> n2)
     in rbind (case num_batches_divided_by of None \<Rightarrow> Inr n3 | Some d \<Rightarrow> roundup_divisible n3 d) (\<lambda>n.
        if n \<le> num_groups then Inr n else Inl (AssertionError ''num_micro_batches <= num_groups'')))"

text \<open>The slices \<open>xs[::n]\<close>.\<close>

definition stride :: "nat \<Rightarrow> 'a list \<Rightarrow> 'a list" where
  "stride n xs = map hd (chunks n xs)"

definition expand_group :: "nat \<Rightarrow> nat list \<Rightarrow> nat list" where
  "expand_group force_group_size group_partition =
     concat (map (\<lambda>g. [g * force_group_size..<g * force_group_size + force_group_size]) group_partition)"

text \<open>The key of the sort: the workload of the partition, then its first index.\<close>

definition partition_key :: "int list \<Rightarrow> nat \<Rightarrow> nat list \<Rightarrow> (int \<times> nat) result" where
  "partition_key workloads force_group_size part =
     rbind (rmap (\<lambda>idx. py_get workloads (idx div force_group_size)) (stride force_group_size part))
       (\<lambda>ws. Inr (sum_list ws, if part = [] then 0 else hd part))"

definition balance_order :: "int list \<Rightarrow> nat \<Rightarrow> nat list list \<Rightarrow> nat list list result" where
  "balance_order workloads force_group_size micro_bsz_idx =
     rbind (rmap (partition_key workloads force_group_size) micro_bsz_idx) (\<lambda>keys.
     let by_load = map snd (py_sorted_rev (\<lambda>a b. fst a < fst b) (zip keys micro_bsz_idx))
     in Inr (rev (stride 2 by_load) @ stride 2 (drop 1 by_load)))"

definition micro_bsz_partitions :: "int list \<Rightarrow> nat \<Rightarrow> nat \<Rightarrow> (int list \<times> nat list list) result" where
  "micro_bsz_partitions lens force_group_size num_micro_batches =
     (if 1 < force_group_size
      then let group_workloads = map (\<lambda>ls. sint (\<Sum>l\<leftarrow>ls. calculate_workload (word_of_int l))) (chunks force_group_size lens)
           in rbind (get_seqlen_balanced_partitions group_workloads num_micro_batches False)
                (\<lambda>parts. Inr (group_workloads, map (expand_group force_group_size) parts))
      else let workloads = map workload_of lens
           in rbind (get_seqlen_balanced_partitions workloads num_micro_batches False)
                (\<lambda>parts. Inr (workloads, parts)))"

record micro_config =
  mc_max_token_len :: int
  mc_all_reduce :: "(int \<Rightarrow> int) option"
  mc_num_batches_divided_by :: "int option"
  mc_same_micro_num_in_dp :: bool
  mc_min_num_micro_batch :: "int option"
  mc_use_dynamic_bsz_balance :: bool
  mc_force_group_size :: nat

definition micro_batch_indices :: "tensor_dict \<Rightarrow> micro_config \<Rightarrow> nat list list result" where
  "micro_batch_indices batch c =
     rbind (seq_lens batch) (\<lambda>(max_seq_len, lens).
     let g = mc_force_group_size c; batch_size = length lens in
     if mc_max_token_len c < max_seq_len
     then Inl (AssertionError ''max_token_len must be greater than the sequence length'')
     else if g = 0 then Inl ZeroDivisionError
     else if batch_size mod g \<noteq> 0
     then Inl (AssertionError ''Batch size must be divisible by force_group_size'')
     else rbind (count_micro_batches (int (batch_size div g)) (sum_list lens) (mc_max_token_len c)
                   (mc_min_num_micro_batch c) (mc_all_reduce c) (mc_same_micro_num_in_dp c)
                   (mc_num_batches_divided_by c)) (\<lambda>n.
          rbind (micro_bsz_partitions lens g (nat n)) (\<lambda>(workloads, micro_bsz_idx).
          if mc_use_dynamic_bsz_balance c then balance_order workloads g micro_bsz_idx
          else Inr micro_bsz_idx)))"

definition rearrange_micro_batches :: "tensor_dict \<Rightarrow> micro_config \<Rightarrow> (tensor_dict list \<times> nat list list) result" where
  "rearrange_micro_batches batch c =
     rbind (micro_batch_indices batch c) (\<lambda>micro_bsz_idx.
     rbind (rmap (index_select_tensor_dict batch) micro_bsz_idx) (\<lambda>micro_batches.
     Inr (micro_batches, micro_bsz_idx)))"

section \<open>\<open>get_reverse_idx\<close>, \<open>prepare_dynamic_batch\<close>, \<open>restore_dynamic_batch\<close>\<close>

definition get_reverse_idx :: "nat list \<Rightarrow> nat list result" where
  "get_reverse_idx idx_map =
     rfold (\<lambda>reverse_idx_map (i, idx).
         if idx < length reverse_idx_map then Inr (reverse_idx_map[idx := i]) else Inl IndexError)
       idx_map (enumerate 0 idx_map)"

record data_proto =
  dp_batch :: tensor_dict
  dp_non_tensor_batch :: "(string \<times> string list) list"
  dp_meta_info :: "(string \<times> string) list"

definition prepare_dynamic_batch :: "data_proto \<Rightarrow> micro_config \<Rightarrow> (data_proto list \<times> nat list list) result" where
  "prepare_dynamic_batch data c =
     rbind (rearrange_micro_batches (dp_batch data) (c\<lparr>mc_force_group_size := 1\<rparr>)) (\<lambda>(batch, batch_idx_list).
     rbind (rmap (\<lambda>(tensors, batch_idx).
         rbind (rmap (\<lambda>(key, value). rbind (select_rows value batch_idx) (\<lambda>v. Inr (key, v))) (dp_non_tensor_batch data))
           (\<lambda>non_tensors. Inr \<lparr>dp_batch = tensors, dp_non_tensor_batch = non_tensors, dp_meta_info = dp_meta_info data\<rparr>))
       (zip batch batch_idx_list)) (\<lambda>micro_batches.
     Inr (micro_batches, batch_idx_list)))"

definition restore_dynamic_batch :: "'a list \<Rightarrow> nat list list \<Rightarrow> 'a list result" where
  "restore_dynamic_batch data batch_idx_list =
     (let indices = concat batch_idx_list in
      if length indices \<noteq> length data then Inl (AssertionError ''len(indices) vs. batch_size'')
      else rbind (get_reverse_idx indices) (select_rows data))"

section \<open>\<open>get_group_balanced_partitions\<close>\<close>

text \<open>
  One round of the loop that builds the groups: a uid is any value, \<open>None\<close> included, which is also
  the initial \<open>current_uid\<close>.
\<close>

record 'u uid_groups =
  ug_groups :: "(nat list \<times> int) list"
  ug_current_uid :: "'u option"
  ug_current_indices :: "nat list"
  ug_current_seqlen :: int

definition uid_group_flush :: "'u uid_groups \<Rightarrow> (nat list \<times> int) list" where
  "uid_group_flush s =
     (if ug_current_indices s \<noteq> [] then ug_groups s @ [(ug_current_indices s, ug_current_seqlen s)] else ug_groups s)"

definition uid_group_step :: "'u uid_groups \<Rightarrow> nat \<times> int \<times> 'u option \<Rightarrow> 'u uid_groups" where
  "uid_group_step s item =
     (case item of (i, seqlen, uid) \<Rightarrow>
        if uid \<noteq> ug_current_uid s
        then \<lparr>ug_groups = uid_group_flush s, ug_current_uid = uid, ug_current_indices = [i], ug_current_seqlen = seqlen\<rparr>
        else s\<lparr>ug_current_indices := ug_current_indices s @ [i], ug_current_seqlen := ug_current_seqlen s + seqlen\<rparr>)"

definition build_uid_groups :: "int list \<Rightarrow> 'u option list \<Rightarrow> (nat list \<times> int) list" where
  "build_uid_groups seqlen_list uid_list =
     uid_group_flush (foldl uid_group_step
       \<lparr>ug_groups = [], ug_current_uid = None, ug_current_indices = [], ug_current_seqlen = 0\<rparr>
       (enumerate 0 (zip seqlen_list uid_list)))"

definition get_group_balanced_partitions :: "int list \<Rightarrow> 'u option list \<Rightarrow> nat \<Rightarrow> nat list list result" where
  "get_group_balanced_partitions seqlen_list uid_list k_partitions =
     (if length seqlen_list \<noteq> length uid_list
      then Inl (AssertionError ''seqlen_list and uid_list must have same length'')
      else let groups = build_uid_groups seqlen_list uid_list in
        if length groups < k_partitions
        then Inl (AssertionError ''Number of uid groups must be >= k_partitions'')
        else let group_workloads = map (\<lambda>(indices, _). \<Sum>i\<leftarrow>indices. workload_of (seqlen_list ! i)) groups
          in rbind (get_seqlen_balanced_partitions group_workloads k_partitions True) (\<lambda>group_partitions.
             rmap (\<lambda>group_partition. rbind (rmap (py_get groups) group_partition)
                 (\<lambda>gs. Inr (py_sorted (<) (concat (map fst gs))))) group_partitions))"

section \<open>\<open>_balance_batch\<close> of the trainer\<close>

text \<open>
  \<open>verl/trainer/ppo/ray_trainer.py\<close>: the order in which the rows of a global batch are dispatched
  to the data-parallel ranks. \<open>uids\<close> is the batch's \<open>uid\<close> column, \<open>None\<close> where it has none.
\<close>

definition minibatch_partitions :: "int list \<Rightarrow> nat \<Rightarrow> nat \<Rightarrow> nat list list result" where
  "minibatch_partitions workload_lst dp_size minibatch_size =
     (if minibatch_size = 0 then Inl ZeroDivisionError
      else rfold (\<lambda>global_partition_lst i.
          rbind (get_seqlen_balanced_partitions
                   (py_slice workload_lst (i * minibatch_size) ((i + 1) * minibatch_size)) dp_size True)
            (\<lambda>parts. Inr (map (\<lambda>(acc, part). acc @ map (\<lambda>x. x + minibatch_size * i) part)
                         (zip global_partition_lst parts))))
        (replicate dp_size []) [0..<length workload_lst div minibatch_size])"

definition order_partition :: "int list \<Rightarrow> nat list \<Rightarrow> nat list result" where
  "order_partition workload_lst part =
     rbind (rmap (\<lambda>x. rbind (py_get workload_lst x) (\<lambda>w. Inr (w, x))) part) (\<lambda>keys.
     let sorted_part = map snd (py_sorted (<) keys)
     in Inr (stride 2 sorted_part @ rev (stride 2 (drop 1 sorted_part))))"

definition balance_partitions ::
  "int list \<Rightarrow> nat \<Rightarrow> bool \<Rightarrow> 'u option list option \<Rightarrow> bool \<Rightarrow> nat \<Rightarrow> nat list list result" where
  "balance_partitions global_seqlen_lst dp_size use_prefix_grouper uids keep_minibatch minibatch_size =
     (let workload_lst = map workload_of global_seqlen_lst in
      case (use_prefix_grouper, uids) of
        (True, Some uid_list) \<Rightarrow>
          if dp_size = 0 then Inl ZeroDivisionError
          else if length (remdups uid_list) mod dp_size \<noteq> 0
          then Inl (ValueError ''PrefixGrouper with balance_batch requires num_uid_groups % dp_size == 0'')
          else get_group_balanced_partitions global_seqlen_lst uid_list dp_size
      | _ \<Rightarrow> if keep_minibatch then minibatch_partitions workload_lst dp_size minibatch_size
             else get_seqlen_balanced_partitions workload_lst dp_size True)"

definition balance_batch ::
  "int list list \<Rightarrow> nat \<Rightarrow> bool \<Rightarrow> 'u option list option \<Rightarrow> bool \<Rightarrow> nat \<Rightarrow> (nat list \<times> unbalance_stats) result" where
  "balance_batch attention_mask dp_size use_prefix_grouper uids keep_minibatch minibatch_size =
     (let global_seqlen_lst = map sum_list attention_mask;
          workload_lst = map workload_of global_seqlen_lst
      in rbind (balance_partitions global_seqlen_lst dp_size use_prefix_grouper uids keep_minibatch minibatch_size)
           (\<lambda>parts0. rbind (if use_prefix_grouper then Inr parts0 else rmap (order_partition workload_lst) parts0)
           (\<lambda>parts. rbind (log_seqlen_unbalance global_seqlen_lst parts)
           (\<lambda>stats. Inr (concat parts, stats)))))"

section \<open>Facts about workloads and rounding\<close>

lemma sint_word_of_int64:
  "- (2 ^ 63) \<le> x \<Longrightarrow> x < 2 ^ 63 \<Longrightarrow> sint (word_of_int x :: 64 word) = x"
  by (simp add: sint_sbintrunc' signed_take_bit_int_eq_self)

lemma calculate_workload_of_int:
  "calculate_workload (word_of_int l) = word_of_int (24576 * l + l ^ 2)"
  by (simp add: calculate_workload_def)

lemma workload_bound: "0 \<le> l \<Longrightarrow> l < 2 ^ 31 \<Longrightarrow> 24576 * l + l ^ 2 < 2 ^ 63" for l :: int
proof -
  assume l: "0 \<le> l" "l < 2 ^ 31"
  then have "l ^ 2 \<le> (2 ^ 31) ^ 2" by (intro power_mono) auto
  with l show ?thesis by simp
qed

lemma workload_of_exact: "0 \<le> l \<Longrightarrow> l < 2 ^ 31 \<Longrightarrow> workload_of l = 24576 * l + l ^ 2"
  unfolding workload_of_def calculate_workload_of_int
  by (rule sint_word_of_int64) (use workload_bound [of l] in \<open>auto intro: order_trans [of _ 0]\<close>)

lemma ceildiv_pos: "0 < b \<Longrightarrow> ceildiv a b = Inr ((a + b - 1) div b)"
proof -
  assume b: "0 < b"
  have "- (a div - b) = (a + b - 1) div b"
  proof -
    have "a div - b = (- a) div b" by (simp add: div_minus_right)
    moreover have "(a + b - 1) div b = - ((- a) div b)"
    proof (rule int_div_pos_eq [where r = "(a + b - 1) + b * ((- a) div b)"])
      have "- a = b * ((- a) div b) + (- a) mod b" by simp
      moreover have "0 \<le> (- a) mod b" "(- a) mod b < b" using b by auto
      ultimately show "0 \<le> (a + b - 1) + b * ((- a) div b)" "(a + b - 1) + b * ((- a) div b) < b" by linarith+
    qed simp
    ultimately show ?thesis by simp
  qed
  then show ?thesis using b by (simp add: ceildiv_def)
qed

lemma roundup_bounds:
  assumes "0 < b"
  shows "\<exists>r. roundup_divisible a b = Inr r \<and> b dvd r \<and> a \<le> r \<and> r < a + b"
proof -
  let ?q = "(a + b - 1) div b"
  have "b * ?q + (a + b - 1) mod b = a + b - 1" by simp
  moreover have "0 \<le> (a + b - 1) mod b" "(a + b - 1) mod b < b" using assms by auto
  ultimately have "a \<le> b * ?q" "b * ?q < a + b" by linarith+
  then show ?thesis using assms by (auto simp: roundup_divisible_def mult.commute)
qed

lemma ceildiv_bounds:
  assumes "0 < b"
  shows "\<exists>q. ceildiv a b = Inr q \<and> a \<le> q * b \<and> (q - 1) * b < a"
proof -
  obtain r where "roundup_divisible a b = Inr r" "a \<le> r" "r < a + b" using roundup_bounds [OF assms] by blast
  then show ?thesis using assms by (auto simp: ceildiv_pos roundup_divisible_def algebra_simps)
qed

section \<open>The inverse of a permutation\<close>

lemma get_reverse_idx_inverse:
  assumes "mset idx = mset [0..<length idx]"
  obtains r where "get_reverse_idx idx = Inr r" "length r = length idx" "\<And>i. i < length idx \<Longrightarrow> r ! (idx ! i) = i"
proof -
  let ?n = "length idx"
  let ?P = "\<lambda>seen r. length r = ?n \<and> (\<forall>(i, j)\<in>set seen. r ! j = i)"
  have d: "distinct idx" "set idx = {0..<?n}" using mset_upt_distinct [OF assms] by auto
  have step: "\<exists>s'. (if snd x < length r then Inr (r[snd x := fst x]) else Inl IndexError) = Inr s' \<and> ?P (seen @ [x]) s'"
    if e: "enumerate 0 idx = seen @ x # rest" and P: "?P seen r" for seen x rest r
  proof -
    have dj: "distinct (map snd (seen @ x # rest))" using d(1) unfolding e [symmetric] by simp
    have "x \<in> set (enumerate 0 idx)" using e by simp
    then have "snd x \<in> set idx" by (metis in_set_zip enumerate_eq_zip snd_conv nth_mem in_set_enumerate_eq minus_nat.diff_0 add_0)
    then have "snd x < ?n" using d(2) by auto
    moreover have "snd x \<notin> snd ` set seen" using dj by simp
    then have "snd y \<noteq> snd x" if "y \<in> set seen" for y using imageI [OF that, of snd] by metis
    ultimately show ?thesis using P by (fastforce simp: nth_list_update)
  qed
  have "\<exists>r. rfold (\<lambda>r (i, idx). if idx < length r then Inr (r[idx := i]) else Inl IndexError) idx (enumerate 0 idx) = Inr r \<and>
      ?P (enumerate 0 idx) r"
    by (rule rfold_invariant [where P = ?P]) (use step in \<open>auto simp: case_prod_unfold\<close>)
  then obtain r where r: "get_reverse_idx idx = Inr r" "?P (enumerate 0 idx) r" by (auto simp: get_reverse_idx_def)
  have "r ! (idx ! i) = i" if "i < ?n" for i
    using r(2) that by (force simp: in_set_enumerate_eq)
  then show ?thesis using r that by blast
qed

text \<open>Selecting by a permutation and then by its inverse gives the rows back.\<close>

lemma select_rows_total: "(\<And>i. i \<in> set idx \<Longrightarrow> i < length rows) \<Longrightarrow> select_rows rows idx = Inr (map ((!) rows) idx)"
  unfolding select_rows_def by (rule rmap_total) simp

lemma restore_permuted:
  assumes "mset (concat parts) = mset [0..<length rows]"
  shows "restore_dynamic_batch (map ((!) rows) (concat parts)) parts = Inr rows"
proof -
  let ?idx = "concat parts" and ?n = "length rows"
  have len: "length ?idx = ?n" and d: "distinct ?idx" "set ?idx = {0..<?n}" using mset_upt_distinct [OF assms] by auto
  obtain r where r: "get_reverse_idx ?idx = Inr r" "length r = ?n" "\<And>i. i < ?n \<Longrightarrow> r ! (?idx ! i) = i"
    using get_reverse_idx_inverse [of ?idx] assms len by metis
  have rj: "r ! j < ?n \<and> ?idx ! (r ! j) = j" if "j < ?n" for j
  proof -
    have "j \<in> set ?idx" using that d(2) by simp
    then obtain i where "i < ?n" "?idx ! i = j" by (metis in_set_conv_nth len)
    then show ?thesis using r(3) by auto
  qed
  have "select_rows (map ((!) rows) ?idx) r = Inr (map ((!) (map ((!) rows) ?idx)) r)"
    by (rule select_rows_total) (use rj r(2) len in \<open>auto simp: in_set_conv_nth\<close>)
  moreover have "map ((!) (map ((!) rows) ?idx)) r = rows"
    by (rule nth_equalityI) (use rj r(2) len in auto)
  ultimately show ?thesis using r(1) len by (simp add: restore_dynamic_batch_def Let_def)
qed

section \<open>Sums of workloads on \<open>int64\<close>\<close>

definition int_workload :: "int \<Rightarrow> int" where
  "int_workload l = 24576 * l + l ^ 2"

definition workload_fits :: "nat \<Rightarrow> int \<Rightarrow> bool" where
  "workload_fits g l \<longleftrightarrow> 0 \<le> l \<and> int g * int_workload l < 2 ^ 63"

lemma int_workload_nonneg: "0 \<le> l \<Longrightarrow> 0 \<le> int_workload l"
  by (simp add: int_workload_def)

lemma sum_workload_words:
  "(\<Sum>l\<leftarrow>ls. calculate_workload (word_of_int l)) = word_of_int (\<Sum>l\<leftarrow>ls. int_workload l)"
  by (induction ls) (simp_all add: calculate_workload_of_int int_workload_def)

lemma group_workload_exact:
  assumes fits: "\<forall>l\<in>set ls. workload_fits g l" and len: "length ls \<le> g" "0 < g"
  shows "sint (\<Sum>l\<leftarrow>ls. calculate_workload (word_of_int l)) = (\<Sum>l\<leftarrow>ls. int_workload l)"
    and "0 \<le> (\<Sum>l\<leftarrow>ls. int_workload l)"
proof -
  let ?M = "(2 ^ 63 - 1) div int g"
  have le: "int_workload l \<le> ?M" if "l \<in> set ls" for l
  proof -
    have "int_workload l = (int g * int_workload l) div int g" using len(2) by simp
    also have "\<dots> \<le> ?M" by (rule zdiv_mono1) (use fits that len(2) in \<open>auto simp: workload_fits_def\<close>)
    finally show ?thesis .
  qed
  have nn: "0 \<le> int_workload l" if "l \<in> set ls" for l
    using fits that by (auto simp: workload_fits_def intro: int_workload_nonneg)
  show nonneg: "0 \<le> (\<Sum>l\<leftarrow>ls. int_workload l)" by (rule sum_list_nonneg) (use nn in auto)
  have "(\<Sum>l\<leftarrow>ls. int_workload l) \<le> (\<Sum>l\<leftarrow>ls. ?M)" by (rule sum_list_mono) (rule le)
  also have "\<dots> = int (length ls) * ?M" by (simp add: sum_list_triv)
  also have "\<dots> \<le> int g * ?M" by (rule mult_right_mono) (use len in \<open>auto simp: pos_imp_zdiv_nonneg_iff\<close>)
  also have "\<dots> \<le> 2 ^ 63 - 1" using len(2) by (metis mult.commute div_mult_mod_eq le_add_same_cancel1 of_nat_0_less_iff pos_mod_sign)
  finally show "sint (\<Sum>l\<leftarrow>ls. calculate_workload (word_of_int l)) = (\<Sum>l\<leftarrow>ls. int_workload l)"
    unfolding sum_workload_words using nonneg by (intro sint_word_of_int64) auto
qed

lemma workload_of_fits: "workload_fits 1 l \<Longrightarrow> workload_of l = int_workload l \<and> 0 \<le> workload_of l"
  using group_workload_exact [of "[l]" 1] by (simp add: workload_of_def)

section \<open>Strides, groups and the order of the micro-batches\<close>

lemma stride_2 [simp]:
  "stride 2 [] = []" "stride 2 [x] = [x]" "stride 2 (x # y # xs) = x # stride 2 xs"
  by (simp_all add: stride_def chunks.simps [of 2 "_ # _"])

lemma stride_2_split: "mset (stride 2 xs) + mset (stride 2 (drop 1 xs)) = mset xs"
proof (induction xs rule: induct_list012)
  case (3 x y zs)
  have "stride 2 (y # zs) = y # stride 2 (drop 1 zs)" by (cases zs) auto
  with 3(1) show ?case by simp
qed auto

lemma expand_group_concat: "concat (map (expand_group g) parts) = expand_group g (concat parts)"
  by (induction parts) (auto simp: expand_group_def)

lemma expand_group_upt: "expand_group g [0..<n] = [0..<n * g]"
proof (induction n)
  case (Suc n)
  have "[0..<n * g] @ [n * g..<n * g + g] = [0..<n * g + g]" by (rule upt_add_eq_append [symmetric]) simp
  with Suc show ?case by (simp add: expand_group_def add.commute)
qed (simp add: expand_group_def)

lemma expand_group_perm:
  assumes "mset (concat parts) = mset [0..<n]"
  shows "mset (concat (map (expand_group g) parts)) = mset [0..<n * g]"
proof -
  have "mset (expand_group g (concat parts)) = mset (expand_group g [0..<n])"
    unfolding expand_group_def by (rule mset_concat_swap) (simp only: mset_map assms)
  then show ?thesis by (simp only: expand_group_concat expand_group_upt)
qed

lemma set_expand_group: "0 < g \<Longrightarrow> i \<in> set (expand_group g p) \<longleftrightarrow> i div g \<in> set p"
proof
  assume g: "0 < g"
  show "i div g \<in> set p" if i: "i \<in> set (expand_group g p)"
  proof -
    obtain q where "q \<in> set p" "q * g \<le> i" "i < q * g + g"
      using i unfolding expand_group_def by auto
    moreover from this have "i div g = q" by (metis add.commute div_nat_eqI mult.commute mult_Suc)
    ultimately show ?thesis by simp
  qed
  show "i \<in> set (expand_group g p)" if "i div g \<in> set p"
  proof -
    have "i < i div g * g + g" using div_mult_mod_eq [of i g] mod_less_divisor [OF g, of i] by linarith
    then show ?thesis using that by (auto simp: expand_group_def intro!: bexI [of _ "i div g"])
  qed
qed


lemma stride_expand_group:
  assumes "0 < g"
  shows "stride g (expand_group g p) = map (\<lambda>q. q * g) p"
proof (induction p)
  case (Cons q p)
  have "expand_group g (q # p) = [q * g..<q * g + g] @ expand_group g p" by (simp add: expand_group_def)
  then have "chunks g (expand_group g (q # p)) = [q * g..<q * g + g] # chunks g (expand_group g p)"
    using assms by (subst chunks.simps) simp
  then show ?case using Cons assms by (simp add: stride_def)
qed (simp add: stride_def expand_group_def)

lemma stride_1: "stride 1 xs = xs"
proof (induction xs)
  case (Cons x xs)
  then show ?case by (simp add: stride_def chunks.simps [of "Suc 0" "x # xs"])
qed (simp add: stride_def)

lemma stride_subset: "i \<in> set (stride n xs) \<Longrightarrow> i \<in> set xs"
proof (cases "n = 0")
  case False
  assume "i \<in> set (stride n xs)"
  then obtain c where "c \<in> set (chunks n xs)" "i = hd c" by (auto simp: stride_def)
  then have "i \<in> set (concat (chunks n xs))" using chunks_bound [of c n xs] by (auto intro!: bexI [of _ c])
  then show ?thesis using False by (simp add: concat_chunks)
qed (simp add: stride_def chunks.simps)

lemma balance_order_perm:
  assumes g: "0 < g" and idx: "\<And>p i. p \<in> set parts \<Longrightarrow> i \<in> set p \<Longrightarrow> i div g < length workloads"
  shows "\<exists>r. balance_order workloads g parts = Inr r \<and> mset r = mset parts"
proof -
  let ?key = "\<lambda>p. (\<Sum>i\<leftarrow>stride g p. workloads ! (i div g), if p = [] then 0 else hd p)"
  have "rmap (partition_key workloads g) parts = Inr (map ?key parts)"
  proof (rule rmap_total)
    fix p assume p: "p \<in> set parts"
    have "rmap (\<lambda>i. py_get workloads (i div g)) (stride g p) = Inr (map (\<lambda>i. workloads ! (i div g)) (stride g p))"
      by (rule rmap_total, rule py_get_Inr, rule idx [OF p], erule stride_subset)
    then show "partition_key workloads g p = Inr (?key p)" by (simp add: partition_key_def)
  qed
  moreover define by_load where "by_load = map snd (py_sorted_rev (\<lambda>a b. fst a < fst b) (zip (map ?key parts) parts))"
  moreover have "mset by_load = mset parts"
  proof -
    have "mset by_load = mset (map snd (zip (map ?key parts) parts))" by (simp only: by_load_def mset_map mset_py_sorted_rev)
    then show ?thesis by simp
  qed
  ultimately show ?thesis
    using stride_2_split [of by_load] by (simp add: balance_order_def Let_def)
qed

section \<open>\<open>rearrange_micro_batches\<close>\<close>

text \<open>What the index lists of the micro-batches of \<open>n\<close> rows in groups of \<open>g\<close> satisfy.\<close>

definition micro_split :: "nat \<Rightarrow> nat \<Rightarrow> nat list list \<Rightarrow> bool" where
  "micro_split n g parts \<longleftrightarrow> mset (concat parts) = mset [0..<n] \<and> (\<forall>p\<in>set parts. p \<noteq> []) \<and>
     (\<forall>p\<in>set parts. \<forall>i\<in>set p. \<forall>j<n. j div g = i div g \<longrightarrow> j \<in> set p)"

lemma micro_split_mset: "mset parts = mset parts' \<Longrightarrow> micro_split n g parts \<longleftrightarrow> micro_split n g parts'"
  using mset_concat_swap [of parts parts'] mset_eq_setD [of parts parts'] by (auto simp: micro_split_def)

lemma micro_split_idx: "micro_split n g parts \<Longrightarrow> p \<in> set parts \<Longrightarrow> i \<in> set p \<Longrightarrow> i < n"
  using mset_upt_distinct [of "concat parts" n] by (auto simp: micro_split_def)

lemma group_workloads_nonneg:
  assumes "0 < g" "\<forall>l\<in>set lens. workload_fits g l"
  shows "\<forall>w\<in>set (map (\<lambda>ls. sint (\<Sum>l\<leftarrow>ls. calculate_workload (word_of_int l))) (chunks g lens)). 0 \<le> w"
proof
  fix w assume "w \<in> set (map (\<lambda>ls. sint (\<Sum>l\<leftarrow>ls. calculate_workload (word_of_int l))) (chunks g lens))"
  then obtain ls where ls: "ls \<in> set (chunks g lens)" "w = sint (\<Sum>l\<leftarrow>ls. calculate_workload (word_of_int l))" by auto
  have "set ls \<subseteq> set (concat (chunks g lens))" using ls(1) by auto
  then have "\<forall>l\<in>set ls. workload_fits g l" using assms by (auto simp: concat_chunks)
  then show "0 \<le> w" using group_workload_exact [of ls g] chunks_bound [OF ls(1)] assms(1) ls(2) by simp
qed

lemma length_chunks_dvd: "0 < g \<Longrightarrow> g dvd length xs \<Longrightarrow> length (chunks g xs) = length xs div g"
proof -
  assume a: "0 < g" "g dvd length xs"
  have "length xs = (\<Sum>c\<leftarrow>chunks g xs. length c)" using concat_chunks [OF a(1), of xs] by (metis length_concat)
  also have "\<dots> = (\<Sum>c\<leftarrow>chunks g xs. g)"
    by (rule arg_cong [where f = sum_list]) (use chunks_full [OF a] in simp)
  finally show ?thesis using a by (simp add: sum_list_triv)
qed

lemma micro_bsz_partitions_split:
  assumes g: "0 < g" "g dvd length lens" and fits: "\<forall>l\<in>set lens. workload_fits g l" and n: "0 < n" "n \<le> length lens div g"
  obtains ws parts where "micro_bsz_partitions lens g n = Inr (ws, parts)" "length ws = length lens div g"
    "micro_split (length lens) g parts" "length parts = n"
proof (cases "1 < g")
  case True
  let ?ws = "map (\<lambda>ls. sint (\<Sum>l\<leftarrow>ls. calculate_workload (word_of_int l))) (chunks g lens)"
  have len: "length ?ws = length lens div g" by (simp add: length_chunks_dvd [OF g])
  obtain ps where ps: "get_seqlen_balanced_partitions ?ws n False = Inr (map (py_sorted (<)) ps)" "length ps = n"
      "mset (concat ps) = mset [0..<length ?ws]" "\<And>p. p \<in> set ps \<Longrightarrow> p \<noteq> []"
    using get_seqlen_balanced_run [of n ?ws False] n len group_workloads_nonneg [OF g(1) fits] by metis
  let ?parts = "map (expand_group g) (map (py_sorted (<)) ps)"
  have "mset (concat ?parts) = mset [0..<length lens div g * g]"
    using ps(3) len by (intro expand_group_perm) (simp only: mset_concat_sorted)
  moreover have "length lens div g * g = length lens" using g by simp
  moreover have "expand_group g p \<noteq> []" if "p \<noteq> []" for p
    using that g(1) by (cases p) (auto simp: expand_group_def)
  ultimately have "micro_split (length lens) g ?parts"
    using ps(4) g(1) by (auto simp: micro_split_def set_expand_group simp del: mset_concat)
  then show ?thesis using that [of ?ws ?parts] ps(1,2) len True by (simp add: micro_bsz_partitions_def Let_def)
next
  case False
  then have g1: "g = 1" using g by simp
  let ?ws = "map workload_of lens"
  have "\<forall>w\<in>set ?ws. 0 \<le> w" using fits g1 workload_of_fits by fastforce
  then obtain ps where ps: "get_seqlen_balanced_partitions ?ws n False = Inr (map (py_sorted (<)) ps)" "length ps = n"
      "mset (concat ps) = mset [0..<length ?ws]" "\<And>p. p \<in> set ps \<Longrightarrow> p \<noteq> []"
    using get_seqlen_balanced_run [of n ?ws False] n g1 by (metis div_by_1 length_map)
  let ?parts = "map (py_sorted (<)) ps"
  have "micro_split (length lens) g ?parts"
    using ps(3,4) g1 by (auto simp: micro_split_def mset_concat_sorted simp del: mset_concat)
  then show ?thesis using that [of ?ws ?parts] ps(1,2) g1 by (simp add: micro_bsz_partitions_def Let_def)
qed


text \<open>A forced minimum above the number of groups is an error, not a padding with empty micro-batches.\<close>

lemma min_num_micro_batch_too_large:
  assumes "0 < max_token_len" "num_groups < m"
  shows "count_micro_batches num_groups tokens max_token_len (Some m) None same None = Inl (AssertionError ''num_micro_batches <= num_groups'')"
  using assms by (simp add: count_micro_batches_def ceildiv_def rbind_def)

section \<open>Selecting rows of a batch\<close>

text \<open>Every per-row column of a batch of \<open>n\<close> rows has \<open>n\<close> entries.\<close>

fun column_wf :: "nat \<Rightarrow> column \<Rightarrow> bool" where
  "column_wf n (Tensor s rows) \<longleftrightarrow> length rows = n"
| "column_wf n (NestedTensor rows) \<longleftrightarrow> length rows = n"
| "column_wf n (NonTensorStack vs) \<longleftrightarrow> length vs = n"
| "column_wf n (NonTensorData v) \<longleftrightarrow> True"

definition td_wf :: "nat \<Rightarrow> tensor_dict \<Rightarrow> bool" where
  "td_wf n batch \<longleftrightarrow> (\<forall>(key, c)\<in>set batch. column_wf n c)"

fun take_column :: "nat list \<Rightarrow> column \<Rightarrow> column" where
  "take_column idx (Tensor s rows) = Tensor s (map ((!) rows) idx)"
| "take_column idx (NestedTensor rows) = NestedTensor (map ((!) rows) idx)"
| "take_column idx (NonTensorStack vs) = NonTensorStack (map ((!) vs) idx)"
| "take_column idx (NonTensorData v) = NonTensorData v"

lemma select_column_total: "column_wf n c \<Longrightarrow> (\<And>i. i \<in> set idx \<Longrightarrow> i < n) \<Longrightarrow> select_column idx c = Inr (take_column idx c)"
  by (cases c) (simp_all add: select_rows_total)

lemma index_select_total:
  assumes "td_wf n batch" "\<And>i. i \<in> set idx \<Longrightarrow> i < n"
  shows "index_select_tensor_dict batch idx = Inr (map (map_prod id (take_column idx)) batch)"
  unfolding index_select_tensor_dict_def
  by (rule rmap_total) (use assms select_column_total in \<open>fastforce simp: td_wf_def\<close>)

lemma td_get_take: "td_get (map (map_prod id (take_column idx)) batch) key = rbind (td_get batch key) (\<lambda>c. Inr (take_column idx c))"
proof -
  have "map_of (map (map_prod id (take_column idx)) batch) key = map_option (take_column idx) (map_of batch key)"
    by (induction batch) auto
  then show ?thesis by (simp add: td_get_def split: option.split)
qed

lemma td_wf_take: "td_wf (length idx) (map (map_prod id (take_column idx)) batch)"
proof -
  have "column_wf (length idx) (take_column idx c)" for c by (cases c) auto
  then show ?thesis by (auto simp: td_wf_def)
qed

lemma seq_lens_length:
  assumes "td_wf n batch" "seq_lens batch = Inr (mx, lens)"
  shows "length lens = n"
proof -
  have wf: "column_wf n c" if "td_get batch key = Inr c" for key c
    using assms(1) that by (auto simp: td_wf_def td_get_def split: option.splits dest!: map_of_SomeD)
  obtain c where c: "td_get batch ''input_ids'' = Inr c" using assms(2) by (auto simp: seq_lens_def result_simps)
  have "column_wf n c" by (rule wf [OF c])
  have dense: "length lens = n"
    if m: "rbind (td_get batch ''attention_mask'') (\<lambda>mask. case mask of Tensor s rows \<Rightarrow> Inr (int s, map sum_list rows)
      | _ \<Rightarrow> Inl (TypeError ''attention_mask'')) = Inr (mx, lens)"
  proof -
    obtain mask where mask: "td_get batch ''attention_mask'' = Inr mask" using m by (auto simp: rbind_eq_Inr)
    then show ?thesis using m wf [OF mask] by (cases mask) auto
  qed
  show ?thesis
  proof (cases c)
    case (NestedTensor rows)
    then show ?thesis using assms(2) c \<open>column_wf n c\<close>
      by (auto simp: seq_lens_def split: list.splits)
  qed (use assms(2) c dense in \<open>simp_all add: seq_lens_def\<close>)
qed

section \<open>The whole operation\<close>

lemma micro_batch_indices_split:
  assumes lens: "seq_lens batch = Inr (mx, lens)" "mx \<le> mc_max_token_len c"
    and g: "0 < mc_force_group_size c" "mc_force_group_size c dvd length lens"
    and fits: "\<forall>l\<in>set lens. workload_fits (mc_force_group_size c) l"
    and n: "count_micro_batches (int (length lens div mc_force_group_size c)) (sum_list lens) (mc_max_token_len c)
        (mc_min_num_micro_batch c) (mc_all_reduce c) (mc_same_micro_num_in_dp c) (mc_num_batches_divided_by c) = Inr n" "1 \<le> n"
  obtains idx where "micro_batch_indices batch c = Inr idx" "micro_split (length lens) (mc_force_group_size c) idx"
    "int (length idx) = n"
proof -
  let ?g = "mc_force_group_size c"
  have "n \<le> int (length lens div ?g)"
    using n(1) by (auto simp: count_micro_batches_def Let_def result_simps split: if_splits)
  then have "0 < nat n" "nat n \<le> length lens div ?g" using n(2) by auto
  then obtain ws parts where p: "micro_bsz_partitions lens ?g (nat n) = Inr (ws, parts)" "length ws = length lens div ?g"
    "micro_split (length lens) ?g parts" "length parts = nat n"
    using micro_bsz_partitions_split [OF g fits] by blast
  have "i div ?g < length ws" if "q \<in> set parts" "i \<in> set q" for q i
    using micro_split_idx [OF p(3) that] p(2) g by (simp add: div_less_iff_less_mult)
  then obtain r where r: "balance_order ws ?g parts = Inr r" "mset r = mset parts"
    using balance_order_perm [OF g(1), of parts ws] by blast
  have "micro_split (length lens) ?g r" "length r = nat n"
    using micro_split_mset [OF r(2)] mset_eq_length [OF r(2)] p(3,4) by auto
  then show ?thesis
    using that [of r] that [of parts] lens g n p r
    by (cases "mc_use_dynamic_bsz_balance c") (simp_all add: micro_batch_indices_def Let_def)
qed

lemma rearrange_run:
  assumes "micro_batch_indices batch c = Inr idx" "micro_split n g idx" "td_wf n batch"
  shows "rearrange_micro_batches batch c = Inr (map (\<lambda>p. map (map_prod id (take_column p)) batch) idx, idx)"
proof -
  have "rmap (index_select_tensor_dict batch) idx = Inr (map (\<lambda>p. map (map_prod id (take_column p)) batch) idx)"
    by (rule rmap_total, rule index_select_total [OF assms(3)]) (rule micro_split_idx [OF assms(2)])
  with assms(1) show ?thesis by (simp add: rearrange_micro_batches_def)
qed


section \<open>Groups of samples with the same uid\<close>

text \<open>After the samples \<open>0..<n\<close>: the finished groups and the current one are consecutive runs of equal uids.\<close>

definition uid_inv :: "'u option list \<Rightarrow> nat \<Rightarrow> 'u uid_groups \<Rightarrow> bool" where
  "uid_inv uids n s \<longleftrightarrow>
     concat (map fst (uid_group_flush s)) = [0..<n] \<and>
     (\<forall>(g, _)\<in>set (ug_groups s). g \<noteq> [] \<and> (\<exists>u. \<forall>i\<in>set g. uids ! i = u)) \<and>
     (\<forall>i\<in>set (ug_current_indices s). uids ! i = ug_current_uid s) \<and>
     (0 < n \<longrightarrow> n - 1 \<in> set (ug_current_indices s)) \<and>
     (\<forall>i. Suc i < n \<longrightarrow> uids ! i = uids ! Suc i \<longrightarrow> (\<exists>(g, _)\<in>set (uid_group_flush s). i \<in> set g \<and> Suc i \<in> set g))"

lemma uid_group_flush_grows:
  assumes "(g, x) \<in> set (uid_group_flush s)"
  shows "\<exists>g' x'. (g', x') \<in> set (uid_group_flush (uid_group_step s (n, l, u))) \<and> set g \<subseteq> set g'"
proof (cases "(g, x) \<in> set (ug_groups s)")
  case True
  then show ?thesis by (intro exI [of _ g] exI [of _ x]) (auto simp: uid_group_step_def uid_group_flush_def)
next
  case False
  then have "g = ug_current_indices s" "g \<noteq> []" using assms by (auto simp: uid_group_flush_def split: if_splits)
  then show ?thesis by (auto simp: uid_group_step_def uid_group_flush_def)
qed

lemma uid_group_step_inv:
  assumes inv: "uid_inv uids n s" and u: "uids ! n = u"
  shows "uid_inv uids (Suc n) (uid_group_step s (n, l, u))"
proof -
  let ?s = "uid_group_step s (n, l, u)"
  have "\<exists>(g, _)\<in>set (uid_group_flush ?s). i \<in> set g \<and> Suc i \<in> set g"
    if i: "Suc i < Suc n" "uids ! i = uids ! Suc i" for i
  proof (cases "Suc i = n")
    case True
    then have "n - 1 \<in> set (ug_current_indices s)" "0 < n" "i = n - 1" using inv by (auto simp: uid_inv_def)
    then show ?thesis
      using inv i True u by (auto simp: uid_inv_def uid_group_step_def uid_group_flush_def split: if_splits)
  next
    case False
    then have "\<exists>(g, x)\<in>set (uid_group_flush s). i \<in> set g \<and> Suc i \<in> set g"
      using inv i unfolding uid_inv_def by simp
    then obtain g x where "(g, x) \<in> set (uid_group_flush s)" "i \<in> set g" "Suc i \<in> set g" by auto
    with uid_group_flush_grows [OF this(1), of n l u] show ?thesis by blast
  qed
  moreover have "concat (map fst (uid_group_flush ?s)) = [0..<Suc n]"
    using inv by (auto simp: uid_inv_def uid_group_step_def uid_group_flush_def split: if_splits)
  ultimately show ?thesis
    using inv u by (auto simp: uid_inv_def uid_group_step_def uid_group_flush_def split: if_splits)
qed

lemma build_uid_groups_runs:
  assumes "length xs = length uids"
  shows "concat (map fst (build_uid_groups xs uids)) = [0..<length xs]"
    and "\<forall>(g, _)\<in>set (build_uid_groups xs uids). g \<noteq> [] \<and> (\<exists>u. \<forall>i\<in>set g. uids ! i = u)"
    and "Suc i < length xs \<Longrightarrow> uids ! i = uids ! Suc i \<Longrightarrow> \<exists>(g, _)\<in>set (build_uid_groups xs uids). i \<in> set g \<and> Suc i \<in> set g"
proof -
  let ?s0 = "\<lparr>ug_groups = [], ug_current_uid = None, ug_current_indices = [], ug_current_seqlen = 0\<rparr>"
  have "uid_inv uids n (foldl uid_group_step ?s0 (take n (enumerate 0 (zip xs uids))))" if "n \<le> length xs" for n
    using that
  proof (induction n)
    case (Suc n)
    then have "take (Suc n) (enumerate 0 (zip xs uids)) = take n (enumerate 0 (zip xs uids)) @ [(n, xs ! n, uids ! n)]"
      using assms by (simp add: take_Suc_conv_app_nth nth_enumerate_eq)
    with Suc show ?case by (simp add: uid_group_step_inv)
  qed (simp add: uid_inv_def uid_group_flush_def)
  from this [of "length xs"] have inv: "uid_inv uids (length xs) (foldl uid_group_step ?s0 (enumerate 0 (zip xs uids)))"
    using assms by simp
  then show "concat (map fst (build_uid_groups xs uids)) = [0..<length xs]"
    by (simp add: uid_inv_def build_uid_groups_def)
  show "\<forall>(g, _)\<in>set (build_uid_groups xs uids). g \<noteq> [] \<and> (\<exists>u. \<forall>i\<in>set g. uids ! i = u)"
    using inv by (auto simp: uid_inv_def build_uid_groups_def uid_group_flush_def split: if_splits)
  show "Suc i < length xs \<Longrightarrow> uids ! i = uids ! Suc i \<Longrightarrow> \<exists>(g, _)\<in>set (build_uid_groups xs uids). i \<in> set g \<and> Suc i \<in> set g"
    using inv by (simp add: uid_inv_def build_uid_groups_def)
qed


lemma concat_index_unique:
  "distinct (concat xss) \<Longrightarrow> r < length xss \<Longrightarrow> s < length xss \<Longrightarrow> i \<in> set (xss ! r) \<Longrightarrow> i \<in> set (xss ! s) \<Longrightarrow> r = s"
proof (induction xss arbitrary: r s)
  case (Cons xs xss)
  then show ?case by (cases r; cases s) (auto, (meson disjoint_iff nth_mem UN_I)+)
qed simp

lemma group_balanced_run:
  assumes len: "length xs = length uids" and fits: "\<forall>l\<in>set xs. workload_fits 1 l"
    and k: "0 < k" "k dvd length (build_uid_groups xs uids)" "xs \<noteq> []"
  obtains parts where "get_group_balanced_partitions xs uids k = Inr parts" "length parts = k"
    "mset (concat parts) = mset [0..<length xs]" "\<And>p. p \<in> set parts \<Longrightarrow> sorted p"
    "\<And>p g x i. p \<in> set parts \<Longrightarrow> (g, x) \<in> set (build_uid_groups xs uids) \<Longrightarrow> i \<in> set g \<Longrightarrow> i \<in> set p \<Longrightarrow> set g \<subseteq> set p"
proof -
  let ?gs = "build_uid_groups xs uids"
  let ?ws = "map (\<lambda>(indices, _). \<Sum>i\<leftarrow>indices. workload_of (xs ! i)) ?gs"
  have cat: "concat (map fst ?gs) = [0..<length xs]" by (rule build_uid_groups_runs(1) [OF len])
  have "?gs \<noteq> []" using cat k(3) by (cases xs) auto
  then have kle: "k \<le> length ?gs" using k(2) by (simp add: dvd_imp_le)
  have idx: "i < length xs" if "(g, x) \<in> set ?gs" "i \<in> set g" for g x i
  proof -
    have "i \<in> set (concat (map fst ?gs))" using that by force
    then show ?thesis unfolding cat by simp
  qed
  have nn: "\<forall>w\<in>set ?ws. 0 \<le> w"
  proof
    fix w assume w: "w \<in> set ?ws"
    obtain g x where g: "(g, x) \<in> set ?gs" "w = (\<Sum>i\<leftarrow>g. workload_of (xs ! i))" using w by auto
    show "0 \<le> w" unfolding g(2)
    proof (rule sum_list_nonneg)
      fix v assume "v \<in> set (map (\<lambda>i. workload_of (xs ! i)) g)"
      then obtain i where "i < length xs" "v = workload_of (xs ! i)" using idx [OF g(1)] by auto
      then show "0 \<le> v" using fits workload_of_fits by (metis nth_mem)
    qed
  qed
  have "k \<le> length ?ws" "True \<longrightarrow> k dvd length ?ws" using kle k(2) by simp_all
  then obtain ps where ps: "get_seqlen_balanced_partitions ?ws k True = Inr (map (py_sorted (<)) ps)" "length ps = k"
      "mset (concat ps) = mset [0..<length ?ws]"
    by (rule get_seqlen_balanced_run [OF k(1) _ nn]) blast
  define gps where "gps = map (py_sorted (<)) ps"
  have gps: "mset (concat gps) = mset [0..<length ?gs]" using ps(3) by (simp only: gps_def mset_concat_sorted length_map)
  define part where "part gp = py_sorted (<) (concat (map (\<lambda>q. fst (?gs ! q)) gp))" for gp
  have q: "q < length ?gs" if "gp \<in> set gps" "q \<in> set gp" for gp q
    using that mset_upt_distinct [OF gps] by auto
  have "rmap (\<lambda>gp. rbind (rmap (py_get ?gs) gp) (\<lambda>gs. Inr (py_sorted (<) (concat (map fst gs))))) gps = Inr (map part gps)"
  proof (rule rmap_total)
    fix gp assume "gp \<in> set gps"
    then have "rmap (py_get ?gs) gp = Inr (map ((!) ?gs) gp)" using q by (intro rmap_total) simp
    then show "rbind (rmap (py_get ?gs) gp) (\<lambda>gs. Inr (py_sorted (<) (concat (map fst gs)))) = Inr (part gp)"
      by (simp add: part_def comp_def)
  qed
  then have run: "get_group_balanced_partitions xs uids k = Inr (map part gps)"
    using ps(1) len kle by (simp add: get_group_balanced_partitions_def gps_def)
  have "mset (concat (map part gps)) = mset (concat (map (\<lambda>q. fst (?gs ! q)) (concat gps)))"
    by (induction gps) (auto simp: part_def)
  also have "\<dots> = mset (concat (map (\<lambda>q. fst (?gs ! q)) [0..<length ?gs]))"
    by (rule mset_concat_swap) (simp only: mset_map gps)
  also have "map (\<lambda>q. fst (?gs ! q)) [0..<length ?gs] = map fst ?gs" by (rule nth_equalityI) auto
  finally have perm: "mset (concat (map part gps)) = mset [0..<length xs]" unfolding cat .
  have whole: "set g \<subseteq> set p"
    if p: "p \<in> set (map part gps)" and g: "(g, x) \<in> set ?gs" and i: "i \<in> set g" "i \<in> set p" for p g x i
  proof -
    obtain gp where gp: "gp \<in> set gps" "p = part gp" using p by auto
    then obtain r where r: "r \<in> set gp" "i \<in> set (fst (?gs ! r))" using i(2) by (auto simp: part_def)
    have rl: "r < length ?gs" by (rule q [OF gp(1) r(1)])
    have "distinct (concat (map fst ?gs))" unfolding cat by simp
    obtain s where s: "s < length ?gs" "?gs ! s = (g, x)" using g by (auto simp: in_set_conv_nth)
    have "r = s"
      using concat_index_unique [OF \<open>distinct (concat (map fst ?gs))\<close>, of r s i] rl s i(1) r(2) by simp
    then have "fst (?gs ! r) = g" using s by simp
    then show ?thesis using r(1) gp(2) by (auto simp: part_def)
  qed
  show ?thesis
    by (rule that [OF run]) (use ps(2) perm whole in \<open>auto simp: gps_def part_def sorted_py_sorted simp del: mset_concat\<close>)
qed


section \<open>The dispatch order of a global batch\<close>

lemma order_partition_perm:
  assumes "\<And>x. x \<in> set part \<Longrightarrow> x < length ws"
  shows "\<exists>r. order_partition ws part = Inr r \<and> mset r = mset part"
proof -
  have "rmap (\<lambda>x. rbind (py_get ws x) (\<lambda>w. Inr (w, x))) part = Inr (map (\<lambda>x. (ws ! x, x)) part)"
    by (rule rmap_total) (use assms in auto)
  moreover define srt where "srt = map snd (py_sorted (<) (map (\<lambda>x. (ws ! x, x)) part))"
  moreover have "mset srt = mset part"
  proof -
    have "mset srt = mset (map snd (map (\<lambda>x. (ws ! x, x)) part))" by (simp only: srt_def mset_map mset_py_sorted)
    then show ?thesis by (simp add: comp_def)
  qed
  ultimately show ?thesis using stride_2_split [of srt] by (simp add: order_partition_def Let_def)
qed

lemma order_partitions_perm:
  assumes "mset (concat parts0) = mset [0..<length ws]"
  shows "\<exists>parts. rmap (order_partition ws) parts0 = Inr parts \<and> list_all2 (\<lambda>p q. mset p = mset q) parts0 parts \<and>
    mset (concat parts) = mset [0..<length ws]"
proof -
  have "x < length ws" if "p \<in> set parts0" "x \<in> set p" for p x using that mset_upt_distinct [OF assms] by auto
  then have "\<forall>p\<in>set parts0. \<exists>r. order_partition ws p = Inr r \<and> mset r = mset p"
    using order_partition_perm by blast
  then obtain f where f: "\<And>p. p \<in> set parts0 \<Longrightarrow> order_partition ws p = Inr (f p) \<and> mset (f p) = mset p" by metis
  then have "rmap (order_partition ws) parts0 = Inr (map f parts0)" by (intro rmap_total) simp
  moreover have "list_all2 (\<lambda>p q. mset p = mset q) parts0 (map f parts0)" using f by (simp add: list_all2_map2 list_all2_same)
  moreover have "mset (concat (map f ps)) = mset (concat ps)" if "set ps \<subseteq> set parts0" for ps
    using that f by (induction ps) auto
  ultimately show ?thesis using assms by auto
qed

lemma zip_extend_perm:
  "length accs = length parts \<Longrightarrow>
   mset (concat (map (\<lambda>(acc, part). acc @ f part) (zip accs parts))) = mset (concat accs) + mset (concat (map f parts))"
  by (induction accs parts rule: list_induct2) auto

lemma minibatch_partitions_perm:
  assumes mb: "0 < mb" and dp: "0 < dp" "dp dvd mb" and nn: "\<forall>w\<in>set ws. 0 \<le> w"
  shows "\<exists>parts. minibatch_partitions ws dp mb = Inr parts \<and> length parts = dp \<and>
    mset (concat parts) = mset [0..<length ws div mb * mb]"
proof -
  let ?f = "\<lambda>glob i. rbind (get_seqlen_balanced_partitions (py_slice ws (i * mb) ((i + 1) * mb)) dp True)
            (\<lambda>parts. Inr (map (\<lambda>(acc, part). acc @ map (\<lambda>x. x + mb * i) part) (zip glob parts)))"
  let ?P = "\<lambda>seen glob. length glob = dp \<and> mset (concat glob) = mset [0..<length seen * mb]"
  have step: "\<exists>s'. ?f s x = Inr s' \<and> ?P (seen @ [x]) s'"
    if e: "[0..<length ws div mb] = seen @ x # rest" and P: "?P seen s" for seen x rest s
  proof -
    have x: "x = length seen" "x < length ws div mb"
      using arg_cong [OF e, of length] arg_cong [OF e, of "\<lambda>l. l ! length seen"]
      by (auto simp: nth_append)
    have "(x + 1) * mb \<le> length ws" using x(2) mb by (metis Suc_eq_plus1 Suc_leI div_times_less_eq_dividend le_trans mult_le_mono1)
    then have len: "length (py_slice ws (x * mb) ((x + 1) * mb)) = mb" by (simp add: algebra_simps)
    have "set (py_slice ws (x * mb) ((x + 1) * mb)) \<subseteq> set ws"
      by (auto simp: py_slice_def dest!: in_set_takeD in_set_dropD)
    then have "\<forall>w\<in>set (py_slice ws (x * mb) ((x + 1) * mb)). 0 \<le> w" using nn by auto
    moreover have "dp \<le> mb" using dp mb by (simp add: dvd_imp_le)
    ultimately obtain ps where ps: "get_seqlen_balanced_partitions (py_slice ws (x * mb) ((x + 1) * mb)) dp True = Inr (map (py_sorted (<)) ps)"
        "length ps = dp" "mset (concat ps) = mset [0..<mb]"
      using get_seqlen_balanced_run [of dp "py_slice ws (x * mb) ((x + 1) * mb)" True] len dp by metis
    let ?ps = "map (py_sorted (<)) ps"
    have "mset (concat (map (map (\<lambda>y. y + mb * x)) ?ps)) = mset (map (\<lambda>y. y + mb * x) (concat ?ps))"
      by (simp only: map_concat)
    also have "\<dots> = image_mset (\<lambda>y. y + mb * x) (mset [0..<mb])" using ps(3) by (simp only: mset_map mset_concat_sorted)
    also have "\<dots> = mset [x * mb..<x * mb + mb]" 
      by (simp only: mset_map [symmetric] map_add_upt) (simp add: mult.commute add.commute)
    finally have "mset (concat (map (\<lambda>(acc, part). acc @ map (\<lambda>y. y + mb * x) part) (zip s ?ps))) =
        mset ([0..<x * mb] @ [x * mb..<x * mb + mb])"
      using zip_extend_perm [of s ?ps "map (\<lambda>y. y + mb * x)"] P ps(2) x(1) by simp
    moreover have "[0..<x * mb] @ [x * mb..<x * mb + mb] = [0..<x * mb + mb]" by (rule upt_add_eq_append [symmetric]) simp
    ultimately have "mset (concat (map (\<lambda>(acc, part). acc @ map (\<lambda>y. y + mb * x) part) (zip s ?ps))) = mset [0..<x * mb + mb]"
      by (simp only:)
    then show ?thesis using ps(1,2) P x(1) by (simp add: add.commute del: mset_upt)
  qed
  have "\<exists>glob. rfold ?f (replicate dp []) [0..<length ws div mb] = Inr glob \<and> ?P [0..<length ws div mb] glob"
    by (rule rfold_invariant [where P = ?P], simp add: concat_replicate_trivial, rule step)
  then show ?thesis using mb by (simp add: minibatch_partitions_def)
qed


lemma run_closed:
  assumes "\<And>m. m \<in> set p \<Longrightarrow> Suc m < n \<Longrightarrow> uids ! m = uids ! Suc m \<Longrightarrow> Suc m \<in> set p"
  shows "\<forall>i\<in>set p. \<forall>j<n. i \<le> j \<and> (\<forall>m\<in>{i..j}. uids ! m = uids ! i) \<longrightarrow> j \<in> set p"
proof (intro ballI allI impI)
  fix i j assume i: "i \<in> set p" and j: "j < n" and r: "i \<le> j \<and> (\<forall>m\<in>{i..j}. uids ! m = uids ! i)"
  have "m \<in> set p" if "i \<le> m" "m \<le> j" for m
    using that
  proof (induction m rule: dec_induct)
    case (step m)
    then have "m \<in> {i..j}" "Suc m \<in> {i..j}" "Suc m < n" using j by simp_all
    then have "uids ! m = uids ! i" "uids ! Suc m = uids ! i" "Suc m < n" using r by blast+
    moreover have "m \<in> set p" using step by simp
    ultimately show ?case using assms [of m] by simp
  qed (rule i)
  then show "j \<in> set p" using r by simp
qed

section \<open>Properties\<close>

text \<open>
  C7. \<open>rearrange_micro_batches\<close> returns where its assertions are met and the workloads of a group
  fit \<open>int64\<close>: it makes exactly \<open>n\<close> micro-batches (the count of \<open>count_micro_batches\<close>), none
  empty, every row is in exactly one of them, consecutive samples of a forced group stay
  together, and each micro-batch holds the rows of its index list. This also holds where
  \<open>min_num_micro_batch\<close> raises the count: no empty micro-batch is ever added, although the docstring says that a
  forced count "pads empty ones"; a minimum above the number of rows fails the assertion in \<open>count_micro_batches\<close>.
\<close>
theorem rearrange_micro_batches_splits:
  assumes "td_wf (length lens) batch" "seq_lens batch = Inr (mx, lens)" "mx \<le> mc_max_token_len c"
    and "0 < mc_force_group_size c" "mc_force_group_size c dvd length lens"
    and "\<forall>l\<in>set lens. workload_fits (mc_force_group_size c) l"
    and "count_micro_batches (int (length lens div mc_force_group_size c)) (sum_list lens) (mc_max_token_len c)
        (mc_min_num_micro_batch c) (mc_all_reduce c) (mc_same_micro_num_in_dp c) (mc_num_batches_divided_by c) = Inr n" "1 \<le> n"
  shows "\<exists>mbs idx. rearrange_micro_batches batch c = Inr (mbs, idx) \<and> int (length idx) = n \<and>
    micro_split (length lens) (mc_force_group_size c) idx \<and>
    list_all2 (\<lambda>p mb. index_select_tensor_dict batch p = Inr mb \<and> td_wf (length p) mb) idx mbs"
proof -
  obtain idx where idx: "micro_batch_indices batch c = Inr idx" "micro_split (length lens) (mc_force_group_size c) idx"
    "int (length idx) = n" using micro_batch_indices_split [OF assms(2-8)] by blast
  have "index_select_tensor_dict batch p = Inr (map (map_prod id (take_column p)) batch)" if "p \<in> set idx" for p
    by (rule index_select_total [OF assms(1)]) (rule micro_split_idx [OF idx(2) that])
  then show ?thesis
    using rearrange_run [OF idx(1,2) assms(1)] idx by (auto simp: list_all2_map2 list_all2_same td_wf_take)
qed

text \<open>
  C8. Micro-batching is undone by \<open>restore_dynamic_batch\<close>: whatever is computed row by row (\<open>f\<close>)
  on a dense column of the micro-batches, concatenated in the order of the micro-batches and
  restored with their index lists, is the result on the rows of the original batch, in order.
\<close>
theorem rearrange_restore_roundtrip:
  assumes "td_wf (length lens) batch" "seq_lens batch = Inr (mx, lens)" "mx \<le> mc_max_token_len c"
    and "0 < mc_force_group_size c" "mc_force_group_size c dvd length lens"
    and "\<forall>l\<in>set lens. workload_fits (mc_force_group_size c) l"
    and "count_micro_batches (int (length lens div mc_force_group_size c)) (sum_list lens) (mc_max_token_len c)
        (mc_min_num_micro_batch c) (mc_all_reduce c) (mc_same_micro_num_in_dp c) (mc_num_batches_divided_by c) = Inr n" "1 \<le> n"
    and "td_get batch key = Inr (Tensor s rows)"
  shows "\<exists>mbs idx outs. rearrange_micro_batches batch c = Inr (mbs, idx) \<and>
    list_all2 (\<lambda>mb out. td_get mb key = Inr (Tensor s out)) mbs outs \<and>
    restore_dynamic_batch (concat (map (map f) outs)) idx = Inr (map f rows)"
proof -
  obtain idx where idx: "micro_batch_indices batch c = Inr idx" "micro_split (length lens) (mc_force_group_size c) idx"
    using micro_batch_indices_split [OF assms(2-8)] by blast
  let ?outs = "map (\<lambda>p. map ((!) rows) p) idx"
  have len: "length rows = length lens"
    using assms(1,9) by (auto simp: td_wf_def td_get_def split: option.splits dest!: map_of_SomeD)
  have lt: "i < length rows" if "p \<in> set idx" "i \<in> set p" for p i
    using micro_split_idx [OF idx(2) that] len by simp
  have "concat (map (map f) ?outs) = map ((!) (map f rows)) (concat idx)"
    using lt by (auto simp: map_concat comp_def intro!: arg_cong [where f = concat])
  moreover have "mset (concat idx) = mset [0..<length (map f rows)]"
    using idx(2) len by (simp add: micro_split_def)
  ultimately have "restore_dynamic_batch (concat (map (map f) ?outs)) idx = Inr (map f rows)"
    using restore_permuted [of idx "map f rows"] by simp
  moreover have "list_all2 (\<lambda>mb out. td_get mb key = Inr (Tensor s out)) (map (\<lambda>p. map (map_prod id (take_column p)) batch) idx) ?outs"
    using assms(9) by (simp add: list_all2_map1 list_all2_map2 list_all2_same td_get_take)
  ultimately show ?thesis using rearrange_run [OF idx assms(1)] by blast
qed

text \<open>
  C9. The number of micro-batches, where the all-reduce returns at least its own argument (MAX):
  it is at most the number of groups, at least the smaller of the number of groups and
  the needed count, at least the forced minimum, a multiple of the pipeline size, and
  enough that \<open>n\<close> micro-batches of \<open>max_token_len\<close> tokens hold all tokens whenever the
  groups are enough for it.
\<close>
theorem count_micro_batches_bounds:
  assumes "count_micro_batches num_groups total_seqlen max_token_len mn reduce same div_by = Inr n"
    and "0 < max_token_len" "\<forall>r x. reduce = Some r \<longrightarrow> x \<le> r x" "\<forall>d. div_by = Some d \<longrightarrow> 0 < d"
  shows "n \<le> num_groups \<and> (\<exists>q. ceildiv total_seqlen max_token_len = Inr q \<and> min num_groups q \<le> n \<and>
      (q \<le> num_groups \<longrightarrow> total_seqlen \<le> n * max_token_len)) \<and>
    (\<forall>m. mn = Some m \<longrightarrow> m \<le> n) \<and> (\<forall>d. div_by = Some d \<longrightarrow> d dvd n)"
proof -
  obtain q where q: "ceildiv total_seqlen max_token_len = Inr q" "total_seqlen \<le> q * max_token_len"
    using ceildiv_bounds [OF assms(2)] by blast
  let ?n1 = "min num_groups q"
  let ?n2 = "case mn of None \<Rightarrow> ?n1 | Some m \<Rightarrow> max m ?n1"
  let ?n3 = "case reduce of Some r \<Rightarrow> if same then r ?n2 else ?n2 | None \<Rightarrow> ?n2"
  have n: "n \<le> num_groups" "(case div_by of None \<Rightarrow> Inr ?n3 | Some d \<Rightarrow> roundup_divisible ?n3 d) = Inr n"
    using assms(1) q(1) by (auto simp: count_micro_batches_def Let_def result_simps)
  have "?n1 \<le> ?n2 \<and> (\<forall>m. mn = Some m \<longrightarrow> m \<le> ?n2)" by (auto split: option.split)
  moreover have "?n2 \<le> ?n3" using assms(3) by (auto split: option.split)
  moreover have "?n3 \<le> n \<and> (\<forall>d. div_by = Some d \<longrightarrow> d dvd n)"
    using n(2) assms(4) roundup_bounds [of _ ?n3] by (cases div_by) fastforce+
  ultimately have "?n1 \<le> n" "\<forall>m. mn = Some m \<longrightarrow> m \<le> n" "\<forall>d. div_by = Some d \<longrightarrow> d dvd n" by force+
  moreover have "total_seqlen \<le> n * max_token_len" if "q \<le> num_groups"
  proof -
    have "q * max_token_len \<le> n * max_token_len" using \<open>?n1 \<le> n\<close> that assms(2) by (intro mult_right_mono) auto
    then show ?thesis using q(2) by linarith
  qed
  ultimately show ?thesis using n(1) q(1) by blast
qed

text \<open>
  C10. \<open>get_group_balanced_partitions\<close>, when the number of runs of equal uids is a multiple of \<open>k\<close>:
  it returns \<open>k\<close> sorted index lists that hold every sample once, and a run of consecutive
  samples with one uid is never split between partitions.
\<close>
theorem group_balanced_keeps_uids:
  assumes "length xs = length uids" "\<forall>l\<in>set xs. workload_fits 1 l"
    and "0 < k" "k dvd length (build_uid_groups xs uids)" "xs \<noteq> []"
  shows "\<exists>parts. get_group_balanced_partitions xs uids k = Inr parts \<and> length parts = k \<and>
    mset (concat parts) = mset [0..<length xs] \<and>
    (\<forall>p\<in>set parts. sorted p \<and>
      (\<forall>i\<in>set p. \<forall>j<length xs. i \<le> j \<and> (\<forall>m\<in>{i..j}. uids ! m = uids ! i) \<longrightarrow> j \<in> set p))"
proof -
  obtain parts where parts: "get_group_balanced_partitions xs uids k = Inr parts" "length parts = k"
    "mset (concat parts) = mset [0..<length xs]" "\<And>p. p \<in> set parts \<Longrightarrow> sorted p"
    "\<And>p g x i. p \<in> set parts \<Longrightarrow> (g, x) \<in> set (build_uid_groups xs uids) \<Longrightarrow> i \<in> set g \<Longrightarrow> i \<in> set p \<Longrightarrow> set g \<subseteq> set p"
    using group_balanced_run [OF assms] by blast
  have "Suc m \<in> set p" if p: "p \<in> set parts" "m \<in> set p" and m: "Suc m < length xs" "uids ! m = uids ! Suc m" for p m
  proof -
    obtain g x where g: "(g, x) \<in> set (build_uid_groups xs uids)" "m \<in> set g" "Suc m \<in> set g"
      using build_uid_groups_runs(3) [OF assms(1) m] by auto
    then show ?thesis using parts(5) [OF p(1) g(1,2) p(2)] by blast
  qed
  then have "\<forall>i\<in>set p. \<forall>j<length xs. i \<le> j \<and> (\<forall>m\<in>{i..j}. uids ! m = uids ! i) \<longrightarrow> j \<in> set p" if "p \<in> set parts" for p
    using that by (intro run_closed) blast+
  then show ?thesis using parts by blast
qed

text \<open>
  C11. \<open>_balance_batch\<close> without the prefix grouper: when the ranks divide the batch (and, with
  \<open>keep_minibatch\<close>, the mini-batches divide it and the ranks divide a mini-batch), the order it
  applies is a permutation of the rows, so no sample is lost or repeated by the reordering.
\<close>
theorem balance_batch_permutes:
  assumes "amask \<noteq> []" "0 < dp" "dp dvd length amask" "\<forall>r\<in>set amask. workload_fits 1 (sum_list r)"
    and "keep \<longrightarrow> 0 < mb \<and> dp dvd mb \<and> mb dvd length amask"
  shows "\<exists>order stats. balance_batch amask dp False uids keep mb = Inr (order, stats) \<and>
    mset order = mset [0..<length amask] \<and> us_mean stats = real_of_int (\<Sum>r\<leftarrow>amask. sum_list r) / real dp"
proof -
  let ?lens = "map sum_list amask"
  let ?ws = "map workload_of ?lens"
  have nn: "\<forall>w\<in>set ?ws. 0 \<le> w" using assms(4) workload_of_fits by fastforce
  have le: "dp \<le> length amask" using assms(1,3) by (simp add: dvd_imp_le)
  have "\<exists>parts. balance_partitions ?lens dp False uids keep mb = Inr parts \<and> length parts = dp \<and>
      mset (concat parts) = mset [0..<length ?ws]"
  proof (cases keep)
    case True
    then show ?thesis using minibatch_partitions_perm [of mb dp ?ws] assms(2,5) nn
      by (simp add: balance_partitions_def)
  next
    case False
    obtain ps where "get_seqlen_balanced_partitions ?ws dp True = Inr (map (py_sorted (<)) ps)" "length ps = dp"
        "mset (concat ps) = mset [0..<length ?ws]"
      by (rule get_seqlen_balanced_run [OF assms(2) _ nn, of True]) (use le assms(3) in simp_all)
    with False show ?thesis
      by (auto simp: balance_partitions_def mset_concat_sorted simp del: mset_concat)
  qed
  then obtain parts0 where p0: "balance_partitions ?lens dp False uids keep mb = Inr parts0" "length parts0 = dp"
    "mset (concat parts0) = mset [0..<length ?ws]" by blast
  obtain parts where p: "rmap (order_partition ?ws) parts0 = Inr parts" "list_all2 (\<lambda>p q. mset p = mset q) parts0 parts"
    "mset (concat parts) = mset [0..<length ?ws]" using order_partitions_perm [OF p0(3)] by blast
  have len: "length parts = dp" using p(2) p0(2) by (simp add: list_all2_lengthD)
  have "i < length ?lens" if "q \<in> set parts" "i \<in> set q" for q i using that mset_upt_distinct [OF p(3)] by auto
  then obtain st where "log_seqlen_unbalance ?lens parts = Inr st" "us_mean st = real_of_int (sum_list ?lens) / real (length parts)"
    using log_seqlen_unbalance_eq [of parts ?lens] len le assms(2) by (metis length_greater_0_conv length_map)
  then show ?thesis using p0(1) p(1,3) len by (simp add: balance_batch_def Let_def)
qed

section \<open>The properties at concrete inputs\<close>

text \<open>Three rows of six tokens, at most ten tokens per micro-batch.\<close>

definition example_batch :: tensor_dict where
  "example_batch = [(''input_ids'', Tensor 6 [[1, 2, 3, 4, 5, 6], [7, 8, 9, 10, 11, 12], [13, 14, 15, 16, 17, 18]]),
     (''attention_mask'', Tensor 6 [[1, 1, 1, 1, 1, 1], [1, 1, 1, 1, 1, 1], [1, 1, 1, 1, 1, 1]])]"

definition example_config :: micro_config where
  "example_config = \<lparr>mc_max_token_len = 10, mc_all_reduce = None, mc_num_batches_divided_by = None,
     mc_same_micro_num_in_dp = True, mc_min_num_micro_batch = None, mc_use_dynamic_bsz_balance = True,
     mc_force_group_size = 1\<rparr>"

lemma example_facts:
  "td_wf (length [6, 6, 6::int]) example_batch" "seq_lens example_batch = Inr (6, [6, 6, 6])"
  "(6::int) \<le> mc_max_token_len example_config" "0 < mc_force_group_size example_config"
  "mc_force_group_size example_config dvd length [6, 6, 6::int]"
  "\<forall>l\<in>set [6, 6, 6]. workload_fits (mc_force_group_size example_config) l"
  "count_micro_batches (int (length [6, 6, 6::int] div mc_force_group_size example_config)) (sum_list [6, 6, 6]) (mc_max_token_len example_config)
        (mc_min_num_micro_batch example_config) (mc_all_reduce example_config) (mc_same_micro_num_in_dp example_config)
        (mc_num_batches_divided_by example_config) = Inr 2"
  "td_get example_batch ''input_ids'' = Inr (Tensor 6 [[1, 2, 3, 4, 5, 6], [7, 8, 9, 10, 11, 12], [13, 14, 15, 16, 17, 18]])"
  by (simp_all add: example_batch_def example_config_def td_wf_def seq_lens_def td_get_def workload_fits_def int_workload_def
      count_micro_batches_def ceildiv_def)

theorem rearrange_micro_batches_splits_witness:
  "\<exists>mbs idx. rearrange_micro_batches example_batch example_config = Inr (mbs, idx) \<and> int (length idx) = 2 \<and>
     mset (concat idx) = {#0, 1, 2#}"
  using rearrange_micro_batches_splits [OF example_facts(1-7)] by (auto simp: micro_split_def eval_nat_numeral)

theorem rearrange_restore_roundtrip_witness:
  "\<exists>mbs idx outs. rearrange_micro_batches example_batch example_config = Inr (mbs, idx) \<and>
     restore_dynamic_batch (concat (map (map hd) outs)) idx = Inr [1, 7, 13 :: int]"
  using rearrange_restore_roundtrip [OF example_facts(1-7) _ example_facts(8), of hd] by auto

theorem count_micro_batches_bounds_witness:
  "count_micro_batches 8 30 10 (Some 2) (Some (max 3)) True (Some 4) = Inr 4 \<and> (4::int) dvd 4 \<and> (30::int) \<le> 4 * 10"
proof -
  have e: "count_micro_batches 8 30 10 (Some 2) (Some (max 3)) True (Some 4) = Inr 4"
    by (simp add: count_micro_batches_def ceildiv_def roundup_divisible_def)
  have c: "ceildiv 30 10 = Inr 3" by (simp add: ceildiv_def)
  show ?thesis using count_micro_batches_bounds [OF e] e c by auto
qed

theorem group_balanced_keeps_uids_witness:
  "get_group_balanced_partitions [5, 3, 8, 1] [Some ''a'', Some ''a'', Some ''b'', Some ''b''] 2 = Inr [[2, 3], [0, 1]] \<and>
   (\<exists>parts. get_group_balanced_partitions [5, 3, 8, 1] [Some ''a'', Some ''a'', Some ''b'', Some ''b''] 2 = Inr parts \<and>
     mset (concat parts) = {#0, 1, 2, 3#})"
proof
  show "get_group_balanced_partitions [5, 3, 8, 1] [Some ''a'', Some ''a'', Some ''b'', Some ''b''] 2 = Inr [[2, 3], [0, 1]]"
    by code_simp
  have "length (build_uid_groups [5, 3, 8, 1] [Some ''a'', Some ''a'', Some ''b'', Some ''b'']) = 2" by code_simp
  then show "\<exists>parts. get_group_balanced_partitions [5, 3, 8, 1] [Some ''a'', Some ''a'', Some ''b'', Some ''b''] 2 = Inr parts \<and>
     mset (concat parts) = {#0, 1, 2, 3#}"
    using group_balanced_keeps_uids [of "[5, 3, 8, 1]" "[Some ''a'', Some ''a'', Some ''b'', Some ''b'']" 2]
    by (auto simp: workload_fits_def int_workload_def eval_nat_numeral)
qed

theorem balance_batch_permutes_witness:
  "\<exists>order stats. balance_batch [[1, 1], [1, 0], [1, 1], [1, 0]] 2 False (None :: string option list option) True 2 = Inr (order, stats) \<and>
     mset order = {#0, 1, 2, 3#} \<and> us_mean stats = 3"
  using balance_batch_permutes [of "[[1, 1], [1, 0], [1, 1], [1, 0]]" 2 True 2 None]
  by (simp add: workload_fits_def int_workload_def) (auto simp: eval_nat_numeral)

text \<open>
  \<open>max_token_len\<close> bounds the average micro-batch, not every micro-batch: three rows of six
  tokens with a limit of ten are split into two micro-batches, and one of them holds two rows,
  twelve tokens. The documentation of the parameter promises the bound for each micro-batch.
\<close>
lemma micro_batch_may_exceed_max_token_len:
  "seq_lens example_batch = Inr (6, [6, 6, 6]) \<and> mc_max_token_len example_config = 10 \<and>
   micro_batch_indices example_batch example_config = Inr [[0, 1], [2]] \<and> (\<Sum>i\<leftarrow>[0, 1]. [6, 6, 6::int] ! i) = 12"
  by code_simp

end
