(* ===== verification/Signals.thy ===== *)
theory Signals
  imports Prelude
begin

text \<open>
  The transport of verification cycles from the rollout to the trainer
  (\<open>verl/trainer/mtp/signals.py\<close>): \<open>_prefix_inputs\<close> rebuilds the committed prefix of a
  trajectory from its prompt, its accepted blocks and its re-prefilled positions;
  \<open>_rollout_targets\<close> aligns verifier depths with response tokens; \<open>pack_signals\<close> turns the
  records of a batch into one ragged column per field and \<open>unpack_signals\<close> reads them back.

  A record is a Python dictionary, so each key is an \<open>option\<close>. Floating-point values have an
  abstract type \<open>'v\<close>; the rounding to \<open>bfloat16\<close> is a parameter \<open>bf16\<close>. A matrix is the list of its rows.
  The other dtype conversions are the identity, and torch's error for records whose hidden states differ in width is not modelled.
\<close>

section \<open>Records\<close>

record 'v signal =
  sg_position :: "int list option"
  sg_accept_len :: "int list option"
  sg_hidden :: "'v list list option"
  sg_draft_tokens :: "int list list option"
  sg_topk_val :: "'v list list list option"
  sg_topk_idx :: "int list list list option"
  sg_prompt_hidden :: "'v list list option"
  sg_prompt_ids :: "int list option"
  sg_accepted_hidden :: "'v list list list option"
  sg_accepted_tokens :: "int list list option"
  sg_prefill_hidden :: "'v list list list option"
  sg_prefill_tokens :: "int list list option"
  sg_prefill_position :: "int list list option"

text \<open>\<open>signal[key]\<close>, and \<open>signal.get(key) or []\<close>.\<close>

definition key_get :: "string \<Rightarrow> 'a option \<Rightarrow> 'a result" where
  "key_get key v = (case v of None \<Rightarrow> Inl (KeyError key) | Some x \<Rightarrow> Inr x)"

definition or_empty :: "'a list option \<Rightarrow> 'a list" where
  "or_empty v = (case v of None \<Rightarrow> [] | Some xs \<Rightarrow> xs)"

text \<open>A tensor of shape (n, w).\<close>

definition is_matrix :: "nat \<Rightarrow> nat \<Rightarrow> 'a list list \<Rightarrow> bool" where
  "is_matrix n w rows \<longleftrightarrow> length rows = n \<and> (\<forall>r\<in>set rows. length r = w)"

section \<open>\<open>_prefill_pairs\<close>\<close>

type_synonym 'v pairs = "(int \<times> 'v list \<times> int) list"

definition add_pair :: "'v pairs \<Rightarrow> int \<times> 'v list \<times> int \<Rightarrow> 'v pairs result" where
  "add_pair pairs p =
     (if fst p \<in> fst ` set pairs then Inl (ValueError ''Duplicate re-prefill position'') else Inr (pairs @ [p]))"

definition prefill_block :: "nat \<Rightarrow> 'v pairs \<Rightarrow> 'v list list \<times> int list \<times> int list \<Rightarrow> 'v pairs result" where
  "prefill_block hidden_size pairs block =
     (case block of (hidden, tokens, positions) \<Rightarrow>
        if \<not> is_matrix (length tokens) hidden_size hidden \<or> length tokens \<noteq> length positions \<or> (\<exists>p\<in>set positions. p < 0)
        then Inl (ValueError ''Re-prefill hidden states, tokens and positions are misaligned'')
        else rfold add_pair pairs (zip positions (zip hidden tokens)))"

definition prefill_pairs :: "'v signal \<Rightarrow> nat \<Rightarrow> 'v pairs result" where
  "prefill_pairs signal hidden_size =
     (case (sg_prefill_hidden signal, sg_prefill_tokens signal, sg_prefill_position signal) of
        (None, None, None) \<Rightarrow> Inr []
      | (Some hs, Some ts, Some ps) \<Rightarrow>
          if length hs \<noteq> length ts \<or> length ts \<noteq> length ps
          then Inl (ValueError ''Re-prefill history fields are incomplete'')
          else rfold (prefill_block hidden_size) [] (zip hs (zip ts ps))
      | _ \<Rightarrow> Inl (ValueError ''Re-prefill history fields are incomplete''))"

section \<open>\<open>_prefix_inputs\<close>\<close>

definition row_width :: "'a list list \<Rightarrow> nat" where
  "row_width rows = (case rows of [] \<Rightarrow> 0 | r # _ \<Rightarrow> length r)"

text \<open>One round of the loop over the accepted blocks: the block, then the re-prefilled positions it lacks.\<close>

definition prefix_step ::
  "'v signal \<Rightarrow> nat \<Rightarrow> 'v pairs \<Rightarrow> int list \<Rightarrow> 'v list list \<times> int list \<Rightarrow> nat \<Rightarrow> ('v list list \<times> int list) result" where
  "prefix_step signal hidden_size pairs positions rows i =
     rbind (py_get (or_empty (sg_accepted_hidden signal)) i) (\<lambda>hidden.
     rbind (py_get (or_empty (sg_accepted_tokens signal)) i) (\<lambda>tokens.
     let len = positions ! Suc i - positions ! i in
     rbind (key_get ''accept_len'' (sg_accept_len signal)) (\<lambda>lens.
     rbind (py_get lens i) (\<lambda>accepted_length.
     if \<not> (1 \<le> accepted_length \<and> accepted_length \<le> len) \<or>
        \<not> is_matrix (nat accepted_length) hidden_size hidden \<or> length tokens \<noteq> nat accepted_length
     then Inl (ValueError ''Accepted block does not cover its committed positions'')
     else if accepted_length < len
     then let missing = [positions ! i + accepted_length + 1..positions ! Suc i] in
       if \<exists>p\<in>set missing. map_of pairs p = None
       then Inl (ValueError ''Re-prefill history is incomplete before cycle'')
       else Inr (fst rows @ hidden @ map (\<lambda>p. fst (the (map_of pairs p))) missing,
                 snd rows @ tokens @ map (\<lambda>p. snd (the (map_of pairs p))) missing)
     else Inr (fst rows @ hidden, snd rows @ tokens)))))"

text \<open>The check of one cycle's seed against the rebuilt prefix.\<close>

definition seed_check :: "'v signal \<Rightarrow> 'v list list \<times> int list \<Rightarrow> nat \<times> int \<Rightarrow> unit result" where
  "seed_check signal prefix cycle =
     (case cycle of (i, position) \<Rightarrow>
        rbind (key_get ''hidden'' (sg_hidden signal)) (\<lambda>hs. rbind (py_get hs i) (\<lambda>seed_hidden.
        rbind (key_get ''draft_tokens'' (sg_draft_tokens signal)) (\<lambda>ds. rbind (py_get ds i) (\<lambda>draft.
        rbind (py_get draft 0) (\<lambda>seed_token.
        rbind (py_get (fst prefix) (nat position)) (\<lambda>h. rbind (py_get (snd prefix) (nat position)) (\<lambda>t.
        if h \<noteq> seed_hidden \<or> t \<noteq> seed_token
        then Inl (ValueError ''Committed prefix does not match cycle'') else Inr ()))))))))"

definition prefix_inputs :: "'v signal \<Rightarrow> ('v list list \<times> int list) result" where
  "prefix_inputs signal =
     (case (sg_prompt_hidden signal, sg_prompt_ids signal) of
        (Some prompt_hidden, Some prompt_ids) \<Rightarrow>
          rbind (key_get ''position'' (sg_position signal)) (\<lambda>positions.
          let n = length positions; hidden_size = row_width prompt_hidden;
              accepted_hidden = or_empty (sg_accepted_hidden signal);
              accepted_tokens = or_empty (sg_accepted_tokens signal) in
          if \<not> is_matrix (length prompt_ids) hidden_size prompt_hidden \<or> prompt_ids = []
          then Inl (ValueError ''Prompt hidden states and token IDs must cover the same positions'')
          else if positions = [] \<or> positions ! 0 \<noteq> int (length prompt_ids) - 1 \<or> \<not> sorted_wrt (<) positions
          then Inl (ValueError ''Cycle positions must start at the final prompt position and increase'')
          else if length accepted_hidden \<noteq> length accepted_tokens \<or>
                  \<not> (n - 1 \<le> length accepted_hidden \<and> length accepted_hidden \<le> n)
          then Inl (ValueError ''Committed history must contain one accepted block between each pair of cycles'')
          else rbind (prefill_pairs signal hidden_size) (\<lambda>pairs.
            rbind (rfold (prefix_step signal hidden_size pairs positions) (prompt_hidden, prompt_ids) [0..<n - 1]) (\<lambda>prefix.
            rbind (rmap (seed_check signal prefix) (enumerate 0 positions)) (\<lambda>_. Inr prefix))))
      | _ \<Rightarrow> Inl (ValueError ''GrowMTP requires complete prompt inputs; disable radix caching''))"

section \<open>\<open>_rollout_targets\<close>\<close>

text \<open>The cell of \<open>target_tokens\<close> and \<open>target_mask\<close> for one cycle and one depth.\<close>

definition target_cell ::
  "int list \<Rightarrow> bool list \<Rightarrow> nat \<Rightarrow> int \<Rightarrow> int \<Rightarrow> int list option \<Rightarrow> nat \<Rightarrow> (int \<times> bool) result" where
  "target_cell response_ids response_mask prompt_len position valid_depth emitted offset =
     (let response_index = position + int offset + 2 - int prompt_len in
      if \<not> int offset < valid_depth \<or> response_index < 0 \<or> response_index \<ge> int (length response_ids) then Inr (0, False)
      else if \<not> response_mask ! nat response_index then Inr (0, False)
      else case emitted of
          None \<Rightarrow> Inr (response_ids ! nat response_index, True)
        | Some toks \<Rightarrow>
            if offset \<ge> length toks \<or> toks ! offset \<noteq> response_ids ! nat response_index
            then Inl (ValueError ''Rollout response tokens disagree with verification history'')
            else Inr (response_ids ! nat response_index, True))"

definition rollout_targets :: "'v signal \<Rightarrow> int list \<Rightarrow> bool list \<Rightarrow> (int list list \<times> bool list list) result" where
  "rollout_targets signal response_ids response_mask =
     rbind (key_get ''position'' (sg_position signal)) (\<lambda>positions.
     rbind (key_get ''accept_len'' (sg_accept_len signal)) (\<lambda>accept_len.
     rbind (key_get ''prompt_ids'' (sg_prompt_ids signal)) (\<lambda>prompt_ids.
     rbind (key_get ''topk_idx'' (sg_topk_idx signal)) (\<lambda>topk_idx.
     rbind (py_get topk_idx 0) (\<lambda>first.
     let depth = length first; accepted_tokens = or_empty (sg_accepted_tokens signal) in
     if length response_ids \<noteq> length response_mask
     then Inl (ValueError ''Response tokens and mask must have matching shapes'')
     else rbind (rmap (\<lambda>(cycle, position).
            rbind (py_get accept_len cycle) (\<lambda>al.
            rmap (target_cell response_ids response_mask (length prompt_ids) position (min al (int depth))
                    (if cycle < length accepted_tokens then Some (accepted_tokens ! cycle) else None))
              [0..<depth])) (enumerate 0 positions))
          (\<lambda>cells. Inr (map (map fst) cells, map (map snd) cells)))))))"

section \<open>\<open>logprob_inputs\<close>\<close>

text \<open>The two dictionaries of a batch; \<open>None\<close> where it has no tensors.\<close>

definition mtp_key :: "string \<Rightarrow> bool" where
  "mtp_key key \<longleftrightarrow> take 4 key = ''mtp_''"

definition logprob_inputs ::
  "(string \<times> 'a) list option \<times> (string \<times> 'b) list \<Rightarrow> (string \<times> 'a) list option \<times> (string \<times> 'b) list" where
  "logprob_inputs batch =
     (let tensor_keys = map_option (map fst) (fst batch);
          keep_tensor_keys = map_option (filter (\<lambda>key. \<not> mtp_key key)) tensor_keys;
          keep_non_tensor_keys = filter (\<lambda>key. \<not> mtp_key key) (map fst (snd batch))
      in if keep_tensor_keys = tensor_keys \<and> length keep_non_tensor_keys = length (snd batch) then batch
         else (map_option (filter (\<lambda>(key, _). key \<in> set (or_empty keep_tensor_keys))) (fst batch),
               filter (\<lambda>(key, _). key \<in> set keep_non_tensor_keys) (snd batch)))"

section \<open>\<open>pack_signals\<close> and \<open>unpack_signals\<close>\<close>

text \<open>One row of every \<open>mtp_\<close> column, and the columns of a packed batch.\<close>

record 'v mtp_row =
  row_hidden :: "'v list list"
  row_draft_tokens :: "int list list"
  row_topk_val :: "'v list list list"
  row_topk_idx :: "int list list list"
  row_position :: "int list"
  row_accept_len :: "int list"
  row_prefix_hidden :: "'v list list"
  row_prefix_ids :: "int list"
  row_targets :: "(int list list \<times> bool list list) option"

record 'v packed =
  pk_rows :: "'v mtp_row list option"
  pk_num_cycles :: "int list"

text \<open>What the target tokens need of the rollout batch.\<close>

record rollout_batch =
  rb_prompts :: "int list list"
  rb_prompt_mask :: "bool list list"
  rb_responses :: "int list list"
  rb_response_mask :: "bool list list"

definition has_cycles :: "'v signal option \<Rightarrow> bool" where
  "has_cycles rec \<longleftrightarrow> (case rec of None \<Rightarrow> False | Some s \<Rightarrow> or_empty (sg_position s) \<noteq> [])"

text \<open>\<open>torch.stack\<close> of a field: present, one entry per cycle, entries of one shape.\<close>

definition stack_field :: "string \<Rightarrow> ('a \<Rightarrow> 's) \<Rightarrow> nat \<Rightarrow> 'a list option \<Rightarrow> 'a list result" where
  "stack_field key shape n field =
     (case field of
        None \<Rightarrow> Inl (ValueError (''Missing or misaligned verification field: '' @ key))
      | Some xs \<Rightarrow>
          if length xs \<noteq> n then Inl (ValueError (''Missing or misaligned verification field: '' @ key))
          else if \<exists>x\<in>set xs. shape x \<noteq> shape (hd xs) then Inl (RuntimeError ''stack expects each tensor to be equal size'')
          else Inr xs)"

text \<open>The fields of a record with cycles, in the order of \<open>FIELDS\<close>.\<close>

definition signal_row :: "('v \<Rightarrow> 'v) \<Rightarrow> 'v signal \<Rightarrow> 'v list list \<times> int list \<Rightarrow> (int list list \<times> bool list list) option \<Rightarrow> 'v mtp_row result" where
  "signal_row bf16 source prefix targets =
     (let n = length (or_empty (sg_position source)) in
      rbind (stack_field ''hidden'' length n (sg_hidden source)) (\<lambda>hidden.
      rbind (stack_field ''draft_tokens'' length n (sg_draft_tokens source)) (\<lambda>draft_tokens.
      rbind (stack_field ''topk_val'' (map length) n (sg_topk_val source)) (\<lambda>topk_val.
      rbind (stack_field ''topk_idx'' (map length) n (sg_topk_idx source)) (\<lambda>topk_idx.
      rbind (stack_field ''position'' (\<lambda>_. ()) n (sg_position source)) (\<lambda>position.
      rbind (stack_field ''accept_len'' (\<lambda>_. ()) n (sg_accept_len source)) (\<lambda>accept_len.
      Inr \<lparr>row_hidden = map (map bf16) hidden, row_draft_tokens = draft_tokens,
           row_topk_val = map (map (map bf16)) topk_val, row_topk_idx = topk_idx,
           row_position = position, row_accept_len = accept_len,
           row_prefix_hidden = map (map bf16) (fst prefix), row_prefix_ids = snd prefix,
           row_targets = targets\<rparr>)))))))"

text \<open>\<open>torch.zeros_like(value[:1])\<close> of every field: the filler row of a record without cycles.\<close>

definition zero_row :: "'v::zero mtp_row \<Rightarrow> (int list list \<times> bool list list) option \<Rightarrow> 'v mtp_row" where
  "zero_row row target_prototype =
     \<lparr>row_hidden = map (map (\<lambda>_. 0)) (take 1 (row_hidden row)),
      row_draft_tokens = map (map (\<lambda>_. 0)) (take 1 (row_draft_tokens row)),
      row_topk_val = map (map (map (\<lambda>_. 0))) (take 1 (row_topk_val row)),
      row_topk_idx = map (map (map (\<lambda>_. 0))) (take 1 (row_topk_idx row)),
      row_position = map (\<lambda>_. 0) (take 1 (row_position row)),
      row_accept_len = map (\<lambda>_. 0) (take 1 (row_accept_len row)),
      row_prefix_hidden = map (map (\<lambda>_. 0)) (take 1 (row_prefix_hidden row)),
      row_prefix_ids = map (\<lambda>_. 0) (take 1 (row_prefix_ids row)),
      row_targets = map_option (\<lambda>(t, m). (map (map (\<lambda>_. 0)) (take 1 t), map (map (\<lambda>_. False)) (take 1 m))) target_prototype\<rparr>"

text \<open>The checks of the shifted prompt and the rollout seed for record \<open>i\<close>.\<close>

definition shifted_prompt_ok :: "rollout_batch \<Rightarrow> nat \<Rightarrow> 'v signal \<Rightarrow> unit result" where
  "shifted_prompt_ok b i signal =
     rbind (key_get ''prompt_ids'' (sg_prompt_ids signal)) (\<lambda>signal_prompt.
     let rollout_prompt = map fst (filter snd (zip (rb_prompts b ! i) (rb_prompt_mask b ! i))) in
     if length signal_prompt \<noteq> length rollout_prompt \<or> signal_prompt = []
     then Inl (ValueError ''Auxiliary CE requires the shifted prompt and rollout seed to match'')
     else rbind (py_get (rb_response_mask b ! i) 0) (\<lambda>m0.
       if \<not> m0 \<or> butlast signal_prompt \<noteq> tl rollout_prompt
       then Inl (ValueError ''Auxiliary CE requires the shifted prompt and rollout seed to match'')
       else rbind (py_get (rb_responses b ! i) 0) (\<lambda>r0.
         if last signal_prompt \<noteq> r0
         then Inl (ValueError ''Auxiliary CE requires the shifted prompt and rollout seed to match'') else Inr ())))"

text \<open>The targets of every record, \<open>None\<close> for a record without cycles (or when they are not included).\<close>

definition target_rows ::
  "rollout_batch option \<Rightarrow> 'v signal option list \<Rightarrow> (int list list \<times> bool list list) option list result" where
  "target_rows rollout records =
     (case rollout of
        None \<Rightarrow> Inr (map (\<lambda>_. None) records)
      | Some b \<Rightarrow>
          if length (rb_prompts b) \<noteq> length records \<or> length (rb_responses b) \<noteq> length records \<or>
             length (rb_response_mask b) \<noteq> length records
          then Inl (ValueError ''Rollout records and response rows are misaligned'')
          else rbind (rmap (\<lambda>(i, rec). if has_cycles rec then shifted_prompt_ok b i (the rec) else Inr ())
                  (enumerate 0 records)) (\<lambda>_.
            rmap (\<lambda>(i, rec). if has_cycles rec
                then rbind (rollout_targets (the rec) (rb_responses b ! i) (rb_response_mask b ! i)) (\<lambda>t. Inr (Some t))
                else Inr None) (enumerate 0 records)))"

definition first_some :: "'a option list \<Rightarrow> 'a option" where
  "first_some xs = (case filter (\<lambda>x. x \<noteq> None) xs of [] \<Rightarrow> None | x # _ \<Rightarrow> x)"

definition record_count :: "'v signal option \<Rightarrow> nat result" where
  "record_count rec = (case rec of None \<Rightarrow> Inr 0
     | Some s \<Rightarrow> rbind (key_get ''position'' (sg_position s)) (\<lambda>ps. Inr (length ps)))"

text \<open>One round of the loop over the records: the row of all fields and the number of cycles.\<close>

definition pack_row ::
  "('v \<Rightarrow> 'v::zero) \<Rightarrow> 'v signal \<Rightarrow> (int list list \<times> bool list list) option \<Rightarrow>
   'v signal option \<times> (int list list \<times> bool list list) option \<Rightarrow> ('v mtp_row \<times> int) result" where
  "pack_row bf16 prototype target_prototype item =
     (case item of (rec, target) \<Rightarrow>
        rbind (record_count rec) (\<lambda>n.
        if n \<noteq> 0
        then rbind (prefix_inputs (the rec)) (\<lambda>prefix.
             rbind (signal_row bf16 (the rec) prefix target) (\<lambda>row. Inr (row, int n)))
        else rbind (prefix_inputs prototype) (\<lambda>prefix.
             rbind (signal_row bf16 prototype prefix None) (\<lambda>row. Inr (zero_row row target_prototype, 0)))))"

definition pack_signals :: "('v \<Rightarrow> 'v::zero) \<Rightarrow> 'v signal option list \<Rightarrow> rollout_batch option \<Rightarrow> 'v packed result" where
  "pack_signals bf16 records rollout =
     (case filter has_cycles records of
        [] \<Rightarrow> Inr \<lparr>pk_rows = None, pk_num_cycles = map (\<lambda>_. 0) records\<rparr>
      | prototype # _ \<Rightarrow>
          rbind (rmap (\<lambda>rec. prefix_inputs (the rec)) (filter has_cycles records)) (\<lambda>prefixes.
          rbind (target_rows rollout records) (\<lambda>targets.
          rbind (rmap (pack_row bf16 (the prototype) (first_some targets)) (zip records targets)) (\<lambda>rows.
          Inr \<lparr>pk_rows = Some (map fst rows), pk_num_cycles = map snd rows\<rparr>))))"

text \<open>A record as the trainer reads it, with the index of its batch row.\<close>

definition unpack_signals :: "'v packed \<Rightarrow> (nat \<times> 'v mtp_row) list result" where
  "unpack_signals data =
     (if \<not> (\<exists>n\<in>set (pk_num_cycles data). n \<noteq> 0) then Inr []
      else rbind (key_get ''mtp_position'' (pk_rows data)) (\<lambda>rows.
        rbind (rmap (\<lambda>(i, n).
            if n \<noteq> 0
            then rbind (py_get rows i) (\<lambda>row.
              if int (length (row_position row)) \<noteq> n \<or> int (length (row_accept_len row)) \<noteq> n
              then Inl (ValueError ''Cycle count disagrees with transported records'') else Inr [(i, row)])
            else Inr []) (enumerate 0 (pk_num_cycles data))) (\<lambda>rs. Inr (concat rs))))"

section \<open>The rebuilt prefix\<close>

text \<open>The prefix after the blocks of the cycles before cycle \<open>i\<close> ends at the position of cycle \<open>i\<close>.\<close>

definition prefix_inv ::
  "'v signal \<Rightarrow> 'v list list \<Rightarrow> int list \<Rightarrow> int list \<Rightarrow> nat \<Rightarrow> 'v list list \<times> int list \<Rightarrow> bool" where
  "prefix_inv s prompt_hidden prompt_ids ps i rows \<longleftrightarrow>
     length (fst rows) = length (snd rows) \<and> int (length (snd rows)) = ps ! i + 1 \<and>
     (\<exists>h t. fst rows = prompt_hidden @ h \<and> snd rows = prompt_ids @ t) \<and>
     (\<forall>j<i. \<exists>h0 t0 h1 t1. fst rows = h0 @ or_empty (sg_accepted_hidden s) ! j @ h1 \<and> int (length h0) = ps ! j + 1 \<and>
        snd rows = t0 @ or_empty (sg_accepted_tokens s) ! j @ t1 \<and> int (length t0) = ps ! j + 1)"

lemma prefix_step_rows:
  assumes "prefix_step s w pairs ps rows i = Inr rows'"
  obtains h t where "fst rows' = fst rows @ or_empty (sg_accepted_hidden s) ! i @ h"
    "snd rows' = snd rows @ or_empty (sg_accepted_tokens s) ! i @ t"
    "length (or_empty (sg_accepted_hidden s) ! i @ h) = nat (ps ! Suc i - ps ! i)"
    "length (or_empty (sg_accepted_tokens s) ! i @ t) = nat (ps ! Suc i - ps ! i)"
proof -
  define hid tok where "hid = or_empty (sg_accepted_hidden s) ! i" and "tok = or_empty (sg_accepted_tokens s) ! i"
  obtain al where al: "1 \<le> al" "al \<le> ps ! Suc i - ps ! i" "is_matrix (nat al) w hid" "length tok = nat al"
    and res: "al < ps ! Suc i - ps ! i \<Longrightarrow> rows' =
        (fst rows @ hid @ map (\<lambda>p. fst (the (map_of pairs p))) [ps ! i + al + 1..ps ! Suc i],
         snd rows @ tok @ map (\<lambda>p. snd (the (map_of pairs p))) [ps ! i + al + 1..ps ! Suc i])"
    and res': "\<not> al < ps ! Suc i - ps ! i \<Longrightarrow> rows' = (fst rows @ hid, snd rows @ tok)"
    using assms unfolding prefix_step_def hid_def tok_def
    by (auto simp: result_simps Let_def py_get_eq_Inr split: if_splits)
  show ?thesis
  proof (cases "al < ps ! Suc i - ps ! i")
    case True
    then show ?thesis using res al that
      by (fastforce simp: is_matrix_def hid_def tok_def)
  next
    case False
    then show ?thesis using res' al that [of "[]" "[]"] by (auto simp: is_matrix_def hid_def tok_def)
  qed
qed

lemma prefix_step_inv:
  assumes inv: "prefix_inv s ph pids ps i rows" and step: "prefix_step s w pairs ps rows i = Inr rows'"
    and inc: "ps ! i \<le> ps ! Suc i"
  shows "prefix_inv s ph pids ps (Suc i) rows'"
proof -
  obtain h t where r: "fst rows' = fst rows @ or_empty (sg_accepted_hidden s) ! i @ h"
    "snd rows' = snd rows @ or_empty (sg_accepted_tokens s) ! i @ t"
    "length (or_empty (sg_accepted_hidden s) ! i @ h) = nat (ps ! Suc i - ps ! i)"
    "length (or_empty (sg_accepted_tokens s) ! i @ t) = nat (ps ! Suc i - ps ! i)"
    using prefix_step_rows [OF step] by blast
  have len: "length (fst rows') = length (snd rows')" "int (length (snd rows')) = ps ! Suc i + 1"
    using inv r inc by (auto simp: prefix_inv_def)
  have pre: "\<exists>h t. fst rows' = ph @ h \<and> snd rows' = pids @ t" using inv r(1,2) by (auto simp: prefix_inv_def)
  have "\<exists>h0 t0 h1 t1. fst rows' = h0 @ or_empty (sg_accepted_hidden s) ! j @ h1 \<and> int (length h0) = ps ! j + 1 \<and>
        snd rows' = t0 @ or_empty (sg_accepted_tokens s) ! j @ t1 \<and> int (length t0) = ps ! j + 1" if j: "j < Suc i" for j
  proof (cases "j = i")
    case True
    then show ?thesis using inv r(1,2)
      by (intro exI [of _ "fst rows"] exI [of _ "snd rows"] exI [of _ h] exI [of _ t]) (auto simp: prefix_inv_def)
  next
    case False
    then have "j < i" using j by simp
    then obtain h0 t0 h1 t1 where "fst rows = h0 @ or_empty (sg_accepted_hidden s) ! j @ h1" "int (length h0) = ps ! j + 1"
        "snd rows = t0 @ or_empty (sg_accepted_tokens s) ! j @ t1" "int (length t0) = ps ! j + 1"
      using inv unfolding prefix_inv_def by blast
    then show ?thesis using r(1,2) by (metis append.assoc)
  qed
  with len pre show ?thesis by (simp add: prefix_inv_def)
qed

lemma prefix_inputs_run:
  assumes run: "prefix_inputs s = Inr rows" and ps: "sg_position s = Some ps"
    and ph: "sg_prompt_hidden s = Some ph" and pids: "sg_prompt_ids s = Some pids"
  shows "prefix_inv s ph pids ps (length ps - 1) rows \<and> ps \<noteq> [] \<and> sorted_wrt (<) ps \<and> ps ! 0 = int (length pids) - 1 \<and>
    (\<exists>us. rmap (seed_check s rows) (enumerate 0 ps) = Inr us)"
proof -
  obtain pairs us where a: "is_matrix (length pids) (row_width ph) ph" "pids \<noteq> []" "ps \<noteq> []" "ps ! 0 = int (length pids) - 1" "sorted_wrt (<) ps"
    and fold: "rfold (prefix_step s (row_width ph) pairs ps) (ph, pids) [0..<length ps - 1] = Inr rows"
    and seeds: "rmap (seed_check s rows) (enumerate 0 ps) = Inr us"
    using run ps ph pids by (auto simp: prefix_inputs_def key_get_def Let_def result_simps split: if_splits)
  have "prefix_inv s ph pids ps (length [0..<length ps - 1]) rows"
  proof (rule rfold_Inr_invariant [OF fold, where P = "\<lambda>seen. prefix_inv s ph pids ps (length seen)"])
    show "prefix_inv s ph pids ps (length []) (ph, pids)" using a by (simp add: prefix_inv_def is_matrix_def)
    fix seen x rest r r'
    assume e: "[0..<length ps - 1] = seen @ x # rest" and inv: "prefix_inv s ph pids ps (length seen) r"
      and step: "prefix_step s (row_width ph) pairs ps r x = Inr r'"
    have "x = length seen" "Suc x < length ps" using upt_split [OF e] by auto
    moreover from this have "ps ! x < ps ! Suc x" using a(5) by (simp add: sorted_wrt_nth_less)
    ultimately show "prefix_inv s ph pids ps (length (seen @ [x])) r'"
      using prefix_step_inv [OF _ step] inv by simp
  qed
  then show ?thesis using a seeds by simp
qed

lemma seed_check_ok:
  "seed_check s rows (i, p) = Inr () \<longleftrightarrow>
   (\<exists>hs ds. sg_hidden s = Some hs \<and> sg_draft_tokens s = Some ds \<and> i < length hs \<and> i < length ds \<and> ds ! i \<noteq> [] \<and>
      nat p < length (fst rows) \<and> nat p < length (snd rows) \<and> fst rows ! nat p = hs ! i \<and> snd rows ! nat p = hd (ds ! i))"
  by (auto simp: seed_check_def result_simps key_get_def py_get_eq_Inr hd_conv_nth split: option.splits)

lemma seeds_ok:
  assumes "rmap (seed_check s rows) (enumerate 0 ps) = Inr us" "i < length ps"
  shows "seed_check s rows (i, ps ! i) = Inr ()"
  using assms unfolding rmap_eq_Inr by (auto simp: list_all2_conv_all_nth nth_enumerate_eq)

lemma rmap_unit: "(\<And>x. x \<in> set xs \<Longrightarrow> f x = Inr ()) \<Longrightarrow> \<exists>us. rmap f xs = Inr us"
  using rmap_total [of xs f "\<lambda>_. ()"] by blast


text \<open>Without re-prefill, each accepted block has exactly the tokens between two cycles.\<close>

definition plain_history :: "'v signal \<Rightarrow> 'v list list \<Rightarrow> int list \<Rightarrow> int list \<Rightarrow> int list \<Rightarrow> bool" where
  "plain_history s ph pids ps lens \<longleftrightarrow>
     sg_position s = Some ps \<and> sg_prompt_hidden s = Some ph \<and> sg_prompt_ids s = Some pids \<and> sg_accept_len s = Some lens \<and>
     sg_prefill_hidden s = None \<and> sg_prefill_tokens s = None \<and> sg_prefill_position s = None \<and>
     pids \<noteq> [] \<and> is_matrix (length pids) (row_width ph) ph \<and>
     ps \<noteq> [] \<and> ps ! 0 = int (length pids) - 1 \<and> sorted_wrt (<) ps \<and>
     length (or_empty (sg_accepted_hidden s)) = length (or_empty (sg_accepted_tokens s)) \<and>
     length ps - 1 \<le> length (or_empty (sg_accepted_hidden s)) \<and> length (or_empty (sg_accepted_hidden s)) \<le> length ps \<and>
     length ps - 1 \<le> length lens \<and>
     (\<forall>i<length ps - 1. lens ! i = ps ! Suc i - ps ! i \<and>
        is_matrix (nat (lens ! i)) (row_width ph) (or_empty (sg_accepted_hidden s) ! i) \<and>
        length (or_empty (sg_accepted_tokens s) ! i) = nat (lens ! i))"

lemma plain_prefix_fold:
  assumes h: "plain_history s ph pids ps lens" and n: "n \<le> length ps - 1"
  shows "rfold (prefix_step s (row_width ph) [] ps) (ph, pids) [0..<n] =
    Inr (ph @ concat (take n (or_empty (sg_accepted_hidden s))), pids @ concat (take n (or_empty (sg_accepted_tokens s))))"
  using n
proof (induction n)
  case (Suc n)
  have p: "sg_accept_len s = Some lens" "n < length lens" "lens ! n = ps ! Suc n - ps ! n" "ps ! n < ps ! Suc n"
      "is_matrix (nat (lens ! n)) (row_width ph) (or_empty (sg_accepted_hidden s) ! n)"
      "length (or_empty (sg_accepted_tokens s) ! n) = nat (lens ! n)"
      "n < length (or_empty (sg_accepted_hidden s))" "n < length (or_empty (sg_accepted_tokens s))"
  proof -
    have n: "n < length ps - 1" "Suc n < length ps" using Suc.prems by auto
    show "sg_accept_len s = Some lens" "n < length lens" "n < length (or_empty (sg_accepted_hidden s))"
      "n < length (or_empty (sg_accepted_tokens s))" using h n by (auto simp: plain_history_def)
    show "ps ! n < ps ! Suc n" using h n by (auto simp: plain_history_def sorted_wrt_nth_less)
    have "\<forall>i<length ps - 1. lens ! i = ps ! Suc i - ps ! i \<and>
        is_matrix (nat (lens ! i)) (row_width ph) (or_empty (sg_accepted_hidden s) ! i) \<and>
        length (or_empty (sg_accepted_tokens s) ! i) = nat (lens ! i)" using h unfolding plain_history_def by blast
    from this [rule_format, OF n(1)] show "lens ! n = ps ! Suc n - ps ! n"
      "is_matrix (nat (lens ! n)) (row_width ph) (or_empty (sg_accepted_hidden s) ! n)"
      "length (or_empty (sg_accepted_tokens s) ! n) = nat (lens ! n)" by blast+
  qed
  have "prefix_step s (row_width ph) [] ps rows n = Inr (fst rows @ or_empty (sg_accepted_hidden s) ! n, snd rows @ or_empty (sg_accepted_tokens s) ! n)" for rows
    using p by (simp add: prefix_step_def key_get_def)
  then show ?case using Suc p by (simp add: rfold_append take_Suc_conv_app_nth)
qed simp

lemma plain_prefix_inputs:
  assumes h: "plain_history s ph pids ps lens"
    and seeds: "\<And>i. i < length ps \<Longrightarrow> seed_check s (ph @ concat (take (length ps - 1) (or_empty (sg_accepted_hidden s))),
        pids @ concat (take (length ps - 1) (or_empty (sg_accepted_tokens s)))) (i, ps ! i) = Inr ()"
  shows "prefix_inputs s = Inr (ph @ concat (take (length ps - 1) (or_empty (sg_accepted_hidden s))),
    pids @ concat (take (length ps - 1) (or_empty (sg_accepted_tokens s))))"
proof -
  let ?rows = "(ph @ concat (take (length ps - 1) (or_empty (sg_accepted_hidden s))),
    pids @ concat (take (length ps - 1) (or_empty (sg_accepted_tokens s))))"
  have "\<exists>us. rmap (seed_check s ?rows) (enumerate 0 ps) = Inr us"
    by (rule rmap_unit) (use seeds in \<open>auto simp: in_set_enumerate_eq\<close>)
  moreover have "prefill_pairs s (row_width ph) = Inr []" using h by (simp add: prefill_pairs_def plain_history_def)
  ultimately show ?thesis
    using plain_prefix_fold [OF h order.refl] h by (auto simp: prefix_inputs_def key_get_def Let_def plain_history_def)
qed

section \<open>Packing and unpacking\<close>

text \<open>What the trainer reads back for record \<open>i\<close>.\<close>

definition transported :: "('v \<Rightarrow> 'v) \<Rightarrow> 'v signal \<Rightarrow> 'v mtp_row \<Rightarrow> bool" where
  "transported bf16 s row \<longleftrightarrow>
     sg_position s = Some (row_position row) \<and> sg_accept_len s = Some (row_accept_len row) \<and>
     sg_draft_tokens s = Some (row_draft_tokens row) \<and> sg_topk_idx s = Some (row_topk_idx row) \<and>
     map_option (map (map bf16)) (sg_hidden s) = Some (row_hidden row) \<and>
     map_option (map (map (map bf16))) (sg_topk_val s) = Some (row_topk_val row) \<and>
     (\<exists>ph. prefix_inputs s = Inr (ph, row_prefix_ids row) \<and> row_prefix_hidden row = map (map bf16) ph) \<and>
     length (row_accept_len row) = length (row_position row)"

lemma stack_field_Inr: "stack_field key shape n f = Inr xs \<Longrightarrow> f = Some xs \<and> length xs = n"
  by (auto simp: stack_field_def split: option.splits if_splits)

lemma signal_row_transported:
  assumes "prefix_inputs s = Inr prefix" "signal_row bf16 s prefix target = Inr row"
  shows "transported bf16 s row \<and> row_targets row = target"
  using assms unfolding signal_row_def Let_def
  by (cases prefix) (auto simp: result_simps transported_def or_empty_def dest!: stack_field_Inr split: option.splits)

lemma target_rows_length: "target_rows rollout records = Inr ts \<Longrightarrow> length ts = length records"
  by (auto simp: target_rows_def result_simps dest!: rmap_length split: option.splits if_splits)

lemma pack_row_cycles:
  assumes "pack_row bf16 proto tp (rec, target) = Inr (row, n)"
  shows "has_cycles rec \<Longrightarrow> transported bf16 (the rec) row \<and> row_targets row = target \<and> n = int (length (row_position row)) \<and> n \<noteq> 0"
    and "\<not> has_cycles rec \<Longrightarrow> n = 0"
proof -
  show "\<not> has_cycles rec \<Longrightarrow> n = 0"
    using assms by (auto simp: pack_row_def record_count_def has_cycles_def or_empty_def key_get_def result_simps
        split: option.splits if_splits)
  assume c: "has_cycles rec"
  then obtain s ps where s: "rec = Some s" "sg_position s = Some ps" "ps \<noteq> []"
    by (auto simp: has_cycles_def or_empty_def split: option.splits)
  then obtain prefix where "prefix_inputs s = Inr prefix" "signal_row bf16 s prefix target = Inr row" "n = int (length ps)"
    using assms by (auto simp: pack_row_def record_count_def key_get_def result_simps)
  with signal_row_transported [OF this(1,2)] s
  show "transported bf16 (the rec) row \<and> row_targets row = target \<and> n = int (length (row_position row)) \<and> n \<noteq> 0"
    by (auto simp: transported_def)
qed

lemma pack_signals_rows:
  assumes pack: "pack_signals bf16 records rollout = Inr b" and some: "\<exists>rec\<in>set records. has_cycles rec"
  obtains ts rows proto where "target_rows rollout records = Inr ts"
    "pk_rows b = Some (map fst rows)" "pk_num_cycles b = map snd rows"
    "list_all2 (\<lambda>x r. pack_row bf16 proto (first_some ts) x = Inr r) (zip records ts) rows"
proof -
  obtain proto ps where f: "filter has_cycles records = proto # ps"
    using some by (metis filter_empty_conv neq_Nil_conv)
  show ?thesis using pack that unfolding pack_signals_def f by (auto simp: result_simps rmap_eq_Inr)
qed

lemma unpack_rows:
  assumes "\<exists>n\<in>set (map snd rows). n \<noteq> 0"
    and "\<And>r. r \<in> set rows \<Longrightarrow> snd r \<noteq> 0 \<Longrightarrow> int (length (row_position (fst r))) = snd r \<and> int (length (row_accept_len (fst r))) = snd r"
  shows "unpack_signals \<lparr>pk_rows = Some (map fst rows), pk_num_cycles = map snd rows\<rparr> =
    Inr (map (\<lambda>i. (i, fst (rows ! i))) (filter (\<lambda>i. snd (rows ! i) \<noteq> 0) [0..<length rows]))"
proof -
  let ?f = "\<lambda>(i, n). if n \<noteq> 0
            then rbind (py_get (map fst rows) i) (\<lambda>row.
              if int (length (row_position row)) \<noteq> n \<or> int (length (row_accept_len row)) \<noteq> n
              then Inl (ValueError ''Cycle count disagrees with transported records'') else Inr [(i, row)])
            else Inr []"
  let ?g = "\<lambda>(i, n). if n \<noteq> 0 then [(i, fst (rows ! i))] else []"
  have "rmap ?f (enumerate 0 (map snd rows)) = Inr (map ?g (enumerate 0 (map snd rows)))"
  proof (rule rmap_total)
    fix x assume "x \<in> set (enumerate 0 (map snd rows))"
    moreover obtain i n where "x = (i, n)" by (cases x) blast
    ultimately have "i < length rows" "x = (i, snd (rows ! i))" by (auto simp: in_set_enumerate_eq)
    then show "?f x = Inr (?g x)" using assms(2) [OF nth_mem, of i] by auto
  qed
  moreover have "concat (map ?g (enumerate 0 (map snd rows))) = map (\<lambda>i. (i, fst (rows ! i))) (filter (\<lambda>i. snd (rows ! i) \<noteq> 0) [0..<length rows])"
  proof -
    have e: "enumerate 0 (map snd rows) = map (\<lambda>i. (i, snd (rows ! i))) [0..<length rows]"
      by (rule nth_equalityI) (simp_all add: nth_enumerate_eq)
    have "concat (map ?g (map (\<lambda>i. (i, snd (rows ! i))) is)) = map (\<lambda>i. (i, fst (rows ! i))) (filter (\<lambda>i. snd (rows ! i) \<noteq> 0) is)" for "is"
      by (induction "is") auto
    then show ?thesis unfolding e .
  qed
  ultimately show ?thesis using assms(1) by (simp add: unpack_signals_def key_get_def)
qed

lemma nth_zip_rows:
  assumes "list_all2 (\<lambda>x r. pack_row bf16 proto tp x = Inr r) (zip records ts) rows" "length ts = length records" "i < length records"
  shows "length rows = length records" "pack_row bf16 proto tp (records ! i, ts ! i) = Inr (rows ! i)"
  using assms by (auto simp: list_all2_conv_all_nth)


section \<open>Targets of the auxiliary loss\<close>

definition target_index :: "int \<Rightarrow> nat \<Rightarrow> nat \<Rightarrow> int" where
  "target_index position prompt_len offset = position + int offset + 2 - int prompt_len"

definition target_valid :: "bool list \<Rightarrow> int \<Rightarrow> nat \<Rightarrow> int \<Rightarrow> nat \<Rightarrow> bool" where
  "target_valid response_mask position prompt_len valid_depth offset \<longleftrightarrow>
     int offset < valid_depth \<and> 0 \<le> target_index position prompt_len offset \<and>
     target_index position prompt_len offset < int (length response_mask) \<and>
     response_mask ! nat (target_index position prompt_len offset)"

lemma target_cell_Inr:
  assumes "target_cell ids msk plen pos vd em o' = Inr (t, m)" "length ids = length msk"
  shows "m \<longleftrightarrow> target_valid msk pos plen vd o'"
    and "t = (if m then ids ! nat (target_index pos plen o') else 0)"
    and "m \<Longrightarrow> em = Some toks \<Longrightarrow> o' < length toks \<and> toks ! o' = t"
  using assms by (auto simp: target_cell_def target_valid_def target_index_def Let_def split: if_splits option.splits)

section \<open>Properties\<close>

text \<open>
  C12. What \<open>_prefix_inputs\<close> returns covers every position up to the last cycle, with one hidden row
  per token: it starts with the prompt, at the position of every cycle it has that cycle's seed
  hidden state and first draft token, and right after the position of cycle \<open>i\<close> it has the
  \<open>i\<close>-th accepted block.
\<close>
theorem prefix_inputs_covers:
  assumes "prefix_inputs s = Inr (hid, ids)" "sg_position s = Some ps"
    and "sg_prompt_hidden s = Some ph" "sg_prompt_ids s = Some pids"
  shows "length hid = length ids \<and> int (length ids) = last ps + 1 \<and>
    take (length ph) hid = ph \<and> take (length pids) ids = pids \<and>
    (\<forall>i<length ps. hid ! nat (ps ! i) = the (sg_hidden s) ! i \<and> ids ! nat (ps ! i) = hd (the (sg_draft_tokens s) ! i)) \<and>
    (\<forall>i<length ps - 1. \<exists>t0 t1. ids = t0 @ or_empty (sg_accepted_tokens s) ! i @ t1 \<and> int (length t0) = ps ! i + 1)"
proof -
  obtain us where r: "prefix_inv s ph pids ps (length ps - 1) (hid, ids)" "ps \<noteq> []"
    "rmap (seed_check s (hid, ids)) (enumerate 0 ps) = Inr us"
    using prefix_inputs_run [OF assms] by blast
  have "length hid = length ids \<and> int (length ids) = last ps + 1 \<and> take (length ph) hid = ph \<and> take (length pids) ids = pids"
    using r(1,2) by (auto simp: prefix_inv_def last_conv_nth)
  moreover have "hid ! nat (ps ! i) = the (sg_hidden s) ! i \<and> ids ! nat (ps ! i) = hd (the (sg_draft_tokens s) ! i)" if "i < length ps" for i
    using seeds_ok [OF r(3) that] by (auto simp: seed_check_ok)
  moreover have "\<exists>t0 t1. ids = t0 @ or_empty (sg_accepted_tokens s) ! i @ t1 \<and> int (length t0) = ps ! i + 1" if "i < length ps - 1" for i
    using r(1) that unfolding prefix_inv_def by fastforce
  ultimately show ?thesis by blast
qed

text \<open>
  A trajectory without re-prefill whose accepted blocks fill the gaps between its cycles, and
  whose seeds match, is accepted: \<open>_prefix_inputs\<close> returns the prompt followed by the
  accepted blocks.
\<close>
theorem prefix_inputs_plain:
  assumes "plain_history s ph pids ps lens"
    and "\<forall>i<length ps. seed_check s (ph @ concat (take (length ps - 1) (or_empty (sg_accepted_hidden s))),
        pids @ concat (take (length ps - 1) (or_empty (sg_accepted_tokens s)))) (i, ps ! i) = Inr ()"
  shows "prefix_inputs s = Inr (ph @ concat (take (length ps - 1) (or_empty (sg_accepted_hidden s))),
    pids @ concat (take (length ps - 1) (or_empty (sg_accepted_tokens s))))"
  by (rule plain_prefix_inputs) (use assms in auto)

text \<open>
  C13. Transport is lossless up to the rounding of floating-point fields: when \<open>pack_signals\<close>
  returns, \<open>unpack_signals\<close> of the packed batch returns exactly the records that have cycles,
  in batch order and with their batch index, every field as recorded (hidden states and
  teacher values rounded to \<open>bfloat16\<close>) and the prefix that \<open>_prefix_inputs\<close> rebuilt.
\<close>
theorem pack_unpack_roundtrip:
  assumes "pack_signals bf16 records rollout = Inr b"
  shows "\<exists>out. unpack_signals b = Inr out \<and> map fst out = filter (\<lambda>i. has_cycles (records ! i)) [0..<length records] \<and>
    (\<forall>(i, row)\<in>set out. transported bf16 (the (records ! i)) row)"
proof (cases "\<exists>rec\<in>set records. has_cycles rec")
  case False
  then have "filter has_cycles records = []" "filter (\<lambda>i. has_cycles (records ! i)) [0..<length records] = []"
    by (auto simp: filter_empty_conv)
  then show ?thesis using assms by (auto simp: pack_signals_def unpack_signals_def)
next
  case True
  obtain ts rows proto where r: "target_rows rollout records = Inr ts" "pk_rows b = Some (map fst rows)" "pk_num_cycles b = map snd rows"
    "list_all2 (\<lambda>x r. pack_row bf16 proto (first_some ts) x = Inr r) (zip records ts) rows"
    using pack_signals_rows [OF assms True] by blast
  have len: "length rows = length records" using r(1,4) target_rows_length [OF r(1)] by (auto dest: list_all2_lengthD)
  have row: "pack_row bf16 proto (first_some ts) (records ! i, ts ! i) = Inr (fst (rows ! i), snd (rows ! i))" if "i < length records" for i
    using nth_zip_rows(2) [OF r(4) target_rows_length [OF r(1)] that] by simp
  have cyc: "has_cycles (records ! i) \<longleftrightarrow> snd (rows ! i) \<noteq> 0" if "i < length records" for i
    using pack_row_cycles [OF row [OF that]] by auto
  have tr: "transported bf16 (the (records ! i)) (fst (rows ! i)) \<and> snd (rows ! i) = int (length (row_position (fst (rows ! i))))"
    if "i < length records" "snd (rows ! i) \<noteq> 0" for i
    using pack_row_cycles(1) [OF row [OF that(1)]] cyc that by blast
  have "\<exists>n\<in>set (map snd rows). n \<noteq> 0"
    using True cyc len by (metis in_set_conv_nth length_map nth_map)
  moreover have "int (length (row_position (fst x))) = snd x \<and> int (length (row_accept_len (fst x))) = snd x"
    if "x \<in> set rows" "snd x \<noteq> 0" for x
    using that tr len by (auto simp: in_set_conv_nth transported_def)
  ultimately have un: "unpack_signals \<lparr>pk_rows = Some (map fst rows), pk_num_cycles = map snd rows\<rparr> =
      Inr (map (\<lambda>i. (i, fst (rows ! i))) (filter (\<lambda>i. snd (rows ! i) \<noteq> 0) [0..<length rows]))"
    by (rule unpack_rows)
  have b: "b = \<lparr>pk_rows = Some (map fst rows), pk_num_cycles = map snd rows\<rparr>" using r(2,3) by (cases b) simp
  have f: "filter (\<lambda>i. snd (rows ! i) \<noteq> 0) [0..<length rows] = filter (\<lambda>i. has_cycles (records ! i)) [0..<length records]"
    unfolding len by (rule filter_cong) (use cyc in auto)
  show ?thesis unfolding b un f [symmetric] using tr len by (auto simp: comp_def)
qed

text \<open>
  C14. \<open>_rollout_targets\<close>: a target is supervised exactly when its depth was accepted, its index in
  the response exists and the response mask keeps it; then the target is that response token
  (and the token the verifier emitted there), otherwise the cell is zero.
\<close>
theorem rollout_targets_spec:
  assumes "rollout_targets s ids msk = Inr (toks, tmask)"
    and "sg_position s = Some ps" "sg_accept_len s = Some al" "sg_prompt_ids s = Some pids" "sg_topk_idx s = Some (first # rest)"
    and "c < length ps" "k < length first"
  shows "(tmask ! c ! k \<longleftrightarrow> target_valid msk (ps ! c) (length pids) (min (al ! c) (int (length first))) k) \<and>
    toks ! c ! k = (if tmask ! c ! k then ids ! nat (target_index (ps ! c) (length pids) k) else 0) \<and>
    (tmask ! c ! k \<and> c < length (or_empty (sg_accepted_tokens s)) \<longrightarrow> or_empty (sg_accepted_tokens s) ! c ! k = toks ! c ! k)"
proof -
  let ?em = "\<lambda>c. if c < length (or_empty (sg_accepted_tokens s)) then Some (or_empty (sg_accepted_tokens s) ! c) else None"
  let ?f = "\<lambda>(cycle, position). rbind (py_get al cycle) (\<lambda>a.
      rmap (target_cell ids msk (length pids) position (min a (int (length first))) (?em cycle)) [0..<length first])"
  obtain cells where len: "length ids = length msk" and cells: "rmap ?f (enumerate 0 ps) = Inr cells"
    and out: "toks = map (map fst) cells" "tmask = map (map snd) cells"
    using assms(1-5) by (auto simp: rollout_targets_def key_get_def Let_def result_simps split: if_splits)
  have lc: "length cells = length ps" and row: "?f (c, ps ! c) = Inr (cells ! c)"
    using cells assms(6) unfolding rmap_eq_Inr by (auto simp: list_all2_conv_all_nth nth_enumerate_eq)
  then have row: "rmap (target_cell ids msk (length pids) (ps ! c) (min (al ! c) (int (length first))) (?em c)) [0..<length first] = Inr (cells ! c)"
    by (auto simp: result_simps py_get_eq_Inr)
  then have cell: "length (cells ! c) = length first"
    "target_cell ids msk (length pids) (ps ! c) (min (al ! c) (int (length first))) (?em c) k = Inr (fst (cells ! c ! k), snd (cells ! c ! k))"
    using assms(7) unfolding rmap_eq_Inr by (auto simp: list_all2_conv_all_nth)
  show ?thesis
    using target_cell_Inr [OF cell(2) len] out lc cell(1) assms(6,7) by (auto split: if_splits)
qed

text \<open>
  \<open>logprob_inputs\<close> keeps exactly the entries whose key does not start with \<open>mtp_\<close>, in order, and
  returns the batch itself when there are none to drop.
\<close>
theorem logprob_inputs_drops_mtp:
  "logprob_inputs batch = (map_option (filter (\<lambda>(key, _). \<not> mtp_key key)) (fst batch), filter (\<lambda>(key, _). \<not> mtp_key key) (snd batch))"
proof (cases batch)
  case (Pair tb nb)
  have keep: "filter (\<lambda>(key, _). key \<in> set (filter (\<lambda>key. \<not> mtp_key key) (map fst xs))) xs = filter (\<lambda>(key, _). \<not> mtp_key key) xs"
    for xs :: "(string \<times> 'x) list" by (rule filter_cong) force+
  have all: "filter (\<lambda>(key, _). \<not> mtp_key key) xs = xs" if "\<forall>key\<in>set (map fst xs). \<not> mtp_key key" for xs :: "(string \<times> 'x) list"
    using that by (induction xs) auto
  have "length (filter (\<lambda>key. \<not> mtp_key key) (map fst nb)) = length nb \<longleftrightarrow> (\<forall>key\<in>set (map fst nb). \<not> mtp_key key)"
    using length_filter_all [of "\<lambda>key. \<not> mtp_key key" "map fst nb"] by simp
  then show ?thesis
    using keep [of nb] all [of nb] keep [of "the tb"] all [of "the tb"] Pair
    by (cases tb) (simp_all add: logprob_inputs_def Let_def or_empty_def filter_id_conv)
qed

section \<open>The properties at concrete inputs\<close>

text \<open>A prompt of three positions and two cycles; the second one starts two tokens later.\<close>

definition example_signal :: "int signal" where
  "example_signal =
     \<lparr>sg_position = Some [2, 4], sg_accept_len = Some [2, 1], sg_hidden = Some [[3], [5]],
      sg_draft_tokens = Some [[12, 13, 14], [14, 15, 16]], sg_topk_val = Some [[[1], [1]], [[1], [1]]],
      sg_topk_idx = Some [[[13], [14]], [[15], [16]]], sg_prompt_hidden = Some [[1], [2], [3]],
      sg_prompt_ids = Some [10, 11, 12], sg_accepted_hidden = Some [[[4], [5]]], sg_accepted_tokens = Some [[13, 14]],
      sg_prefill_hidden = None, sg_prefill_tokens = None, sg_prefill_position = None\<rparr>"

definition example_rollout :: rollout_batch where
  "example_rollout = \<lparr>rb_prompts = [[9, 10, 11], [0, 0, 0]], rb_prompt_mask = [[True, True, True], [False, False, False]],
     rb_responses = [[12, 13, 14, 15], [0, 0, 0, 0]], rb_response_mask = [[True, True, True, True], [False, False, False, False]]\<rparr>"

lemma example_prefix: "prefix_inputs example_signal = Inr ([[1], [2], [3], [4], [5]], [10, 11, 12, 13, 14])"
  by code_simp

lemma example_signal_sel:
  "sg_position example_signal = Some [2, 4]" "sg_prompt_hidden example_signal = Some [[1], [2], [3]]"
  "sg_prompt_ids example_signal = Some [10, 11, 12]" "sg_accept_len example_signal = Some [2, 1]"
  "sg_topk_idx example_signal = Some ([[13], [14]] # [[[15], [16]]])"
  by (simp_all add: example_signal_def)

theorem prefix_inputs_covers_witness:
  "prefix_inputs example_signal = Inr ([[1], [2], [3], [4], [5]], [10, 11, 12, 13, 14]) \<and>
   [[1], [2], [3], [4], [5 :: int]] ! nat 2 = the (sg_hidden example_signal) ! 0 \<and>
   [[1], [2], [3], [4], [5 :: int]] ! nat 4 = the (sg_hidden example_signal) ! 1"
proof -
  have "\<forall>i<2. [[1], [2], [3], [4], [5 :: int]] ! nat ([2, 4] ! i) = the (sg_hidden example_signal) ! i"
    using prefix_inputs_covers [OF example_prefix example_signal_sel(1-3)] by (simp add: numeral_2_eq_2)
  from this [rule_format, of 0] this [rule_format, of 1] show ?thesis by (simp add: example_prefix)
qed

theorem prefix_inputs_plain_witness:
  "prefix_inputs example_signal = Inr ([[1], [2], [3]] @ concat [[[4], [5]]], [10, 11, 12] @ concat [[13, 14]])"
proof -
  have h: "plain_history example_signal [[1], [2], [3]] [10, 11, 12] [2, 4] [2, 1]"
    by (simp add: plain_history_def example_signal_def or_empty_def is_matrix_def row_width_def)
  have "\<forall>i<length [2, 4 :: int]. seed_check example_signal ([[1], [2], [3]] @ concat (take (length [2, 4 :: int] - 1) (or_empty (sg_accepted_hidden example_signal))),
        [10, 11, 12] @ concat (take (length [2, 4 :: int] - 1) (or_empty (sg_accepted_tokens example_signal)))) (i, [2, 4] ! i) = Inr ()"
    by (simp add: example_signal_def or_empty_def All_less_Suc seed_check_def key_get_def py_get_def)
  from prefix_inputs_plain [OF h this] show ?thesis by (simp add: example_signal_def or_empty_def)
qed

theorem pack_unpack_roundtrip_witness:
  "\<exists>b out. pack_signals id [Some example_signal, None] (Some example_rollout) = Inr b \<and>
     unpack_signals b = Inr out \<and> map fst out = [0] \<and> (\<forall>(i, row)\<in>set out. transported id example_signal row)"
proof -
  have "\<not> isl (pack_signals id [Some example_signal, None] (Some example_rollout))" by code_simp
  then obtain b where b: "pack_signals id [Some example_signal, None] (Some example_rollout) = Inr b"
    by (cases "pack_signals id [Some example_signal, None] (Some example_rollout)") auto
  have c: "has_cycles (Some example_signal)" "\<not> has_cycles (None :: int signal option)"
    by (simp_all add: has_cycles_def example_signal_def or_empty_def)
  obtain out where "unpack_signals b = Inr out" "map fst out = [0]" "\<forall>(i, row)\<in>set out. transported id (the ([Some example_signal, None] ! i)) row"
    using pack_unpack_roundtrip [OF b] c by auto
  then show ?thesis using b by fastforce
qed

theorem rollout_targets_spec_witness:
  "rollout_targets example_signal [12, 13, 14, 15] [True, True, True, True] = Inr ([[13, 14], [15, 0]], [[True, True], [True, False]]) \<and>
   target_valid [True, True, True, True] 2 (length [10, 11, 12 :: int]) 2 0"
proof
  show r: "rollout_targets example_signal [12, 13, 14, 15] [True, True, True, True] = Inr ([[13, 14], [15, 0]], [[True, True], [True, False]])"
    by code_simp
  show "target_valid [True, True, True, True] 2 (length [10, 11, 12 :: int]) 2 0"
    using rollout_targets_spec [OF r example_signal_sel(1,4,3,5), of 0 0] by simp
qed

end
