(* ===== verification/Loss.thy ===== *)
theory Loss
  imports Prelude
begin

text \<open>
  The Depth-Coupled Acceptance loss with Verify-Gated Masking (\<open>verl/trainer/mtp/loss.py\<close>).

  Tensors of floats are lists of reals, so the theorems are about exact arithmetic. A tensor of
  shape (n, k, \<dots>) is the list of its \<open>n\<close> rows, each a list of \<open>k\<close> entries; \<open>-torch.inf\<close> is \<open>None\<close>
  in a masked row. \<open>checkpoint\<close> only trades storage for recomputation and is left out.
\<close>

section \<open>Operations on one position\<close>

definition softmax :: "real list \<Rightarrow> real list" where
  "softmax logits = map (\<lambda>x. exp x / (\<Sum>y\<leftarrow>logits. exp y)) logits"

definition logsumexp :: "real list \<Rightarrow> real" where
  "logsumexp xs = ln (\<Sum>x\<leftarrow>xs. exp x)"

definition overlap :: "real list \<Rightarrow> real list \<Rightarrow> real" where
  "overlap p q = clamp 0 1 ((\<Sum>(x, y)\<leftarrow>zip p q. min x y) + min (max 0 (1 - sum_list p)) (max 0 (1 - sum_list q)))"

definition acceptance_overlap :: "real list \<Rightarrow> real list \<Rightarrow> nat list \<Rightarrow> real result" where
  "acceptance_overlap logits teacher_logprobs teacher_ids =
     rbind (rmap (py_get (softmax logits)) teacher_ids) (\<lambda>q. Inr (overlap (map exp teacher_logprobs) q))"

definition acceptance_overlap_and_ce :: "real list \<Rightarrow> real list \<Rightarrow> nat list \<Rightarrow> nat \<Rightarrow> (real \<times> real) result" where
  "acceptance_overlap_and_ce logits teacher_logprobs teacher_ids target_id =
     (let log_z = logsumexp logits in
      rbind (rmap (py_get logits) teacher_ids) (\<lambda>topk.
      rbind (py_get logits target_id) (\<lambda>target.
      Inr (overlap (map exp teacher_logprobs) (map (\<lambda>x. exp (x - log_z)) topk), - (target - log_z)))))"

section \<open>The loss of a cycle\<close>

definition validate_lengths :: "int list \<Rightarrow> nat \<Rightarrow> nat \<Rightarrow> unit result" where
  "validate_lengths valid_lengths n k =
     (if length valid_lengths \<noteq> n then Inl (ValueError ''One valid length is required per cycle'')
      else if \<exists>l\<in>set valid_lengths. l < 1 \<or> l > int k + 1
      then Inl (ValueError ''Verify lengths must be in [1, K+1]; missing lengths are invalid'')
      else Inr ())"

fun cumsum_from :: "real \<Rightarrow> real list \<Rightarrow> real list" where
  "cumsum_from acc [] = []"
| "cumsum_from acc (x # xs) = (acc + x) # cumsum_from (acc + x) xs"

definition log_chain :: "real list \<Rightarrow> real list" where
  "log_chain alpha = cumsum_from 0 (map (\<lambda>a. ln (max a (1 / 10 ^ 6))) alpha)"

definition masked_logsumexp :: "real option list \<Rightarrow> real" where
  "masked_logsumexp xs = ln (\<Sum>x\<leftarrow>xs. case x of None \<Rightarrow> 0 | Some y \<Rightarrow> exp y)"

definition dca_row :: "real list \<Rightarrow> int \<Rightarrow> real" where
  "dca_row alpha valid_length =
     - masked_logsumexp (map (\<lambda>(j, c). if int j < valid_length then Some c else None) (enumerate 0 (log_chain alpha)))"

definition dca_from_alpha :: "nat \<Rightarrow> real list list \<Rightarrow> int list \<Rightarrow> real list result" where
  "dca_from_alpha k alpha valid_lengths =
     rbind (validate_lengths valid_lengths (length alpha) k) (\<lambda>_. Inr (map (\<lambda>(a, l). dca_row a l) (zip alpha valid_lengths)))"

definition dca_loss ::
  "nat \<Rightarrow> real list list list \<Rightarrow> real list list list \<Rightarrow> nat list list list \<Rightarrow> int list \<Rightarrow> (real list \<times> real list list) result" where
  "dca_loss k logits teacher_logprobs teacher_ids valid_lengths =
     rbind (rmap (\<lambda>(ls, ps, is). rmap (\<lambda>(l, p, i). acceptance_overlap l p i) (zip ls (zip ps is)))
              (zip logits (zip teacher_logprobs teacher_ids))) (\<lambda>alpha.
     rbind (dca_from_alpha k alpha valid_lengths) (\<lambda>losses. Inr (losses, alpha)))"

section \<open>\<open>chunked_dca\<close>\<close>

definition linear :: "real list \<Rightarrow> real list list \<Rightarrow> real list" where
  "linear h weight = map (\<lambda>w. \<Sum>(x, y)\<leftarrow>zip h w. x * y) weight"

text \<open>
  A draft position: its hidden state, its teacher's log-probabilities and token ids, and its rollout
  target where the auxiliary cross entropy is computed.
\<close>

type_synonym cell = "real list \<times> real list \<times> nat list \<times> nat option"

definition project :: "real list list \<Rightarrow> cell \<Rightarrow> (real \<times> real) result" where
  "project weight c =
     (case c of (h, p, ids, labels) \<Rightarrow>
        let logits = linear h weight in
        case labels of
          None \<Rightarrow> rbind (acceptance_overlap logits p ids) (\<lambda>a. Inr (a, 0))
        | Some t \<Rightarrow> acceptance_overlap_and_ce logits p ids t)"

text \<open>Mean cross entropy of a cycle over its supervised, reachable positions.\<close>

definition ce_row :: "real list \<Rightarrow> bool list \<Rightarrow> real" where
  "ce_row ce_values ce_mask =
     (\<Sum>(v, m)\<leftarrow>zip ce_values ce_mask. if m then v else 0) / max 1 (real (length (filter id ce_mask)))"

definition reach_row :: "nat \<Rightarrow> int \<Rightarrow> bool list" where
  "reach_row k l = map (\<lambda>j. int j < l) [0..<k]"

definition index_copy :: "'a list \<Rightarrow> nat list \<Rightarrow> 'a list \<Rightarrow> 'a list" where
  "index_copy xs indices vs = foldl (\<lambda>xs (i, v). xs[i := v]) xs (zip indices vs)"

text \<open>The loop over the lengths \<open>1..k\<close>: the loss of every cycle with that many reachable positions.\<close>

definition losses_by_length :: "nat \<Rightarrow> real list list \<Rightarrow> nat list \<Rightarrow> real list" where
  "losses_by_length k alpha lengths =
     foldl (\<lambda>losses len. map (\<lambda>(i, old). if lengths ! i = len then - logsumexp (log_chain (take len (alpha ! i))) else old)
         (enumerate 0 losses))
       (replicate (length alpha) 0) [1..<k + 1]"

definition sparse_dca ::
  "real list list \<Rightarrow> nat \<Rightarrow> nat \<Rightarrow> cell list list \<Rightarrow> int list \<Rightarrow> (real list \<times> real list list \<times> real list list) result" where
  "sparse_dca weight chunk_size k rows valid_lengths =
     (let n = length rows;
          reachable = map (reach_row k) valid_lengths;
          indices = filter (\<lambda>x. concat reachable ! x) [0..<n * k];
          active = map ((!) (concat rows)) indices
      in rbind (rmap (rmap (project weight)) (chunks (chunk_size * k) active)) (\<lambda>parts.
         let values = concat parts;
             alpha = chunks k (index_copy (replicate (n * k) (- 1)) indices (map fst values));
             ce_values = chunks k (index_copy (replicate (n * k) 0) indices (map snd values));
             lengths = map (\<lambda>r. length (filter id r)) reachable
         in Inr (losses_by_length k alpha lengths, alpha, ce_values)))"

definition dense_dca ::
  "real list list \<Rightarrow> nat \<Rightarrow> nat \<Rightarrow> cell list list \<Rightarrow> int list \<Rightarrow> (real list \<times> real list list \<times> real list list) result" where
  "dense_dca weight chunk_size k rows valid_lengths =
     rbind (rmap (\<lambda>chunk.
         rbind (rmap (\<lambda>(row, l). rmap (project weight) row) chunk) (\<lambda>values.
         rbind (dca_from_alpha k (map (map fst) values) (map snd chunk)) (\<lambda>losses.
         Inr (zip losses values)))) (chunks chunk_size (zip rows valid_lengths))) (\<lambda>parts.
     if parts = [] then Inl (RuntimeError ''torch.cat(): expected a non-empty list of Tensors'')
     else let out = concat parts
          in Inr (map fst out, map (map fst \<circ> snd) out, map (map snd \<circ> snd) out))"

text \<open>
  The rows of cells. \<open>targets\<close> is \<open>None\<close> without the auxiliary loss, else target ids and mask; the
  third component of the result is the cross entropy of each cycle.
\<close>

definition make_rows ::
  "nat \<Rightarrow> real list list list \<Rightarrow> real list list list \<Rightarrow> nat list list list \<Rightarrow> (nat list list \<times> bool list list) option \<Rightarrow> cell list list" where
  "make_rows k hidden teacher_logprobs teacher_ids targets =
     map (\<lambda>i. map (\<lambda>j. (hidden ! i ! j, teacher_logprobs ! i ! j, teacher_ids ! i ! j,
                        map_option (\<lambda>(ids, _). ids ! i ! j) targets)) [0..<k]) [0..<length hidden]"

definition chunked_dca ::
  "nat \<Rightarrow> real list list list \<Rightarrow> real list list \<Rightarrow> real list list list \<Rightarrow> nat list list list \<Rightarrow> int list \<Rightarrow> nat \<Rightarrow>
   (nat list list \<times> bool list list) option \<Rightarrow> (real list \<times> real list list \<times> real list option) result" where
  "chunked_dca k hidden weight teacher_logprobs teacher_ids valid_lengths chunk_size targets =
     (let n = length hidden in
      if chunk_size = 0 then Inl (ValueError ''chunk_size must be positive'')
      else rbind (validate_lengths valid_lengths n k) (\<lambda>_.
        if (case targets of None \<Rightarrow> False
            | Some (ids, msk) \<Rightarrow> length ids \<noteq> n \<or> length msk \<noteq> n \<or> (\<exists>r\<in>set ids. length r \<noteq> k) \<or> (\<exists>r\<in>set msk. length r \<noteq> k))
        then Inl (ValueError ''Rollout target IDs and mask must have one value per draft position'')
        else let rows = make_rows k hidden teacher_logprobs teacher_ids targets;
                 reachable = map (reach_row k) valid_lengths
             in rbind (if length (filter id (concat reachable)) \<noteq> n * k
                       then sparse_dca weight chunk_size k rows valid_lengths
                       else dense_dca weight chunk_size k rows valid_lengths) (\<lambda>(losses, alpha, ce_values).
                Inr (losses, alpha,
                  map_option (\<lambda>(_, msk). map (\<lambda>(vs, m, r). ce_row vs (map (\<lambda>(a, b). a \<and> b) (zip m r)))
                    (zip ce_values (zip msk reachable))) targets))))"

section \<open>Rectangular lists\<close>

lemma chunks_concat_rect:
  assumes "0 < k" "\<And>r. r \<in> set rs \<Longrightarrow> length r = k"
  shows "chunks k (concat rs) = rs"
  using assms(2)
proof (induction rs)
  case (Cons r rs)
  then have "r \<noteq> []" using assms(1) by auto
  with Cons show ?case by (subst chunks.simps) auto
qed simp

lemma index_copy_nth:
  assumes "distinct is" "\<And>i. i \<in> set is \<Longrightarrow> i < length xs" "x < length xs"
  shows "length (index_copy xs is (map f is)) = length xs \<and> index_copy xs is (map f is) ! x = (if x \<in> set is then f x else xs ! x)"
  using assms unfolding index_copy_def
proof (induction "is" arbitrary: xs)
  case (Cons i "is")
  from Cons.IH [of "xs[i := f i]"] Cons.prems show ?case by (auto simp: nth_list_update)
qed simp

text \<open>Scattering the values of the selected cells and reshaping gives the rows back.\<close>

lemma scatter_rows:
  assumes k: "0 < k" and rows: "\<And>r. r \<in> set rows \<Longrightarrow> length r = k" and sel: "\<And>r. r \<in> set sel \<Longrightarrow> length r = k" "length sel = length rows"
  defines "idx \<equiv> filter (\<lambda>x. concat sel ! x) [0..<length rows * k]"
  shows "chunks k (index_copy (replicate (length rows * k) d) idx (map (\<lambda>x. f (concat rows ! x)) idx)) =
    map (\<lambda>i. map (\<lambda>j. if sel ! i ! j then f (rows ! i ! j) else d) [0..<k]) [0..<length rows]" (is "chunks k ?flat = ?rows")
proof -
  let ?n = "length rows"
  have fl: "?flat = concat ?rows"
  proof (rule nth_equalityI)
    have "length (concat ?rows) = length ?rows * k" by (rule length_concat_rect) auto
    then have len: "length (concat ?rows) = ?n * k" by simp
    have flat: "length ?flat = ?n * k \<and> ?flat ! x = (if x \<in> set idx then f (concat rows ! x) else d)" if "x < ?n * k" for x
      using index_copy_nth [of idx "replicate (?n * k) d" x "\<lambda>x. f (concat rows ! x)"] that by (simp add: idx_def)
    show leneq: "length ?flat = length (concat ?rows)"
    proof (cases "?n * k = 0")
      case True
      then show ?thesis using len by (simp add: idx_def index_copy_def)
    qed (use flat [of 0] len in simp)
    fix x assume "x < length ?flat"
    then have x: "x < ?n * k" using leneq len by simp
    have "x div k < ?n" "x mod k < k" using x k by (simp_all add: div_less_iff_less_mult)
    moreover have "concat ?rows ! x = ?rows ! (x div k) ! (x mod k)" by (rule nth_concat_rect) (use x in auto)
    moreover have "concat rows ! x = rows ! (x div k) ! (x mod k)" by (rule nth_concat_rect [OF rows x])
    moreover have "concat sel ! x = sel ! (x div k) ! (x mod k)" using nth_concat_rect [of sel k x] sel x by simp
    ultimately show "?flat ! x = concat ?rows ! x" using flat [OF x] x by (simp add: idx_def)
  qed
  show ?thesis unfolding fl by (rule chunks_concat_rect [OF k]) auto
qed

section \<open>The chain of acceptance probabilities\<close>

lemma length_cumsum_from [simp]: "length (cumsum_from acc xs) = length xs"
  by (induction xs arbitrary: acc) auto

lemma take_cumsum_from: "take m (cumsum_from acc xs) = cumsum_from acc (take m xs)"
  by (induction xs arbitrary: acc m) (auto simp: take_Cons split: nat.split)

lemma length_log_chain [simp]: "length (log_chain a) = length a"
  by (simp add: log_chain_def)

lemma take_log_chain: "take m (log_chain a) = log_chain (take m a)"
  by (simp add: log_chain_def take_cumsum_from take_map)

lemma masked_sum:
  "(\<Sum>x\<leftarrow>map (\<lambda>(j, c). if int j < l then Some c else None) (enumerate n cs). case x of None \<Rightarrow> 0 | Some y \<Rightarrow> exp y) =
   (\<Sum>c\<leftarrow>take (nat (l - int n)) cs. exp (c :: real))"
proof (induction cs arbitrary: n)
  case (Cons c cs)
  show ?case
  proof (cases "int n < l")
    case True
    then have "nat (l - int n) = Suc (nat (l - int (Suc n)))" by simp
    with True Cons [of "Suc n"] show ?thesis by simp
  next
    case False
    then have "nat (l - int (Suc n)) = 0" "nat (l - int n) = 0" by simp_all
    with False Cons [of "Suc n"] show ?thesis by simp
  qed
qed simp

lemma dca_row_take: "dca_row a l = - logsumexp (log_chain (take (nat l) a))"
  using masked_sum [of l 0 "log_chain a"]
  by (simp add: dca_row_def masked_logsumexp_def logsumexp_def take_log_chain)

fun cumprod_from :: "real \<Rightarrow> real list \<Rightarrow> real list" where
  "cumprod_from acc [] = []"
| "cumprod_from acc (x # xs) = (acc * x) # cumprod_from (acc * x) xs"

definition cumprod :: "real list \<Rightarrow> real list" where
  "cumprod xs = cumprod_from 1 xs"

lemma exp_cumsum_ln: "(\<forall>x\<in>set xs. 0 < x) \<Longrightarrow> map exp (cumsum_from acc (map ln xs)) = cumprod_from (exp acc) xs"
  by (induction xs arbitrary: acc) (auto simp: exp_add)

lemma cumprod_from_pos: "0 < acc \<Longrightarrow> (\<forall>x\<in>set xs. 0 < x) \<Longrightarrow> y \<in> set (cumprod_from acc xs) \<Longrightarrow> 0 < y"
proof (induction xs arbitrary: acc)
  case (Cons x xs)
  then show ?case using Cons.IH [of "acc * x"] by auto
qed simp

lemma exp_log_chain: "map exp (log_chain a) = cumprod (map (max (1 / 10 ^ 6)) a)"
proof -
  have "map exp (cumsum_from 0 (map ln (map (max (1 / 10 ^ 6)) a))) = cumprod_from (exp 0) (map (max (1 / 10 ^ 6)) a)"
    by (rule exp_cumsum_ln) (auto simp: max_def)
  then show ?thesis by (simp add: log_chain_def cumprod_def comp_def max.commute)
qed

lemma length_cumprod [simp]: "length (cumprod xs) = length xs"
proof -
  have "length (cumprod_from acc xs) = length xs" for acc by (induction xs arbitrary: acc) auto
  then show ?thesis by (simp add: cumprod_def)
qed

lemma sum_list_pos: "xs \<noteq> [] \<Longrightarrow> (\<forall>x\<in>set xs. 0 < x) \<Longrightarrow> 0 < sum_list (xs :: real list)"
proof (induction xs)
  case (Cons x xs)
  then show ?case by (cases xs) auto
qed simp

lemma exp_dca_row:
  assumes "a \<noteq> []" "1 \<le> l"
  shows "exp (- dca_row a l) = sum_list (cumprod (map (max (1 / 10 ^ 6)) (take (nat l) a)))"
proof -
  let ?c = "cumprod (map (max (1 / 10 ^ 6)) (take (nat l) a))"
  have "logsumexp (log_chain (take (nat l) a)) = ln (sum_list ?c)"
    by (simp add: logsumexp_def exp_log_chain)
  moreover have "0 < sum_list ?c"
  proof (rule sum_list_pos)
    have "length ?c \<noteq> 0" using assms by (simp only: length_cumprod length_map length_take) auto
    then show "?c \<noteq> []" by (rule contrapos_nn) (erule arg_cong [where f = length, THEN trans], rule list.size)
    have "\<forall>x\<in>set (map (max (1 / 10 ^ 6)) (take (nat l) a)). 0 < x" by (simp add: less_max_iff_disj)
    then show "\<forall>x\<in>set ?c. 0 < x" unfolding cumprod_def using cumprod_from_pos [OF zero_less_one] by blast
  qed
  ultimately show ?thesis by (simp add: dca_row_take)
qed

lemma cumprod_from_le: "0 \<le> acc \<Longrightarrow> (\<forall>x\<in>set xs. 0 \<le> x \<and> x \<le> 1) \<Longrightarrow> y \<in> set (cumprod_from acc xs) \<Longrightarrow> y \<le> acc"
proof (induction xs arbitrary: acc)
  case (Cons x xs)
  have "acc * x \<le> acc * 1" using Cons.prems by (intro mult_left_mono) auto
  then show ?case using Cons.IH [of "acc * x"] Cons.prems by fastforce
qed simp


section \<open>Both paths compute the loss of every cycle\<close>

lemma reach_row_count: "length (filter id (reach_row k l)) = min k (nat l)"
proof -
  have "filter id (reach_row k l) = map (\<lambda>j. int j < l) (filter (\<lambda>j. int j < l) [0..<k])"
    by (simp add: reach_row_def filter_map comp_def)
  moreover have "filter (\<lambda>j. int j < l) [0..<k] = [0..<min k (nat l)]"
  proof (induction k)
    case (Suc k)
    show ?case
    proof (cases "int k < l")
      case True
      then have "min k (nat l) = k" "min (Suc k) (nat l) = Suc k" by auto
      with Suc True show ?thesis by simp
    next
      case False
      then have "min k (nat l) = nat l" "min (Suc k) (nat l) = nat l" by auto
      with Suc False show ?thesis by simp
    qed
  qed simp
  ultimately show ?thesis by simp
qed

lemma losses_by_length_eq:
  assumes "length lengths = length alpha" "\<forall>l\<in>set lengths. 1 \<le> l \<and> l \<le> k"
  shows "losses_by_length k alpha lengths =
    map (\<lambda>i. - logsumexp (log_chain (take (lengths ! i) (alpha ! i)))) [0..<length alpha]"
proof -
  let ?v = "\<lambda>i. - logsumexp (log_chain (take (lengths ! i) (alpha ! i)))"
  have "foldl (\<lambda>losses len. map (\<lambda>(i, old). if lengths ! i = len then - logsumexp (log_chain (take len (alpha ! i))) else old)
         (enumerate 0 losses)) (replicate (length alpha) 0) [1..<m + 1] =
      map (\<lambda>i. if 1 \<le> lengths ! i \<and> lengths ! i \<le> m then ?v i else 0) [0..<length alpha]" for m
  proof (induction m)
    case 0
    have "map (\<lambda>i. if 1 \<le> lengths ! i \<and> lengths ! i \<le> 0 then ?v i else 0) [0..<length alpha] = map (\<lambda>i. 0) [0..<length alpha]"
      by (rule map_cong) auto
    then show ?case by (simp add: map_replicate_const)
  next
    case (Suc m)
    have "[1..<Suc m + 1] = [1..<m + 1] @ [Suc m]" by simp
    then show ?case using Suc by (auto simp: enumerate_map_upt comp_def intro!: nth_equalityI simp: nth_enumerate_eq le_Suc_eq)
  qed
  then show ?thesis using assms unfolding losses_by_length_def by (auto intro!: map_cong)
qed

lemma project_chunks:
  assumes "0 < m" "\<And>c. c \<in> set cs \<Longrightarrow> project weight c = Inr (P c)"
  shows "rmap (rmap (project weight)) (chunks m cs) = Inr (map (map P) (chunks m cs))"
proof (rule rmap_total)
  fix b assume "b \<in> set (chunks m cs)"
  then have "set b \<subseteq> set (concat (chunks m cs))" by auto
  then have "set b \<subseteq> set cs" using assms(1) by (simp add: concat_chunks)
  then show "rmap (project weight) b = Inr (map P b)" by (intro rmap_total) (use assms(2) in auto)
qed

lemma sparse_dca_eq:
  assumes k: "0 < k" "0 < cs" and rows: "\<And>r. r \<in> set rows \<Longrightarrow> length r = k" and lens: "length lens = length rows" "\<forall>l\<in>set lens. 1 \<le> l"
    and P: "\<And>r c. r \<in> set rows \<Longrightarrow> c \<in> set r \<Longrightarrow> project weight c = Inr (P c)"
  shows "sparse_dca weight cs k rows lens = Inr
    (map (\<lambda>i. dca_row (map (fst \<circ> P) (rows ! i)) (lens ! i)) [0..<length rows],
     map (\<lambda>i. map (\<lambda>j. if int j < lens ! i then fst (P (rows ! i ! j)) else - 1) [0..<k]) [0..<length rows],
     map (\<lambda>i. map (\<lambda>j. if int j < lens ! i then snd (P (rows ! i ! j)) else 0) [0..<k]) [0..<length rows])"
proof -
  let ?n = "length rows" and ?sel = "map (reach_row k) lens"
  let ?idx = "filter (\<lambda>x. concat ?sel ! x) [0..<?n * k]"
  let ?active = "map ((!) (concat rows)) ?idx"
  have sel: "\<And>r. r \<in> set ?sel \<Longrightarrow> length r = k" "length ?sel = length rows" using lens by (auto simp: reach_row_def)
  have "c \<in> set (concat rows)" if c: "c \<in> set ?active" for c
  proof -
    obtain x where "x < ?n * k" "c = concat rows ! x" using c by auto
    moreover have "length (concat rows) = ?n * k" by (rule length_concat_rect) (rule rows)
    ultimately show ?thesis by (metis nth_mem)
  qed
  then have PA: "project weight c = Inr (P c)" if "c \<in> set ?active" for c
    using that P unfolding set_concat by blast
  have parts: "rmap (rmap (project weight)) (chunks (cs * k) ?active) = Inr (map (map P) (chunks (cs * k) ?active))"
    by (rule project_chunks) (use k PA in auto)
  have vals: "concat (map (map P) (chunks (cs * k) ?active)) = map P ?active"
    using k concat_chunks [of "cs * k" ?active] by (simp flip: map_concat)
  have sc: "chunks k (index_copy (replicate (?n * k) d) ?idx (map f (map P ?active))) =
      map (\<lambda>i. map (\<lambda>j. if int j < lens ! i then f (P (rows ! i ! j)) else d) [0..<k]) [0..<?n]" for f :: "real \<times> real \<Rightarrow> real" and d
  proof -
    have "chunks k (index_copy (replicate (?n * k) d) ?idx (map f (map P ?active))) =
        map (\<lambda>i. map (\<lambda>j. if ?sel ! i ! j then f (P (rows ! i ! j)) else d) [0..<k]) [0..<?n]"
      using scatter_rows [OF k(1) rows sel, of d "\<lambda>c. f (P c)"] by (simp add: comp_def)
    also have "\<dots> = map (\<lambda>i. map (\<lambda>j. if int j < lens ! i then f (P (rows ! i ! j)) else d) [0..<k]) [0..<?n]"
      using lens by (auto simp: reach_row_def)
    finally show ?thesis .
  qed
  let ?alpha = "map (\<lambda>i. map (\<lambda>j. if int j < lens ! i then fst (P (rows ! i ! j)) else - 1) [0..<k]) [0..<?n]"
  have "losses_by_length k ?alpha (map (\<lambda>r. length (filter id r)) ?sel) =
      map (\<lambda>i. - logsumexp (log_chain (take (map (\<lambda>r. length (filter id r)) ?sel ! i) (?alpha ! i)))) [0..<length ?alpha]"
    by (rule losses_by_length_eq) (use lens k in \<open>auto simp: reach_row_count\<close>)
  also have "\<dots> = map (\<lambda>i. dca_row (map (fst \<circ> P) (rows ! i)) (lens ! i)) [0..<?n]"
  proof (rule nth_equalityI)
    fix i assume "i < length (map (\<lambda>i. - logsumexp (log_chain (take (map (\<lambda>r. length (filter id r)) ?sel ! i) (?alpha ! i)))) [0..<length ?alpha])"
    then have i: "i < ?n" by simp
    then have li: "length (rows ! i) = k" using rows by simp
    have "take (min k (nat (lens ! i))) (?alpha ! i) = take (nat (lens ! i)) (map (fst \<circ> P) (rows ! i))"
      by (rule nth_equalityI) (use i li in auto)
    then show "map (\<lambda>i. - logsumexp (log_chain (take (map (\<lambda>r. length (filter id r)) ?sel ! i) (?alpha ! i)))) [0..<length ?alpha] ! i =
        map (\<lambda>i. dca_row (map (fst \<circ> P) (rows ! i)) (lens ! i)) [0..<?n] ! i"
      using i lens(1) by (simp add: reach_row_count dca_row_take)
  qed simp
  finally show ?thesis
    unfolding sparse_dca_def Let_def parts rbind_Inr vals sc by (simp only:)
qed


lemma dense_dca_eq:
  assumes k: "0 < cs" and rows: "rows \<noteq> []" and lens: "length lens = length rows" "\<forall>l\<in>set lens. 1 \<le> l \<and> l \<le> int k + 1"
    and P: "\<And>r c. r \<in> set rows \<Longrightarrow> c \<in> set r \<Longrightarrow> project weight c = Inr (P c)"
  shows "dense_dca weight cs k rows lens = Inr
    (map (\<lambda>(r, l). dca_row (map (fst \<circ> P) r) l) (zip rows lens), map (map (fst \<circ> P)) rows, map (map (snd \<circ> P)) rows)"
proof -
  let ?z = "zip rows lens"
  let ?out = "\<lambda>(r, l). (dca_row (map (fst \<circ> P) r) l, map P r)"
  let ?f = "\<lambda>chunk. rbind (rmap (\<lambda>(row, l). rmap (project weight) row) chunk) (\<lambda>values.
         rbind (dca_from_alpha k (map (map fst) values) (map snd chunk)) (\<lambda>losses. Inr (zip losses values)))"
  have chunk: "?f c = Inr (map ?out c)" if c: "c \<in> set (chunks cs ?z)" for c
  proof -
    have sub: "set c \<subseteq> set ?z" using c concat_chunks [OF k, of ?z] by (metis set_concat UN_upper)
    have "rmap (\<lambda>(row, l). rmap (project weight) row) c = Inr (map (\<lambda>(row, l). map P row) c)"
    proof (rule rmap_total)
      fix x assume "x \<in> set c"
      moreover obtain r l where xe: "x = (r, l)" by (cases x) blast
      ultimately have x: "x = (r, l)" "r \<in> set rows" using sub by (auto dest: set_zip_leftD)
      then show "(\<lambda>(row, l). rmap (project weight) row) x = Inr ((\<lambda>(row, l). map P row) x)"
        using rmap_total [of r "project weight" P] P by auto
    qed
    moreover have "\<forall>l\<in>set (map snd c). 1 \<le> l \<and> l \<le> int k + 1"
      using sub lens(2) by (auto dest!: subsetD set_zip_rightD)
    then have "validate_lengths (map snd c) (length (map (map fst) (map (\<lambda>(row, l). map P row) c))) k = Inr ()"
      by (fastforce simp: validate_lengths_def)
    ultimately have "?f c = Inr (zip (map (\<lambda>(a, l). dca_row a l) (zip (map (map fst) (map (\<lambda>(row, l). map P row) c)) (map snd c)))
        (map (\<lambda>(row, l). map P row) c))"
      by (simp add: dca_from_alpha_def)
    also have "zip (map (\<lambda>(a, l). dca_row a l) (zip (map (map fst) (map (\<lambda>(row, l). map P row) c)) (map snd c)))
        (map (\<lambda>(row, l). map P row) c) = map ?out c"
      by (induction c) (auto simp: comp_def)
    finally show ?thesis .
  qed
  have run: "rmap ?f (chunks cs ?z) = Inr (map (map ?out) (chunks cs ?z))" by (rule rmap_total) (rule chunk)
  have ne: "map (map ?out) (chunks cs ?z) \<noteq> []"
    using rows lens(1) k by (cases rows; cases lens) (auto simp: chunks.simps)
  have cat: "concat (map (map ?out) (chunks cs ?z)) = map ?out ?z"
    by (simp add: concat_chunks [OF k] flip: map_concat)
  have "map (map fst \<circ> snd) (map ?out ?z) = map (map (fst \<circ> P)) rows" "map (map snd \<circ> snd) (map ?out ?z) = map (map (snd \<circ> P)) rows"
    using lens(1) by (auto intro!: nth_equalityI)
  then show ?thesis
    unfolding dense_dca_def run rbind_Inr Let_def cat using ne by (simp add: comp_def case_prod_unfold)
qed

lemma all_reachable:
  assumes "length (filter id (concat (map (reach_row k) lens))) = length lens * k" "i < length lens" "j < k"
  shows "int j < lens ! i"
proof -
  have "length (concat (map (reach_row k) lens)) = length (map (reach_row k) lens) * k"
    by (rule length_concat_rect) (auto simp: reach_row_def)
  then have "length (concat (map (reach_row k) lens)) = length lens * k" by simp
  then have "\<forall>b\<in>set (concat (map (reach_row k) lens)). b" using assms(1) length_filter_all [of id] by (metis id_apply)
  moreover have "(int j < lens ! i) \<in> set (concat (map (reach_row k) lens))"
    using assms(2,3) by (auto simp: reach_row_def intro!: bexI [of _ "lens ! i"])
  ultimately show ?thesis by blast
qed

lemma chunked_rows:
  assumes k: "0 < k" "0 < cs" and n: "hidden \<noteq> []" and lens: "length lens = length hidden" "\<forall>l\<in>set lens. 1 \<le> l \<and> l \<le> int k + 1"
    and tg: "\<And>ids msk. targets = Some (ids, msk) \<Longrightarrow> length ids = length hidden \<and> length msk = length hidden \<and>
        (\<forall>r\<in>set ids. length r = k) \<and> (\<forall>r\<in>set msk. length r = k)"
    and P: "\<And>i j. i < length hidden \<Longrightarrow> j < k \<Longrightarrow>
        project weight (hidden ! i ! j, lps ! i ! j, ids ! i ! j, map_option (\<lambda>(t, _). t ! i ! j) targets) = Inr (A i j, C i j)"
  shows "chunked_dca k hidden weight lps ids lens cs targets = Inr
    (map (\<lambda>i. dca_row (map (A i) [0..<k]) (lens ! i)) [0..<length hidden],
     map (\<lambda>i. map (\<lambda>j. if int j < lens ! i then A i j else - 1) [0..<k]) [0..<length hidden],
     map_option (\<lambda>(_, msk). map (\<lambda>i. ce_row (map (\<lambda>j. if int j < lens ! i then C i j else 0) [0..<k])
        (map (\<lambda>j. msk ! i ! j \<and> int j < lens ! i) [0..<k])) [0..<length hidden]) targets)"
proof -
  let ?n = "length hidden"
  let ?cell = "\<lambda>i j. (hidden ! i ! j, lps ! i ! j, ids ! i ! j, map_option (\<lambda>(t, _). t ! i ! j) targets)"
  let ?rows = "map (\<lambda>i. map (?cell i) [0..<k]) [0..<?n]"
  let ?A = "map (\<lambda>i. map (\<lambda>j. if int j < lens ! i then A i j else - 1) [0..<k]) [0..<?n]"
  let ?C = "map (\<lambda>i. map (\<lambda>j. if int j < lens ! i then C i j else 0) [0..<k]) [0..<?n]"
  let ?L = "map (\<lambda>i. dca_row (map (A i) [0..<k]) (lens ! i)) [0..<?n]"
  define PP where "PP c = (case project weight c of Inr r \<Rightarrow> r | Inl _ \<Rightarrow> (0, 0))" for c
  have PPc: "PP (?cell i j) = (A i j, C i j)" if "i < ?n" "j < k" for i j using P [OF that] by (simp add: PP_def)
  have tot: "project weight c = Inr (PP c)" if rc: "r \<in> set ?rows" "c \<in> set r" for r c
  proof -
    obtain i j where "i < ?n" "j < k" "c = ?cell i j" using rc by auto
    then show ?thesis using P [of i j] by (simp add: PP_def)
  qed
  have val: "validate_lengths lens ?n k = Inr ()" using lens by (fastforce simp: validate_lengths_def)
  have body: "(if length (filter id (concat (map (reach_row k) lens))) \<noteq> ?n * k then sparse_dca weight cs k ?rows lens
      else dense_dca weight cs k ?rows lens) = Inr (?L, ?A, ?C)"
  proof (cases "length (filter id (concat (map (reach_row k) lens))) = ?n * k")
    case False
    have "sparse_dca weight cs k ?rows lens = Inr
      (map (\<lambda>i. dca_row (map (fst \<circ> PP) (?rows ! i)) (lens ! i)) [0..<length ?rows],
       map (\<lambda>i. map (\<lambda>j. if int j < lens ! i then fst (PP (?rows ! i ! j)) else - 1) [0..<k]) [0..<length ?rows],
       map (\<lambda>i. map (\<lambda>j. if int j < lens ! i then snd (PP (?rows ! i ! j)) else 0) [0..<k]) [0..<length ?rows])"
      by (rule sparse_dca_eq [OF k _ _ _ tot]) (use lens in auto)
    also have "\<dots> = Inr (?L, ?A, ?C)" using PPc by (auto intro!: arg_cong2 [where f = dca_row])
    finally show ?thesis using False by simp
  next
    case True
    then have all: "int j < lens ! i" if "i < ?n" "j < k" for i j using all_reachable [of k lens i j] that lens(1) by simp
    have "dense_dca weight cs k ?rows lens = Inr
      (map (\<lambda>(r, l). dca_row (map (fst \<circ> PP) r) l) (zip ?rows lens), map (map (fst \<circ> PP)) ?rows, map (map (snd \<circ> PP)) ?rows)"
      by (rule dense_dca_eq [OF k(2) _ _ _ tot]) (use lens n in auto)
    also have "map (\<lambda>(r, l). dca_row (map (fst \<circ> PP) r) l) (zip ?rows lens) = ?L"
      by (rule nth_equalityI) (use lens(1) PPc in \<open>auto intro!: arg_cong2 [where f = dca_row]\<close>)
    also have "map (map (fst \<circ> PP)) ?rows = ?A" using PPc all by auto
    also have "map (map (snd \<circ> PP)) ?rows = ?C" using PPc all by auto
    finally show ?thesis using True by simp
  qed
  have ce: "map_option (\<lambda>(_, msk). map (\<lambda>(vs, m, r). ce_row vs (map (\<lambda>(a, b). a \<and> b) (zip m r))) (zip ?C (zip msk (map (reach_row k) lens)))) targets =
     map_option (\<lambda>(_, msk). map (\<lambda>i. ce_row (map (\<lambda>j. if int j < lens ! i then C i j else 0) [0..<k]) (map (\<lambda>j. msk ! i ! j \<and> int j < lens ! i) [0..<k])) [0..<?n]) targets"
  proof (cases targets)
    case (Some t)
    obtain tids msk where t: "targets = Some (tids, msk)" using Some by (cases t) auto
    have "map (\<lambda>(vs, m, r). ce_row vs (map (\<lambda>(a, b). a \<and> b) (zip m r))) (zip ?C (zip msk (map (reach_row k) lens))) =
        map (\<lambda>i. ce_row (map (\<lambda>j. if int j < lens ! i then C i j else 0) [0..<k]) (map (\<lambda>j. msk ! i ! j \<and> int j < lens ! i) [0..<k])) [0..<?n]"
      by (rule nth_equalityI) (use tg [OF t] lens(1) in \<open>auto simp: reach_row_def intro!: arg_cong2 [where f = ce_row] nth_equalityI\<close>)
    then show ?thesis using t by simp
  qed simp
  have ok: "\<not> (case targets of None \<Rightarrow> False
      | Some (ids, msk) \<Rightarrow> length ids \<noteq> ?n \<or> length msk \<noteq> ?n \<or> (\<exists>r\<in>set ids. length r \<noteq> k) \<or> (\<exists>r\<in>set msk. length r \<noteq> k))"
    using tg by (auto split: option.splits)
  show ?thesis
    unfolding chunked_dca_def Let_def val rbind_Inr make_rows_def body prod.case ce using ok k(2) by (cases targets) auto
qed


section \<open>Overlap of distributions\<close>

lemma py_get_map: "py_get (map f xs) i = rbind (py_get xs i) (\<lambda>x. Inr (f x))"
  by (simp add: py_get_def)

lemma rmap_rbind_Inr: "rmap (\<lambda>x. rbind (f x) (\<lambda>y. Inr (g y))) xs = rbind (rmap f xs) (\<lambda>ys. Inr (map g ys))"
  by (induction xs) (auto simp: rbind_def split: sum.splits)

lemma sum_exp_pos: "xs \<noteq> [] \<Longrightarrow> 0 < (\<Sum>x\<leftarrow>xs. exp (x :: real))"
  by (rule sum_list_pos) auto

lemma softmax_exp: "x \<in> set logits \<Longrightarrow> exp x / (\<Sum>y\<leftarrow>logits. exp y) = exp (x - logsumexp logits)"
proof -
  assume "x \<in> set logits"
  then have "0 < (\<Sum>y\<leftarrow>logits. exp y)" by (intro sum_exp_pos) auto
  then show ?thesis by (simp add: logsumexp_def exp_diff)
qed

lemma overlap_and_ce_eq:
  "acceptance_overlap_and_ce logits p ids t =
   rbind (acceptance_overlap logits p ids) (\<lambda>a. rbind (py_get (softmax logits) t) (\<lambda>q. Inr (a, - ln q)))"
proof -
  have g: "py_get (softmax logits) i = rbind (py_get logits i) (\<lambda>x. Inr (exp (x - logsumexp logits)))" for i
    unfolding softmax_def py_get_map by (auto simp: py_get_def softmax_exp)
  have "rmap (py_get (softmax logits)) ids = rbind (rmap (py_get logits) ids) (\<lambda>xs. Inr (map (\<lambda>x. exp (x - logsumexp logits)) xs))"
    unfolding g by (rule rmap_rbind_Inr)
  then show ?thesis
    by (cases "rmap (py_get logits) ids"; cases "py_get logits t")
      (simp_all add: acceptance_overlap_and_ce_def acceptance_overlap_def g Let_def)
qed

lemma sum_min_le: "(\<Sum>x\<leftarrow>xs. min (f x) (g x)) \<le> min (\<Sum>x\<leftarrow>xs. f x) (\<Sum>x\<leftarrow>xs. (g x :: real))"
  by (induction xs) auto

text \<open>The vocabulary splits into the teacher's ids and the rest.\<close>

lemma sum_split_ids:
  fixes v :: nat
  assumes "distinct ids" "set ids \<subseteq> {0..<v}"
  shows "(\<Sum>i<v. f i) = (\<Sum>i\<leftarrow>ids. f i) + (\<Sum>i\<in>{0..<v} - set ids. f i :: real)"
proof -
  have "(\<Sum>i<v. f i) = (\<Sum>i\<in>set ids. f i) + (\<Sum>i\<in>{0..<v} - set ids. f i)"
    using sum.subset_diff [OF assms(2), of f] by (simp add: atLeast0LessThan)
  then show ?thesis using assms(1) by (simp add: sum_list_distinct_conv_sum_set)
qed

lemma overlap_dominates:
  fixes v :: nat
  assumes d: "distinct ids" "set ids \<subseteq> {0..<v}" and p: "\<forall>i<v. 0 \<le> p i" "(\<Sum>i<v. p i) = 1" and q: "\<forall>i<v. 0 \<le> q i" "(\<Sum>i<v. q i) = 1"
  shows "(\<Sum>i<v. min (p i) (q i)) \<le> overlap (map p ids) (map q ids)" "overlap (map p ids) (map q ids) \<le> 1" "0 \<le> overlap (map p ids) (map q ids)"
proof -
  let ?R = "{0..<v} - set ids"
  have z: "(\<Sum>(x, y)\<leftarrow>zip (map p ids) (map q ids). min x y) = (\<Sum>i\<leftarrow>ids. min (p i) (q i))"
    by (induction ids) auto
  have rp: "1 - sum_list (map p ids) = (\<Sum>i\<in>?R. p i)" and rq: "1 - sum_list (map q ids) = (\<Sum>i\<in>?R. q i)"
    using sum_split_ids [OF d, of p] sum_split_ids [OF d, of q] p(2) q(2) by simp_all
  have nn: "0 \<le> (\<Sum>i\<in>?R. p i)" "0 \<le> (\<Sum>i\<in>?R. q i)" using p(1) q(1) by (auto intro!: sum_nonneg)
  have "(\<Sum>i\<in>?R. min (p i) (q i)) \<le> min (\<Sum>i\<in>?R. p i) (\<Sum>i\<in>?R. q i)"
    by (auto intro!: sum_mono)
  then have "(\<Sum>i<v. min (p i) (q i)) \<le> (\<Sum>i\<leftarrow>ids. min (p i) (q i)) + min (\<Sum>i\<in>?R. p i) (\<Sum>i\<in>?R. q i)"
    using sum_split_ids [OF d, of "\<lambda>i. min (p i) (q i)"] by simp
  moreover have "(\<Sum>i<v. min (p i) (q i)) \<le> (\<Sum>i<v. p i)" by (rule sum_mono) simp
  ultimately show "(\<Sum>i<v. min (p i) (q i)) \<le> overlap (map p ids) (map q ids)"
    unfolding overlap_def z rp rq clamp_def using nn p(2) by auto
  show "overlap (map p ids) (map q ids) \<le> 1" "0 \<le> overlap (map p ids) (map q ids)" by (auto simp: overlap_def clamp_def)
qed

section \<open>Properties\<close>

lemma chunked_dca_eq:
  assumes "dca_loss k (map (map (\<lambda>h. linear h weight)) hidden) lps ids lens = Inr (losses, alpha)"
    and "0 < k" "0 < chunk_size" "hidden \<noteq> []"
    and "\<forall>r\<in>set hidden. length r = k" "\<forall>r\<in>set lps. length r = k" "\<forall>r\<in>set ids. length r = k"
    and "length lps = length hidden" "length ids = length hidden"
  shows "chunked_dca k hidden weight lps ids lens chunk_size None = Inr (losses,
    map (\<lambda>i. map (\<lambda>j. if int j < lens ! i then alpha ! i ! j else - 1) [0..<k]) [0..<length hidden], None)"
proof -
  let ?n = "length hidden"
  let ?z = "zip (map (map (\<lambda>h. linear h weight)) hidden) (zip lps ids)"
  let ?f = "\<lambda>(ls, ps, is). rmap (\<lambda>(l, p, i). acceptance_overlap l p i) (zip ls (zip ps is))"
  have alpha: "list_all2 (\<lambda>x y. ?f x = Inr y) ?z alpha" and fa: "dca_from_alpha k alpha lens = Inr losses"
    using assms(1) by (auto simp: dca_loss_def rbind_eq_Inr rmap_eq_Inr)
  have la: "length alpha = ?n" using list_all2_lengthD [OF alpha] assms(8,9) by simp
  have len: "length (hidden ! i) = k" "length (lps ! i) = k" "length (ids ! i) = k" if "i < ?n" for i using that assms by simp_all
  have row: "list_all2 (\<lambda>(l, p, x) y. acceptance_overlap l p x = Inr y) (zip (map (\<lambda>h. linear h weight) (hidden ! i)) (zip (lps ! i) (ids ! i))) (alpha ! i)" if "i < ?n" for i
    using list_all2_nthD [OF alpha, of i] that assms(8,9) by (simp add: rmap_eq_Inr case_prod_unfold)
  have lai: "length (alpha ! i) = k" if "i < ?n" for i using list_all2_lengthD [OF row [OF that]] len [OF that] by simp
  have cell: "acceptance_overlap (linear (hidden ! i ! j) weight) (lps ! i ! j) (ids ! i ! j) = Inr (alpha ! i ! j)" if "i < ?n" "j < k" for i j
    using list_all2_nthD [OF row [OF that(1)], of j] len [OF that(1)] that(2) by simp
  have lens: "length lens = ?n" "\<forall>l\<in>set lens. 1 \<le> l \<and> l \<le> int k + 1"
    and losses: "losses = map (\<lambda>(a, l). dca_row a l) (zip alpha lens)"
    using fa la by (auto simp: dca_from_alpha_def validate_lengths_def rbind_eq_Inr split: if_splits)
  have "chunked_dca k hidden weight lps ids lens chunk_size None = Inr
    (map (\<lambda>i. dca_row (map (\<lambda>j. alpha ! i ! j) [0..<k]) (lens ! i)) [0..<?n],
     map (\<lambda>i. map (\<lambda>j. if int j < lens ! i then alpha ! i ! j else - 1) [0..<k]) [0..<?n], None)"
    using chunked_rows [OF assms(2,3,4) lens, of None weight lps ids "\<lambda>i j. alpha ! i ! j" "\<lambda>_ _. 0"] cell by (simp add: project_def)
  moreover have "map (\<lambda>i. dca_row (map (\<lambda>j. alpha ! i ! j) [0..<k]) (lens ! i)) [0..<?n] = losses"
  proof -
    have "map (\<lambda>j. alpha ! i ! j) [0..<k] = alpha ! i" if "i < ?n" for i using map_nth [of "alpha ! i"] lai [OF that] by simp
    then show ?thesis unfolding losses by (intro nth_equalityI) (use la lens(1) in auto)
  qed
  ultimately show ?thesis by simp
qed

text \<open>
  C15. \<open>chunked_dca\<close> without targets computes the same losses as \<open>dca_loss\<close> on the projected logits, for
  every positive chunk size and through both of its paths; its acceptance probabilities are
  those of \<open>dca_loss\<close> on the positions a verified length reaches and \<open>UNCOMPUTED_ALPHA\<close> elsewhere.
\<close>
theorem chunked_dca_equals_dca_loss:
  assumes "dca_loss k (map (map (\<lambda>h. linear h weight)) hidden) lps ids lens = Inr (losses, alpha)"
    and "0 < k" "0 < chunk_size" "hidden \<noteq> []"
    and "\<forall>r\<in>set hidden. length r = k" "\<forall>r\<in>set lps. length r = k" "\<forall>r\<in>set ids. length r = k"
    and "length lps = length hidden" "length ids = length hidden"
  shows "chunked_dca k hidden weight lps ids lens chunk_size None = Inr (losses,
    map (\<lambda>i. map (\<lambda>j. if int j < lens ! i then alpha ! i ! j else - 1) [0..<k]) [0..<length hidden], None)"
  by (rule chunked_dca_eq [OF assms])

text \<open>
  The combined routine: \<open>acceptance_overlap_and_ce\<close>, which uses one log-normaliser for both,
  returns the overlap of \<open>acceptance_overlap\<close> and the cross entropy \<open>- ln\<close> of the softmax
  probability of the target, and fails exactly where these do.
\<close>
theorem acceptance_overlap_and_ce_spec:
  "acceptance_overlap_and_ce logits p ids t =
   rbind (acceptance_overlap logits p ids) (\<lambda>a. rbind (py_get (softmax logits) t) (\<lambda>q. Inr (a, - ln q)))"
  by (rule overlap_and_ce_eq)

text \<open>
  C16. The loss of a cycle is minus the logarithm of the expected number of accepted drafts it
  supervises: \<open>exp (- loss)\<close> is the sum over the reachable depths of the product of the
  (clamped) acceptance probabilities up to that depth; with probabilities at most one it is at
  most the number of reachable depths, so the loss is bounded below.
\<close>
theorem dca_from_alpha_expected_length:
  assumes "dca_from_alpha k alpha lens = Inr losses" "0 < k" "\<forall>r\<in>set alpha. length r = k" "i < length alpha"
  shows "exp (- losses ! i) = sum_list (cumprod (map (max (1 / 10 ^ 6)) (take (nat (lens ! i)) (alpha ! i)))) \<and>
    ((\<forall>a\<in>set (alpha ! i). a \<le> 1) \<longrightarrow> - ln (real (min k (nat (lens ! i)))) \<le> losses ! i)"
proof -
  have lens: "length lens = length alpha" "\<forall>l\<in>set lens. 1 \<le> l" and losses: "losses = map (\<lambda>(a, l). dca_row a l) (zip alpha lens)"
    using assms(1) by (auto simp: dca_from_alpha_def validate_lengths_def rbind_eq_Inr split: if_splits)
  have li: "losses ! i = dca_row (alpha ! i) (lens ! i)" "length (alpha ! i) = k" "1 \<le> lens ! i" using losses lens assms by auto
  let ?c = "cumprod (map (max (1 / 10 ^ 6)) (take (nat (lens ! i)) (alpha ! i)))"
  have e: "exp (- losses ! i) = sum_list ?c" unfolding li(1) by (rule exp_dca_row) (use li assms(2) in auto)
  have "- ln (real (min k (nat (lens ! i)))) \<le> losses ! i" if a: "\<forall>a\<in>set (alpha ! i). a \<le> 1"
  proof -
    have "\<forall>x\<in>set (map (max (1 / 10 ^ 6)) (take (nat (lens ! i)) (alpha ! i))). 0 \<le> x \<and> x \<le> 1"
      using a by (auto dest!: in_set_takeD)
    then have "y \<le> 1" if "y \<in> set ?c" for y
      using cumprod_from_le [of 1] that unfolding cumprod_def by (metis zero_le_one)
    then have "sum_list ?c \<le> (\<Sum>y\<leftarrow>?c. 1)" using sum_list_mono [of ?c "\<lambda>y. y" "\<lambda>_. 1"] by simp
    then have "exp (- losses ! i) \<le> real (min k (nat (lens ! i)))" using e li(2) by (simp add: sum_list_triv)
    then have "- losses ! i \<le> ln (real (min k (nat (lens ! i))))" by (metis exp_gt_zero exp_le_cancel_iff exp_ln less_le_trans)
    then show ?thesis by simp
  qed
  with e show ?thesis by blast
qed

text \<open>
  C17. The top-k overlap with its residual bin never underestimates: for full-vocabulary
  distributions \<open>p\<close> and \<open>q\<close>, the overlap computed from the teacher's \<open>k\<close> ids is between the exact
  acceptance probability \<open>\<Sum> min p q\<close> and one.
\<close>
theorem acceptance_overlap_dominates:
  assumes "acceptance_overlap logits (map (\<lambda>i. ln (p i)) ids) ids = Inr a" "logits \<noteq> []"
    and "distinct ids" "\<forall>i\<in>set ids. i < length logits \<and> 0 < p i" "\<forall>i<length logits. 0 \<le> p i" "(\<Sum>i<length logits. p i) = 1"
  shows "(\<Sum>i<length logits. min (p i) (softmax logits ! i)) \<le> a \<and> 0 \<le> a \<and> a \<le> 1"
proof -
  let ?v = "length logits" and ?S = "\<Sum>y\<leftarrow>logits. exp y"
  have S: "0 < ?S" by (rule sum_exp_pos [OF assms(2)])
  have q: "\<forall>i<?v. 0 \<le> softmax logits ! i" using S by (simp add: softmax_def)
  have "(\<Sum>i<?v. softmax logits ! i) = (\<Sum>i<?v. exp (logits ! i)) / ?S" by (simp add: softmax_def sum_divide_distrib)
  also have "(\<Sum>i<?v. exp (logits ! i)) = ?S" by (simp add: sum_list_sum_nth lessThan_atLeast0)
  finally have q1: "(\<Sum>i<?v. softmax logits ! i) = 1" using S by simp
  have g: "rmap (py_get (softmax logits)) ids = Inr (map ((!) (softmax logits)) ids)"
    by (rule rmap_total) (use assms(4) in \<open>simp add: softmax_def\<close>)
  have e: "map exp (map (\<lambda>i. ln (p i)) ids) = map p ids" using assms(4) by simp
  have "a = overlap (map p ids) (map ((!) (softmax logits)) ids)"
    using assms(1) unfolding acceptance_overlap_def g rbind_Inr e by simp
  moreover have "set ids \<subseteq> {0..<?v}" using assms(4) by auto
  ultimately show ?thesis using overlap_dominates [OF assms(3) _ assms(5,6) q q1] by auto
qed

section \<open>The properties at concrete inputs\<close>

text \<open>One cycle of two depths over a vocabulary of one token: the softmax is one and so is the overlap.\<close>

lemma example_overlap: "acceptance_overlap (linear [1] [[1]]) [0] [0] = Inr 1"
  by (simp add: acceptance_overlap_def softmax_def linear_def overlap_def clamp_def)

lemma example_dca_loss:
  "dca_loss 2 (map (map (\<lambda>h. linear h [[1]])) [[[1], [1]]]) [[[0], [0]]] [[[0], [0]]] [1] = Inr ([0], [[1, 1]])"
  using example_overlap
  by (simp add: dca_loss_def dca_from_alpha_def validate_lengths_def dca_row_take logsumexp_def log_chain_def)

theorem chunked_dca_equals_dca_loss_witness:
  "chunked_dca 2 [[[1], [1]]] [[1]] [[[0], [0]]] [[[0], [0]]] [1] 3 None = Inr ([0], [[1, - 1]], None)"
  using chunked_dca_equals_dca_loss [OF example_dca_loss, of 3] by (simp add: upt_rec)

theorem dca_from_alpha_expected_length_witness:
  "\<exists>losses. dca_from_alpha 2 [[1, 1]] [2] = Inr losses \<and> exp (- losses ! 0) = 2 \<and> - ln 2 \<le> losses ! 0"
proof -
  have e: "dca_from_alpha 2 [[1, 1]] [2] = Inr [dca_row [1, 1] 2]"
    by (simp add: dca_from_alpha_def validate_lengths_def)
  show ?thesis
    using dca_from_alpha_expected_length [OF e, of 0] e by (simp add: cumprod_def numeral_2_eq_2)
qed

text \<open>A vocabulary of three, a uniform student and a teacher on two tokens of which one is stored: 2/3 against 5/6.\<close>

theorem acceptance_overlap_dominates_witness:
  "acceptance_overlap [0, 0, 0] [ln (1 / 2)] [0] = Inr (5 / 6) \<and>
   (\<Sum>i<3. min ([1 / 2, 1 / 2, 0] ! i) (softmax [0, 0, 0] ! i)) = 2 / 3 \<and>
   (\<Sum>i<length [0, 0, 0 :: real]. min ([1 / 2, 1 / 2, 0] ! i) (softmax [0, 0, 0] ! i)) \<le> 5 / 6"
proof -
  have o: "acceptance_overlap [0, 0, 0] (map (\<lambda>i. ln ([1 / 2, 1 / 2, 0] ! i)) [0]) [0] = Inr (5 / 6)"
    by (simp add: acceptance_overlap_def softmax_def overlap_def clamp_def py_get_def)
  have n: "(3 :: nat) = Suc (Suc (Suc 0))" by simp
  have "(\<Sum>i<3. min ([1 / 2, 1 / 2, 0] ! i) (softmax [0, 0, 0] ! i)) = (2 :: real) / 3"
    unfolding n by (simp add: softmax_def)
  moreover have "(\<Sum>i<length [0, 0, 0 :: real]. min ([1 / 2, 1 / 2, 0] ! i) (softmax [0, 0, 0] ! i)) \<le> 5 / 6"
    using acceptance_overlap_dominates [OF o] by (simp add: All_less_Suc less_Suc_eq all_conj_distrib)
  ultimately show ?thesis using o by simp
qed

end
