(* ===== verification/Replay.thy ===== *)
theory Replay
  imports Signals Loss
begin

text \<open>
  The draft head and the replay of verification cycles
  (\<open>verl/models/transformers/mtp/head.py\<close> and \<open>verl/trainer/mtp/replay.py\<close>).

  \<^item> \<open>forward\<close> is \<open>MTPHead.forward\<close>. The decoder layer, the norms and the fully connected layer come
    from transformers and torch and are fields of \<open>mtp_head\<close>; \<open>masked_attention\<close> states what the
    replay relies on of the layer: it appends one key/value entry per row to the cache, and the
    output of a row depends on that row and on the entries its mask leaves visible.
  \<^item> A cache is the list of the key/value entries of its only layer. A mask entry is \<open>Some 0\<close> where
    the key is visible and \<open>None\<close> for minus infinity.
  \<^item> \<open>replay_chunks\<close> returns the list of what the generator yields.
  \<^item> \<open>draft_path\<close> is the reference: the recurrent drafting of one cycle on its own committed prefix.
\<close>

section \<open>The head\<close>

type_synonym vec = "real list"
type_synonym attn_mask = "real option list list"

record 'kv mtp_head =
  mh_mimo :: bool
  mh_norm_embedding :: "vec \<Rightarrow> vec"
  mh_norm_hidden :: "vec \<Rightarrow> vec"
  mh_fc :: "vec \<Rightarrow> vec"
  mh_layer :: "vec list \<Rightarrow> int list \<Rightarrow> 'kv list \<Rightarrow> attn_mask \<Rightarrow> vec list \<times> 'kv list"
  mh_norm :: "vec \<Rightarrow> vec"

definition fuse :: "'kv mtp_head \<Rightarrow> vec \<Rightarrow> vec \<Rightarrow> int \<Rightarrow> vec" where
  "fuse head hidden embedding position =
     (let embedding = if mh_mimo head \<and> position = 0 then map (\<lambda>_. 0) embedding else embedding in
      mh_fc head (mh_norm_embedding head embedding @ mh_norm_hidden head hidden))"

definition forward ::
  "'kv mtp_head \<Rightarrow> vec list \<Rightarrow> vec list \<Rightarrow> int list \<Rightarrow> 'kv list \<Rightarrow> attn_mask \<Rightarrow> vec list \<times> 'kv list" where
  "forward head hidden embeddings positions cache attention_mask =
     (let fused = map (\<lambda>(h, e, p). fuse head h e p) (zip hidden (zip embeddings positions));
          (output, cache) = mh_layer head fused positions cache attention_mask
      in (map (mh_norm head) output, cache))"

definition masked_attention ::
  "(vec list \<Rightarrow> int list \<Rightarrow> 'kv list \<Rightarrow> attn_mask \<Rightarrow> vec list \<times> 'kv list) \<Rightarrow>
   (vec \<Rightarrow> int \<Rightarrow> 'kv) \<Rightarrow> (vec \<Rightarrow> int \<Rightarrow> 'kv list \<Rightarrow> vec) \<Rightarrow> bool" where
  "masked_attention layer kv attend \<longleftrightarrow>
     (\<forall>fs ps cache m. length ps = length fs \<longrightarrow> length m = length fs \<longrightarrow>
        (\<forall>row\<in>set m. length row = length cache + length fs \<and> set row \<subseteq> {None, Some 0}) \<longrightarrow>
        layer fs ps cache m =
          (let all = cache @ map (\<lambda>(f, p). kv f p) (zip fs ps) in
           (map (\<lambda>i. attend (fs ! i) (ps ! i) (map fst (filter (\<lambda>(_, b). b \<noteq> None) (zip all (m ! i))))) [0..<length fs], all)))"

section \<open>\<open>replay.py\<close>\<close>

definition embedding_rows :: "vec list \<Rightarrow> int list \<Rightarrow> vec list result" where
  "embedding_rows embed_weight ids = rmap (\<lambda>i. if i < 0 then Inl IndexError else py_get embed_weight (nat i)) ids"

definition mask_of :: "bool list \<Rightarrow> real option list" where
  "mask_of visible = map (\<lambda>b. if b then Some 0 else None) visible"

definition cache_update :: "'kv list \<Rightarrow> 'kv list \<Rightarrow> 'kv list" where
  "cache_update cache kvs = cache @ kvs"

definition clone_prefix :: "'kv list \<Rightarrow> 'kv list" where
  "clone_prefix cache = cache_update [] cache"

definition replay_mask :: "int list \<Rightarrow> nat \<Rightarrow> nat \<Rightarrow> attn_mask" where
  "replay_mask anchors prefix_length depth =
     (let c = length anchors in
      map (\<lambda>i. mask_of (map (\<lambda>p. int p < anchors ! i) [0..<prefix_length] @
                        concat (replicate (depth + 1) (map (\<lambda>j. i = j) [0..<c])))) [0..<c])"

text \<open>One block of \<open>prefill_prefix\<close>: the rows \<open>start..<end\<close>, each seeing the keys up to itself.\<close>

definition prefill_block_mask :: "nat \<Rightarrow> nat \<Rightarrow> attn_mask" where
  "prefill_block_mask start stop' = map (\<lambda>q. mask_of (map (\<lambda>p. p \<le> q) [0..<stop'])) [start..<stop']"

definition prefill_step :: "'kv mtp_head \<Rightarrow> vec list \<Rightarrow> vec list \<Rightarrow> int list \<Rightarrow> 'kv list \<Rightarrow> nat list \<Rightarrow> 'kv list result" where
  "prefill_step head embed_weight h ids cache block =
     (let start = hd block; stop' = Suc (last block) in
      rbind (embedding_rows embed_weight (py_slice ids start stop')) (\<lambda>emb.
      Inr (snd (forward head (py_slice h start stop') emb (map int [start..<stop']) cache (prefill_block_mask start stop')))))"

definition prefill_prefix ::
  "'kv mtp_head \<Rightarrow> vec list \<Rightarrow> real mtp_row \<Rightarrow> nat \<Rightarrow> nat \<Rightarrow> 'kv list result" where
  "prefill_prefix head embed_weight rec stop chunk_size =
     (let h = take stop (row_prefix_hidden rec); ids = take stop (row_prefix_ids rec) in
      rbind (rfold (prefill_step head embed_weight h ids) [] (chunks chunk_size [0..<stop])) (\<lambda>cache.
      Inr (clone_prefix cache)))"

text \<open>One draft depth of a chunk: all its cycles advance together.\<close>

definition replay_depth ::
  "'kv mtp_head \<Rightarrow> vec list \<Rightarrow> int list \<Rightarrow> nat \<Rightarrow> int list list \<Rightarrow>
   vec list \<times> 'kv list \<times> vec list list \<Rightarrow> nat \<Rightarrow> (vec list \<times> 'kv list \<times> vec list list) result" where
  "replay_depth head embed_weight pos stop tokens s depth =
     (case s of (h, cache, outputs) \<Rightarrow>
        rbind (rmap (\<lambda>t. py_get t depth) tokens) (\<lambda>column.
        rbind (embedding_rows embed_weight column) (\<lambda>emb.
        let (h', cache') = forward head h emb (map (\<lambda>p. p + int depth) pos) cache (replay_mask pos stop depth) in
        Inr (h', cache', outputs @ [h']))))"

definition as_ids :: "int list list list \<Rightarrow> nat list list list result" where
  "as_ids = rmap (rmap (rmap (\<lambda>i. if i < 0 then Inl IndexError else Inr (nat i))))"

definition as_targets :: "int list list \<Rightarrow> nat list list result" where
  "as_targets = rmap (rmap (\<lambda>i. if i < 0 then Inl IndexError else Inr (nat i)))"

definition replay_chunk ::
  "'kv mtp_head \<Rightarrow> vec list \<Rightarrow> vec list \<Rightarrow> real mtp_row \<Rightarrow> nat \<Rightarrow> bool \<Rightarrow> nat \<Rightarrow> nat \<Rightarrow> 'kv list \<Rightarrow> nat list \<Rightarrow>
   (real list \<times> real list list \<times> real list option) result" where
  "replay_chunk head embed_weight lm_weight rec vocab_chunk_size include_aux_ce stop k prefix block =
     (let start = hd block; stop' = Suc (last block);
          pos = py_slice (row_position rec) start stop';
          tokens = py_slice (row_draft_tokens rec) start stop';
          h = py_slice (row_hidden rec) start stop'
      in rbind (rfold (replay_depth head embed_weight pos stop tokens) (h, clone_prefix prefix, []) [0..<k]) (\<lambda>(_, _, outputs).
         let hidden = map (\<lambda>i. map (\<lambda>o'. o' ! i) outputs) [0..<length pos] in
         rbind (as_ids (py_slice (row_topk_idx rec) start stop')) (\<lambda>ids.
         if include_aux_ce
         then (case row_targets rec of
                 None \<Rightarrow> Inl (RuntimeError ''Rollout target tokens are missing for auxiliary CE'')
               | Some (tt, tm) \<Rightarrow>
                   rbind (as_targets (py_slice tt start stop')) (\<lambda>tids.
                   chunked_dca k hidden lm_weight (py_slice (row_topk_val rec) start stop') ids
                     (py_slice (row_accept_len rec) start stop') vocab_chunk_size
                     (Some (tids, py_slice tm start stop'))))
         else chunked_dca k hidden lm_weight (py_slice (row_topk_val rec) start stop') ids
                (py_slice (row_accept_len rec) start stop') vocab_chunk_size None)))"

definition replay_chunks ::
  "'kv mtp_head \<Rightarrow> vec list \<Rightarrow> vec list \<Rightarrow> real mtp_row \<Rightarrow> nat \<Rightarrow> nat \<Rightarrow> bool \<Rightarrow>
   (real list \<times> real list list \<times> real list option) list result" where
  "replay_chunks head embed_weight lm_weight rec chunk_size vocab_chunk_size include_aux_ce =
     (let positions = row_position rec; n = length positions in
      if n = 0 then Inr []
      else if (\<exists>p\<in>set positions. p < 0) \<or> \<not> sorted_wrt (<) positions
      then Inl (ValueError ''Cycle starts must be nonnegative and strictly increasing'')
      else let stop = nat (last positions) in
        if length (row_prefix_hidden rec) \<le> stop \<or> length (row_prefix_ids rec) \<le> stop
        then Inl (ValueError ''Committed prefix is incomplete for the final cycle'')
        else rbind (prefill_prefix head embed_weight rec stop 256) (\<lambda>prefix.
          let k = row_width (row_topk_val rec) in
          if row_width (row_draft_tokens rec) \<noteq> k + 1
          then Inl (ValueError ''A cycle must carry its seed followed by K draft tokens'')
          else if chunk_size = 0 then Inl (ValueError ''range() arg 3 must not be zero'')
          else rmap (replay_chunk head embed_weight lm_weight rec vocab_chunk_size include_aux_ce stop k prefix)
                 (chunks chunk_size [0..<n])))"

section \<open>The reference: recurrent drafting of one cycle\<close>

text \<open>
  A cycle at position \<open>pos\<close> with seed hidden state \<open>h\<close> drafts on the cache of the positions before
  its own: at depth \<open>d\<close> it feeds its last hidden state and its token \<open>d\<close> to the head and appends
  its own entry to its own cache.
\<close>

primrec draft_state ::
  "'kv mtp_head \<Rightarrow> (vec \<Rightarrow> int \<Rightarrow> 'kv) \<Rightarrow> (vec \<Rightarrow> int \<Rightarrow> 'kv list \<Rightarrow> vec) \<Rightarrow> vec list \<Rightarrow> vec \<Rightarrow> int \<Rightarrow> int list \<Rightarrow> 'kv list \<Rightarrow>
   nat \<Rightarrow> vec \<times> 'kv list" where
  "draft_state head kv attend ew h pos toks cache 0 = (h, cache)"
| "draft_state head kv attend ew h pos toks cache (Suc d) =
     (case draft_state head kv attend ew h pos toks cache d of (h', c) \<Rightarrow>
        let f = fuse head h' (ew ! nat (toks ! d)) (pos + int d); c' = c @ [kv f (pos + int d)]
        in (mh_norm head (attend f (pos + int d) c'), c'))"

definition draft_path ::
  "'kv mtp_head \<Rightarrow> (vec \<Rightarrow> int \<Rightarrow> 'kv) \<Rightarrow> (vec \<Rightarrow> int \<Rightarrow> 'kv list \<Rightarrow> vec) \<Rightarrow> vec list \<Rightarrow> vec \<Rightarrow> int \<Rightarrow> int list \<Rightarrow> 'kv list \<Rightarrow>
   nat \<Rightarrow> vec list" where
  "draft_path head kv attend ew h pos toks cache k =
     map (\<lambda>d. fst (draft_state head kv attend ew h pos toks cache (Suc d))) [0..<k]"

definition committed_kv :: "'kv mtp_head \<Rightarrow> (vec \<Rightarrow> int \<Rightarrow> 'kv) \<Rightarrow> vec list \<Rightarrow> real mtp_row \<Rightarrow> nat \<Rightarrow> 'kv" where
  "committed_kv head kv ew rec i =
     kv (fuse head (row_prefix_hidden rec ! i) (ew ! nat (row_prefix_ids rec ! i)) (int i)) (int i)"

definition draft_cycle ::
  "'kv mtp_head \<Rightarrow> (vec \<Rightarrow> int \<Rightarrow> 'kv) \<Rightarrow> (vec \<Rightarrow> int \<Rightarrow> 'kv list \<Rightarrow> vec) \<Rightarrow> vec list \<Rightarrow> real mtp_row \<Rightarrow> nat \<Rightarrow> nat \<Rightarrow> vec list" where
  "draft_cycle head kv attend ew rec k i =
     draft_path head kv attend ew (row_hidden rec ! i) (row_position rec ! i) (row_draft_tokens rec ! i)
       (map (committed_kv head kv ew rec) [0..<nat (row_position rec ! i)]) k"

section \<open>Blocks, masks and one call of the head\<close>

lemma chunks_upt:
  "0 < c \<Longrightarrow> a < n \<Longrightarrow> chunks c [a..<n] = [a..<min (a + c) n] # chunks c [min (a + c) n..<n]"
  by (cases "a + c \<le> n") (simp_all add: chunks.simps [of c "[a..<n]"] take_upt drop_upt min_def)

lemma chunks_upt_blocks:
  "0 < c \<Longrightarrow> b \<in> set (chunks c [a..<n]) \<Longrightarrow> \<exists>s e. b = [s..<e] \<and> a \<le> s \<and> s < e \<and> e \<le> n"
proof (induction "n - a" arbitrary: a rule: less_induct)
  case less
  show ?case
  proof (cases "a < n")
    case True
    show ?thesis
    proof (cases "b = [a..<min (a + c) n]")
      case True
      then show ?thesis using \<open>a < n\<close> less.prems(1) by (intro exI [of _ a] exI [of _ "min (a + c) n"]) auto
    next
      case False
      then have "b \<in> set (chunks c [min (a + c) n..<n])" using less.prems \<open>a < n\<close> by (simp add: chunks_upt)
      from less.hyps [OF _ less.prems(1) this] show ?thesis
        using \<open>a < n\<close> less.prems(1) by fastforce
    qed
  qed (use less.prems in simp)
qed

lemma hd_last_upt: "a < b \<Longrightarrow> hd [a..<b] = a \<and> Suc (last [a..<b]) = b"
  by (simp add: last_upt)

lemma set_mask_of: "set (mask_of v) \<subseteq> {None, Some 0}"
  by (auto simp: mask_of_def)

lemma length_mask_of [simp]: "length (mask_of v) = length v"
  by (simp add: mask_of_def)

lemma visible_mask_of: "length v = length xs \<Longrightarrow>
  map fst (filter (\<lambda>(_, b). b \<noteq> None) (zip xs (mask_of v))) = map fst (filter snd (zip xs v))"
  by (induction xs v rule: list_induct2') (auto simp: mask_of_def)

lemma filter_zip_prefix: "map fst (filter snd (zip xs (map (\<lambda>p. p < m) [a..<a + length xs]))) = take (m - a) xs"
proof (induction xs arbitrary: a)
  case (Cons x xs)
  have "[a..<a + length (x # xs)] = a # [Suc a..<Suc a + length xs]" by (subst upt_conv_Cons) auto
  then show ?case using Cons [of "Suc a"] by (cases "a < m") (auto simp: take_Cons' Suc_diff_Suc)
qed simp

lemma filter_zip_diag: "i < length xs \<Longrightarrow>
  map fst (filter snd (zip xs (map (\<lambda>j. i = j) [0..<length xs]))) = [xs ! i]"
proof (induction xs arbitrary: i)
  case (Cons x xs)
  have e: "[0..<length (x # xs)] = 0 # map Suc [0..<length xs]"
    by (simp add: map_Suc_upt upt_conv_Cons del: upt_Suc)
  have z: "map fst (filter snd (zip xs (map (\<lambda>j. False) [0..<length xs]))) = []"
    by (auto simp: filter_empty_conv set_zip)
  show ?case
  proof (cases i)
    case 0
    then show ?thesis unfolding e using z by (simp add: comp_def del: upt_Suc)
  next
    case (Suc i')
    then show ?thesis unfolding e using Cons by (simp add: comp_def del: upt_Suc)
  qed
qed simp

lemma filter_zip_diag_blocks:
  assumes "i < c" "\<And>b. b \<in> set blocks \<Longrightarrow> length b = c"
  shows "map fst (filter snd (zip (concat blocks) (concat (replicate (length blocks) (map (\<lambda>j. i = j) [0..<c]))))) = map (\<lambda>b. b ! i) blocks"
  using assms(2)
proof (induction blocks)
  case (Cons b bs)
  have "length b = c" using Cons.prems by simp
  then have "zip (concat (b # bs)) (concat (replicate (length (b # bs)) (map (\<lambda>j. i = j) [0..<c]))) =
    zip b (map (\<lambda>j. i = j) [0..<c]) @ zip (concat bs) (concat (replicate (length bs) (map (\<lambda>j. i = j) [0..<c])))"
    by simp
  then show ?case using Cons filter_zip_diag [of i b] assms(1) by simp
qed simp

lemma fuse_zip_nth:
  assumes "length es = length hs" "length ps = length hs"
  shows "map (\<lambda>(h, e, p). fuse head h e p) (zip hs (zip es ps)) = map (\<lambda>i. fuse head (hs ! i) (es ! i) (ps ! i)) [0..<length hs]"
  using assms by (intro nth_equalityI) auto

lemma forward_masked:
  assumes ma: "masked_attention (mh_layer head) kv attend"
    and len: "length es = length hs" "length ps = length hs" "length m = length hs"
    and m: "\<And>i. i < length hs \<Longrightarrow> m ! i = mask_of (v i) \<and> length (v i) = length cache + length hs"
  shows "forward head hs es ps cache m =
    (let f = \<lambda>i. fuse head (hs ! i) (es ! i) (ps ! i); all = cache @ map (\<lambda>i. kv (f i) (ps ! i)) [0..<length hs] in
     (map (\<lambda>i. mh_norm head (attend (f i) (ps ! i) (map fst (filter snd (zip all (v i)))))) [0..<length hs], all))"
proof -
  let ?f = "\<lambda>i. fuse head (hs ! i) (es ! i) (ps ! i)"
  let ?fs = "map ?f [0..<length hs]"
  have z: "map (\<lambda>(f, p). kv f p) (zip ?fs ps) = map (\<lambda>i. kv (?f i) (ps ! i)) [0..<length hs]"
    using len by (intro nth_equalityI) auto
  have ok: "\<forall>row\<in>set m. length row = length cache + length ?fs \<and> set row \<subseteq> {None, Some 0}"
    using m len(3) by (auto simp: in_set_conv_nth [of _ m] mask_of_def)
  have "mh_layer head ?fs ps cache m =
    (let all = cache @ map (\<lambda>(f, p). kv f p) (zip ?fs ps) in
     (map (\<lambda>i. attend (?fs ! i) (ps ! i) (map fst (filter (\<lambda>(_, b). b \<noteq> None) (zip all (m ! i))))) [0..<length ?fs], all))"
    using ma [unfolded masked_attention_def, rule_format, of ps ?fs m cache] ok len by simp
  moreover have "map fst (filter (\<lambda>(_, b). b \<noteq> None) (zip (cache @ map (\<lambda>i. kv (?f i) (ps ! i)) [0..<length hs]) (m ! i))) =
      map fst (filter snd (zip (cache @ map (\<lambda>i. kv (?f i) (ps ! i)) [0..<length hs]) (v i)))" if "i < length hs" for i
    unfolding m [OF that, THEN conjunct1] by (rule visible_mask_of) (use m [OF that] in simp)
  ultimately show ?thesis
    unfolding forward_def fuse_zip_nth [OF len(1,2)] z Let_def by (simp add: comp_def)
qed

section \<open>The committed prefix\<close>

lemma embedding_rows_ok:
  assumes "\<And>i. i \<in> set ids \<Longrightarrow> 0 \<le> i \<and> i < int (length ew)"
  shows "embedding_rows ew ids = Inr (map (\<lambda>i. ew ! nat i) ids)"
  unfolding embedding_rows_def by (intro rmap_total) (use assms in \<open>fastforce simp: nat_less_iff\<close>)

lemma prefill_step_ok:
  assumes ma: "masked_attention (mh_layer head) kv attend" and ab: "a < b" "b \<le> stop"
    and len: "stop \<le> length (row_prefix_hidden rec)" "stop \<le> length (row_prefix_ids rec)"
    and ids: "\<And>i. i \<in> set (row_prefix_ids rec) \<Longrightarrow> 0 \<le> i \<and> i < int (length ew)"
  shows "prefill_step head ew (take stop (row_prefix_hidden rec)) (take stop (row_prefix_ids rec))
      (map (committed_kv head kv ew rec) [0..<a]) [a..<b] = Inr (map (committed_kv head kv ew rec) [0..<b])"
proof -
  let ?h = "py_slice (take stop (row_prefix_hidden rec)) a b" and ?ids = "py_slice (take stop (row_prefix_ids rec)) a b"
  have sub: "set ?ids \<subseteq> set (row_prefix_ids rec)"
    unfolding py_slice_def by (metis set_drop_subset set_take_subset subset_trans)
  have emb: "embedding_rows ew ?ids = Inr (map (\<lambda>i. ew ! nat i) ?ids)"
    by (rule embedding_rows_ok) (use ids sub in blast)
  have l: "length ?h = b - a" "length ?ids = b - a" using ab len by auto
  have n: "?h ! i = row_prefix_hidden rec ! (a + i)" "?ids ! i = row_prefix_ids rec ! (a + i)" if "i < b - a" for i
    using that ab len by (simp_all add: nth_py_slice)
  have "forward head ?h (map (\<lambda>i. ew ! nat i) ?ids) (map int [a..<b]) (map (committed_kv head kv ew rec) [0..<a]) (prefill_block_mask a b)
    = (let f = \<lambda>i. fuse head (?h ! i) (map (\<lambda>i. ew ! nat i) ?ids ! i) (map int [a..<b] ! i);
           all = map (committed_kv head kv ew rec) [0..<a] @ map (\<lambda>i. kv (f i) (map int [a..<b] ! i)) [0..<length ?h] in
       (map (\<lambda>i. mh_norm head (attend (f i) (map int [a..<b] ! i) (map fst (filter snd (zip all (map (\<lambda>p. p \<le> a + i) [0..<b])))))) [0..<length ?h], all))"
    by (rule forward_masked [OF ma]) (use l ab in \<open>auto simp: prefill_block_mask_def less_diff_conv add.commute\<close>)
  then have "snd (forward head ?h (map (\<lambda>i. ew ! nat i) ?ids) (map int [a..<b]) (map (committed_kv head kv ew rec) [0..<a]) (prefill_block_mask a b))
    = map (committed_kv head kv ew rec) [0..<a] @ map (\<lambda>i. committed_kv head kv ew rec (a + i)) [0..<b - a]"
    using l n by (simp add: Let_def committed_kv_def del: length_py_slice)
  also have "\<dots> = map (committed_kv head kv ew rec) [0..<b]"
    using ab by (intro nth_equalityI) (auto simp: nth_append)
  finally show ?thesis unfolding prefill_step_def Let_def hd_last_upt [OF ab(1), THEN conjunct1] hd_last_upt [OF ab(1), THEN conjunct2] emb
    by simp
qed

lemma prefill_fold:
  assumes ma: "masked_attention (mh_layer head) kv attend" and c: "0 < c"
    and len: "stop \<le> length (row_prefix_hidden rec)" "stop \<le> length (row_prefix_ids rec)"
    and ids: "\<And>i. i \<in> set (row_prefix_ids rec) \<Longrightarrow> 0 \<le> i \<and> i < int (length ew)"
  shows "a \<le> stop \<Longrightarrow> rfold (prefill_step head ew (take stop (row_prefix_hidden rec)) (take stop (row_prefix_ids rec)))
      (map (committed_kv head kv ew rec) [0..<a]) (chunks c [a..<stop]) = Inr (map (committed_kv head kv ew rec) [0..<stop])"
proof (induction "stop - a" arbitrary: a rule: less_induct)
  case less
  show ?case
  proof (cases "a < stop")
    case True
    let ?b = "min (a + c) stop"
    have "prefill_step head ew (take stop (row_prefix_hidden rec)) (take stop (row_prefix_ids rec))
      (map (committed_kv head kv ew rec) [0..<a]) [a..<?b] = Inr (map (committed_kv head kv ew rec) [0..<?b])"
      by (rule prefill_step_ok [OF ma _ _ len]) (use True c ids in auto)
    then show ?thesis using less.hyps [of ?b] True c by (simp add: chunks_upt)
  qed (use less.prems in simp)
qed

lemma prefill_prefix_ok:
  assumes "masked_attention (mh_layer head) kv attend" "0 < c"
    and "stop \<le> length (row_prefix_hidden rec)" "stop \<le> length (row_prefix_ids rec)"
    and "\<And>i. i \<in> set (row_prefix_ids rec) \<Longrightarrow> 0 \<le> i \<and> i < int (length ew)"
  shows "prefill_prefix head ew rec stop c = Inr (map (committed_kv head kv ew rec) [0..<stop])"
  using prefill_fold [OF assms, of 0] by (simp add: prefill_prefix_def clone_prefix_def cache_update_def)

section \<open>One chunk of cycles\<close>

lemma draft_cache:
  "snd (draft_state head kv attend ew h pos toks cache (Suc d)) =
   snd (draft_state head kv attend ew h pos toks cache d) @ [last (snd (draft_state head kv attend ew h pos toks cache (Suc d)))]"
  by (simp add: Let_def split: prod.split)

lemma draft_cache_all:
  "snd (draft_state head kv attend ew h pos toks cache d) =
   cache @ map (\<lambda>e. last (snd (draft_state head kv attend ew h pos toks cache (Suc e)))) [0..<d]"
proof (induction d)
  case (Suc d)
  then show ?case by (subst draft_cache) (simp del: draft_state.simps)
qed simp

text \<open>
  The state of the chunk after \<open>d\<close> depths: row \<open>i\<close> is the drafting state of cycle \<open>i\<close>, and the
  shared cache holds the committed prefix followed by one block of entries per depth.
\<close>

definition chunk_state ::
  "'kv list \<Rightarrow> nat \<Rightarrow> (nat \<Rightarrow> nat \<Rightarrow> vec \<times> 'kv list) \<Rightarrow> nat \<Rightarrow> vec list \<times> 'kv list \<times> vec list list" where
  "chunk_state prefix c D d =
     (map (\<lambda>i. fst (D i d)) [0..<c],
      prefix @ concat (map (\<lambda>e. map (\<lambda>i. last (snd (D i (Suc e)))) [0..<c]) [0..<d]),
      map (\<lambda>e. map (\<lambda>i. fst (D i (Suc e))) [0..<c]) [0..<d])"

lemma replay_depth_ok:
  fixes head :: "'kv mtp_head"
  assumes ma: "masked_attention (mh_layer head) kv attend"
    and len: "length tokens = length pos" "length prefix = stop"
    and pos: "\<And>p. p \<in> set pos \<Longrightarrow> 0 \<le> p \<and> p \<le> int stop"
    and tok: "\<And>t. t \<in> set tokens \<Longrightarrow> d < length t \<and> 0 \<le> t ! d \<and> t ! d < int (length ew)"
    and D: "D = (\<lambda>i. draft_state head kv attend ew (h0 i) (pos ! i) (tokens ! i) (take (nat (pos ! i)) prefix))"
  shows "replay_depth head ew pos stop tokens (chunk_state prefix (length pos) D d) d = Inr (chunk_state prefix (length pos) D (Suc d))"
proof -
  let ?c = "length pos"
  let ?K = "\<lambda>i e. last (snd (D i (Suc e)))"
  let ?hs = "map (\<lambda>i. fst (D i d)) [0..<?c]" and ?es = "map (\<lambda>t. ew ! nat (t ! d)) tokens"
  let ?ps = "map (\<lambda>p. p + int d) pos"
  let ?cache = "prefix @ concat (map (\<lambda>e. map (\<lambda>i. ?K i e) [0..<?c]) [0..<d])"
  let ?v = "\<lambda>i. map (\<lambda>p. int p < pos ! i) [0..<stop] @ concat (replicate (d + 1) (map (\<lambda>j. i = j) [0..<?c]))"
  let ?f = "\<lambda>i. fuse head (?hs ! i) (?es ! i) (?ps ! i)"
  have emb: "embedding_rows ew (map (\<lambda>t. t ! d) tokens) = Inr ?es"
    using embedding_rows_ok [of "map (\<lambda>t. t ! d) tokens" ew] tok by (auto simp: comp_def)
  have col: "rmap (\<lambda>t. py_get t d) tokens = Inr (map (\<lambda>t. t ! d) tokens)"
    by (intro rmap_total) (use tok in simp)
  have lcache: "length ?cache = stop + d * ?c"
    using len by (simp add: length_concat comp_def sum_list_triv)
  have fwd: "forward head ?hs ?es ?ps ?cache (replay_mask pos stop d) =
    (let f = ?f; all = ?cache @ map (\<lambda>i. kv (f i) (?ps ! i)) [0..<length ?hs] in
     (map (\<lambda>i. mh_norm head (attend (f i) (?ps ! i) (map fst (filter snd (zip all (?v i)))))) [0..<length ?hs], all))"
    by (rule forward_masked [OF ma])
      (use len lcache in \<open>auto simp: replay_mask_def Let_def length_concat sum_list_triv sum_list_replicate\<close>)
  have K: "kv (?f i) (?ps ! i) = ?K i d" if "i < ?c" for i
    using that len by (simp add: D Let_def split: prod.split)
  have all: "?cache @ map (\<lambda>i. kv (?f i) (?ps ! i)) [0..<?c] = prefix @ concat (map (\<lambda>e. map (\<lambda>i. ?K i e) [0..<?c]) [0..<Suc d])"
    using K by simp
  have vis: "map fst (filter snd (zip (prefix @ concat (map (\<lambda>e. map (\<lambda>i. ?K i e) [0..<?c]) [0..<Suc d])) (?v i))) = snd (D i (Suc d))"
    if i: "i < ?c" for i
  proof -
    have p: "map (\<lambda>p. int p < pos ! i) [0..<stop] = map (\<lambda>p. p < nat (pos ! i)) [0..<0 + length prefix]"
      using len(2) pos [of "pos ! i"] i by (auto simp: zless_nat_eq_int_zless)
    let ?B = "map (\<lambda>e. map (\<lambda>i. ?K i e) [0..<?c]) [0..<Suc d]"
    have z: "zip (prefix @ concat ?B) (?v i) = zip prefix (map (\<lambda>p. p < nat (pos ! i)) [0..<0 + length prefix]) @
        zip (concat ?B) (concat (replicate (length ?B) (map (\<lambda>j. i = j) [0..<?c])))"
      unfolding p by (subst zip_append) auto
    have l: "length b = ?c" if "b \<in> set ?B" for b using that by auto
    have e1: "map fst (filter snd (zip (concat ?B) (concat (replicate (length ?B) (map (\<lambda>j. i = j) [0..<?c]))))) = map (\<lambda>b. b ! i) ?B"
      by (rule filter_zip_diag_blocks [OF i l])
    have "map fst (filter snd (zip (prefix @ concat ?B) (?v i))) = take (nat (pos ! i)) prefix @ map (\<lambda>b. b ! i) ?B"
      by (simp only: z filter_append map_append [of fst] filter_zip_prefix e1 diff_zero)
    also have "\<dots> = snd (D i (Suc d))"
      unfolding D draft_cache_all [of head kv attend ew "h0 i" "pos ! i" "tokens ! i" _ "Suc d"] using i by simp
    finally show ?thesis .
  qed
  have out: "mh_norm head (attend (?f i) (?ps ! i) (snd (D i (Suc d)))) = fst (D i (Suc d))" if "i < ?c" for i
    using that len by (simp add: D Let_def split: prod.split)
  have "forward head ?hs ?es ?ps ?cache (replay_mask pos stop d) =
      (map (\<lambda>i. fst (D i (Suc d))) [0..<?c], prefix @ concat (map (\<lambda>e. map (\<lambda>i. ?K i e) [0..<?c]) [0..<Suc d]))"
    unfolding fwd Let_def length_map length_upt diff_zero all using vis out by simp
  then show ?thesis
    unfolding replay_depth_def chunk_state_def prod.case col rbind_Inr emb by simp
qed

lemma replay_fold_ok:
  fixes head :: "'kv mtp_head"
  assumes ma: "masked_attention (mh_layer head) kv attend"
    and len: "length tokens = length pos" "length prefix = stop"
    and pos: "\<And>p. p \<in> set pos \<Longrightarrow> 0 \<le> p \<and> p \<le> int stop"
    and tok: "\<And>t j. t \<in> set tokens \<Longrightarrow> j < k \<Longrightarrow> j < length t \<and> 0 \<le> t ! j \<and> t ! j < int (length ew)"
    and D: "D = (\<lambda>i. draft_state head kv attend ew (h0 i) (pos ! i) (tokens ! i) (take (nat (pos ! i)) prefix))"
  shows "d \<le> k \<Longrightarrow> rfold (replay_depth head ew pos stop tokens) (chunk_state prefix (length pos) D 0) [0..<d] =
    Inr (chunk_state prefix (length pos) D d)"
proof (induction d)
  case (Suc d)
  have "replay_depth head ew pos stop tokens (chunk_state prefix (length pos) D d) d = Inr (chunk_state prefix (length pos) D (Suc d))"
    by (rule replay_depth_ok [OF ma len pos _ D]) (use tok Suc.prems in auto)
  then show ?case using Suc by (simp add: rfold_append)
qed simp

text \<open>The hidden states a chunk hands to the loss are those of the recurrent drafting.\<close>

lemma replay_hidden_ok:
  fixes head :: "'kv mtp_head"
  assumes ma: "masked_attention (mh_layer head) kv attend"
    and len: "length tokens = length pos" "length hs = length pos" "length prefix = stop"
    and pos: "\<And>p. p \<in> set pos \<Longrightarrow> 0 \<le> p \<and> p \<le> int stop"
    and tok: "\<And>t j. t \<in> set tokens \<Longrightarrow> j < k \<Longrightarrow> j < length t \<and> 0 \<le> t ! j \<and> t ! j < int (length ew)"
  shows "\<exists>h cache outputs. rfold (replay_depth head ew pos stop tokens) (hs, prefix, []) [0..<k] = Inr (h, cache, outputs) \<and>
    map (\<lambda>i. map (\<lambda>o'. o' ! i) outputs) [0..<length pos] =
    map (\<lambda>i. draft_path head kv attend ew (hs ! i) (pos ! i) (tokens ! i) (take (nat (pos ! i)) prefix) k) [0..<length pos]"
proof -
  define D where "D = (\<lambda>i. draft_state head kv attend ew (hs ! i) (pos ! i) (tokens ! i) (take (nat (pos ! i)) prefix))"
  have "chunk_state prefix (length pos) D 0 = (hs, prefix, [])"
    using map_nth [of hs] len(2) by (simp add: chunk_state_def D_def)
  then have "rfold (replay_depth head ew pos stop tokens) (hs, prefix, []) [0..<k] = Inr (chunk_state prefix (length pos) D k)"
    using replay_fold_ok [OF ma len(1,3) pos tok D_def order_refl] by simp
  then show ?thesis by (auto simp: chunk_state_def draft_path_def D_def)
qed

section \<open>Slices\<close>

lemma py_slice_upt: "a \<le> b \<Longrightarrow> b \<le> length xs \<Longrightarrow> py_slice xs a b = map ((!) xs) [a..<b]"
  by (intro nth_equalityI) (auto simp: nth_py_slice)

lemma py_slice_map_upt: "a \<le> b \<Longrightarrow> b \<le> n \<Longrightarrow> py_slice (map f [0..<n]) a b = map (\<lambda>i. f (a + i)) [0..<b - a]"
  by (rule nth_equalityI) (auto simp: nth_py_slice)

lemma zip_py_slice: "py_slice (zip xs ys) a b = zip (py_slice xs a b) (py_slice ys a b)"
  by (simp add: py_slice_def take_zip drop_zip)

lemma map_py_slice: "map f (py_slice xs a b) = py_slice (map f xs) a b"
  by (simp add: py_slice_def take_map drop_map)

lemma set_py_slice: "set (py_slice xs a b) \<subseteq> set xs"
  unfolding py_slice_def by (meson set_drop_subset set_take_subset subset_trans)

lemma rmap_py_slice: "rmap f xs = Inr ys \<Longrightarrow> rmap f (py_slice xs a b) = Inr (py_slice ys a b)"
  by (auto simp: rmap_eq_Inr py_slice_def intro: list_all2_takeI list_all2_dropI)

lemma concat_slices:
  assumes "0 < c"
  shows "concat (map (\<lambda>b. py_slice xs (hd b) (Suc (last b))) (chunks c [0..<length xs])) = xs"
proof -
  have "py_slice xs (hd b) (Suc (last b)) = map ((!) xs) b" if b: "b \<in> set (chunks c [0..<length xs])" for b
  proof -
    obtain s e where "b = [s..<e]" "s < e" "e \<le> length xs" using chunks_upt_blocks [OF assms b] by auto
    then show ?thesis using hd_last_upt [of s e] by (simp add: py_slice_upt)
  qed
  then have "concat (map (\<lambda>b. py_slice xs (hd b) (Suc (last b))) (chunks c [0..<length xs])) =
      map ((!) xs) (concat (chunks c [0..<length xs]))"
    by (simp add: map_concat cong: map_cong)
  then show ?thesis using assms by (simp add: concat_chunks map_nth)
qed

lemma dca_loss_slice:
  assumes "dca_loss k logits lps ids lens = Inr (losses, alpha)"
    and "length lps = length logits" "length ids = length logits"
  shows "dca_loss k (py_slice logits a b) (py_slice lps a b) (py_slice ids a b) (py_slice lens a b) =
    Inr (py_slice losses a b, py_slice alpha a b) \<and> length alpha = length logits \<and> length lens = length logits \<and> length losses = length logits"
proof -
  let ?f = "\<lambda>(ls, ps, is). rmap (\<lambda>(l, p, i). acceptance_overlap l p i) (zip ls (zip ps is))"
  have r: "rmap ?f (zip logits (zip lps ids)) = Inr alpha" and d: "dca_from_alpha k alpha lens = Inr losses"
    using assms(1) by (auto simp: dca_loss_def rbind_eq_Inr)
  have la: "length alpha = length logits" using rmap_length [OF r] assms(2,3) by simp
  have v: "length lens = length alpha" "\<forall>l\<in>set lens. 1 \<le> l \<and> l \<le> int k + 1" "losses = map (\<lambda>(a, l). dca_row a l) (zip alpha lens)"
    using d by (auto simp: dca_from_alpha_def validate_lengths_def rbind_eq_Inr split: if_splits)
  have "dca_from_alpha k (py_slice alpha a b) (py_slice lens a b) = Inr (py_slice losses a b)"
  proof -
    have "\<not> (\<exists>l\<in>set (py_slice lens a b). l < 1 \<or> int k + 1 < l)" using v(2) set_py_slice [of lens a b] by force
    then show ?thesis using v(1,3)
      by (simp add: dca_from_alpha_def validate_lengths_def map_py_slice zip_py_slice [symmetric])
  qed
  then show ?thesis using rmap_py_slice [OF r, of a b] la v(1,3)
    by (simp add: dca_loss_def zip_py_slice)
qed

section \<open>The whole replay\<close>

definition replayable :: "nat \<Rightarrow> nat \<Rightarrow> 'v mtp_row \<Rightarrow> bool" where
  "replayable vocab k rec \<longleftrightarrow>
     (let n = length (row_position rec) in
      row_position rec \<noteq> [] \<and> sorted_wrt (<) (row_position rec) \<and> 0 \<le> hd (row_position rec) \<and>
      last (row_position rec) < int (length (row_prefix_hidden rec)) \<and> last (row_position rec) < int (length (row_prefix_ids rec)) \<and>
      (\<forall>i\<in>set (row_prefix_ids rec). 0 \<le> i \<and> i < int vocab) \<and>
      is_matrix n (k + 1) (row_draft_tokens rec) \<and> (\<forall>r\<in>set (row_draft_tokens rec). \<forall>i\<in>set r. 0 \<le> i \<and> i < int vocab) \<and>
      length (row_hidden rec) = n \<and> is_matrix n k (row_topk_val rec) \<and> is_matrix n k (row_topk_idx rec) \<and>
      (\<forall>r\<in>set (row_topk_idx rec). \<forall>c\<in>set r. \<forall>i\<in>set c. 0 \<le> i))"

lemma sorted_positions:
  assumes "sorted_wrt (<) (ps :: int list)" "0 \<le> hd ps" "p \<in> set ps"
  shows "0 \<le> p \<and> p \<le> last ps"
proof -
  obtain i where i: "i < length ps" "p = ps ! i" using assms(3) by (auto simp: in_set_conv_nth)
  have m: "ps ! a \<le> ps ! b" if "a \<le> b" "b < length ps" for a b
    using assms(1) that by (cases "a = b") (auto simp: sorted_wrt_iff_nth_less less_imp_le)
  show ?thesis using m [of 0 i] m [of i "length ps - 1"] i assms(2) by (cases ps) (auto simp: hd_conv_nth last_conv_nth)
qed

lemma as_ids_ok: "(\<forall>r\<in>set ids. \<forall>c\<in>set r. \<forall>i\<in>set c. 0 \<le> i) \<Longrightarrow> as_ids ids = Inr (map (map (map nat)) ids)"
  unfolding as_ids_def by (intro rmap_total) fastforce

lemma replay_chunk_ok:
  fixes head :: "'kv mtp_head"
  assumes ma: "masked_attention (mh_layer head) kv attend" and rec: "replayable (length ew) k rec" and k: "0 < k" "0 < vc"
    and dca: "dca_loss k (map (\<lambda>i. map (\<lambda>h. linear h lm) (draft_cycle head kv attend ew rec k i)) [0..<length (row_position rec)])
        (row_topk_val rec) (map (map (map nat)) (row_topk_idx rec)) (row_accept_len rec) = Inr (losses, alpha)"
    and ab: "a < b" "b \<le> length (row_position rec)"
    and M: "M = map (\<lambda>i. map (\<lambda>j. if int j < row_accept_len rec ! i then alpha ! i ! j else - 1) [0..<k]) [0..<length (row_position rec)]"
  shows "replay_chunk head ew lm rec vc False (nat (last (row_position rec))) k
      (map (committed_kv head kv ew rec) [0..<nat (last (row_position rec))]) [a..<b] = Inr (py_slice losses a b, py_slice M a b, None)"
proof -
  let ?n = "length (row_position rec)" and ?stop = "nat (last (row_position rec))"
  let ?C = "draft_cycle head kv attend ew rec k"
  let ?pos = "py_slice (row_position rec) a b" and ?tok = "py_slice (row_draft_tokens rec) a b" and ?h = "py_slice (row_hidden rec) a b"
  let ?prefix = "map (committed_kv head kv ew rec) [0..<?stop]"
  have r: "sorted_wrt (<) (row_position rec)" "0 \<le> hd (row_position rec)" "length (row_draft_tokens rec) = ?n" "length (row_hidden rec) = ?n"
    "length (row_topk_val rec) = ?n" "length (row_topk_idx rec) = ?n" "\<forall>r\<in>set (row_topk_val rec). length r = k" "\<forall>r\<in>set (row_topk_idx rec). length r = k"
    "\<forall>r\<in>set (row_draft_tokens rec). length r = k + 1" "\<forall>r\<in>set (row_draft_tokens rec). \<forall>i\<in>set r. 0 \<le> i \<and> i < int (length ew)"
    "\<forall>r\<in>set (row_topk_idx rec). \<forall>c\<in>set r. \<forall>i\<in>set c. 0 \<le> i"
    using rec by (auto simp: replayable_def Let_def is_matrix_def)
  have pos: "0 \<le> p \<and> p \<le> int ?stop" if "p \<in> set ?pos" for p
    using sorted_positions [OF r(1,2), of p] that set_py_slice [of "row_position rec" a b] by auto
  have tok: "j < length t \<and> 0 \<le> t ! j \<and> t ! j < int (length ew)" if tj: "t \<in> set ?tok" "j < k" for t j
  proof -
    have "t \<in> set (row_draft_tokens rec)" using tj(1) set_py_slice [of "row_draft_tokens rec" a b] by blast
    then show ?thesis using r(9,10) tj(2) by simp
  qed
  have len: "length ?tok = length ?pos" "length ?h = length ?pos" "length ?prefix = ?stop" "length ?pos = b - a"
    using r ab by simp_all
  obtain h' cache outputs where run: "rfold (replay_depth head ew ?pos ?stop ?tok) (?h, ?prefix, []) [0..<k] = Inr (h', cache, outputs)"
    and hid: "map (\<lambda>i. map (\<lambda>o'. o' ! i) outputs) [0..<length ?pos] =
      map (\<lambda>i. draft_path head kv attend ew (?h ! i) (?pos ! i) (?tok ! i) (take (nat (?pos ! i)) ?prefix) k) [0..<length ?pos]"
    using replay_hidden_ok [OF ma len(1-3) pos tok] by blast
  have path: "draft_path head kv attend ew (?h ! i) (?pos ! i) (?tok ! i) (take (nat (?pos ! i)) ?prefix) k = ?C (a + i)" if i: "i < b - a" for i
  proof -
    have "nat (?pos ! i) \<le> ?stop" using pos [of "?pos ! i"] i len(4) nth_mem [of i ?pos] by linarith
    then have "take (nat (?pos ! i)) ?prefix = map (committed_kv head kv ew rec) [0..<nat (?pos ! i)]" by (simp add: take_map take_upt)
    then show ?thesis using i ab r by (simp add: draft_cycle_def nth_py_slice)
  qed
  let ?H = "py_slice (map ?C [0..<?n]) a b"
  have H: "map (\<lambda>i. map (\<lambda>o'. o' ! i) outputs) [0..<length ?pos] = ?H"
  proof -
    have "map (\<lambda>i. map (\<lambda>o'. o' ! i) outputs) [0..<length ?pos] = map (\<lambda>i. ?C (a + i)) [0..<b - a]"
      unfolding hid unfolding len(4) using path by simp
    also have "\<dots> = ?H" using ab by (simp add: py_slice_map_upt)
    finally show ?thesis .
  qed
  have ids: "as_ids (py_slice (row_topk_idx rec) a b) = Inr (py_slice (map (map (map nat)) (row_topk_idx rec)) a b)"
    using as_ids_ok [of "py_slice (row_topk_idx rec) a b"] r(11) set_py_slice [of "row_topk_idx rec" a b] by (fastforce simp: map_py_slice)
  have sl: "dca_loss k (map (map (\<lambda>h. linear h lm)) ?H) (py_slice (row_topk_val rec) a b) (py_slice (map (map (map nat)) (row_topk_idx rec)) a b)
      (py_slice (row_accept_len rec) a b) = Inr (py_slice losses a b, py_slice alpha a b)"
    and la: "length alpha = ?n" "length (row_accept_len rec) = ?n"
    using dca_loss_slice [OF dca, of a b] r(5,6) by (simp_all add: map_py_slice comp_def)
  have "chunked_dca k ?H lm (py_slice (row_topk_val rec) a b) (py_slice (map (map (map nat)) (row_topk_idx rec)) a b) (py_slice (row_accept_len rec) a b) vc None
     = Inr (py_slice losses a b, map (\<lambda>i. map (\<lambda>j. if int j < py_slice (row_accept_len rec) a b ! i then py_slice alpha a b ! i ! j else - 1) [0..<k])
         [0..<length ?H], None)"
  proof (rule chunked_dca_eq [OF sl k])
    show "?H \<noteq> []" using ab by (simp flip: length_greater_0_conv)
    show "\<forall>r\<in>set ?H. length r = k" using set_py_slice [of "map ?C [0..<?n]" a b] by (auto simp: draft_cycle_def draft_path_def)
    show "\<forall>r\<in>set (py_slice (row_topk_val rec) a b). length r = k" using r(7) set_py_slice [of "row_topk_val rec" a b] by blast
    show "\<forall>x\<in>set (py_slice (map (map (map nat)) (row_topk_idx rec)) a b). length x = k"
      using r(8) set_py_slice [of "map (map (map nat)) (row_topk_idx rec)" a b] by auto
  qed (use r in simp_all)
  also have "map (\<lambda>i. map (\<lambda>j. if int j < py_slice (row_accept_len rec) a b ! i then py_slice alpha a b ! i ! j else - 1) [0..<k]) [0..<length ?H] = py_slice M a b"
    unfolding M using ab la by (intro nth_equalityI) (auto simp: nth_py_slice)
  finally show ?thesis
    unfolding replay_chunk_def Let_def hd_last_upt [OF ab(1), THEN conjunct1] hd_last_upt [OF ab(1), THEN conjunct2]
    by (simp add: clone_prefix_def cache_update_def run H ids del: length_py_slice)
qed

lemma replay_chunks_ok:
  fixes head :: "'kv mtp_head"
  assumes ma: "masked_attention (mh_layer head) kv attend" and rec: "replayable (length ew) k rec" and k: "0 < k" "0 < vc" "0 < chunk_size"
    and dca: "dca_loss k (map (\<lambda>i. map (\<lambda>h. linear h lm) (draft_cycle head kv attend ew rec k i)) [0..<length (row_position rec)])
        (row_topk_val rec) (map (map (map nat)) (row_topk_idx rec)) (row_accept_len rec) = Inr (losses, alpha)"
    and M: "M = map (\<lambda>i. map (\<lambda>j. if int j < row_accept_len rec ! i then alpha ! i ! j else - 1) [0..<k]) [0..<length (row_position rec)]"
  shows "replay_chunks head ew lm rec chunk_size vc False =
    Inr (map (\<lambda>b. (py_slice losses (hd b) (Suc (last b)), py_slice M (hd b) (Suc (last b)), None)) (chunks chunk_size [0..<length (row_position rec)]))"
proof -
  let ?n = "length (row_position rec)" and ?stop = "nat (last (row_position rec))"
  have r: "row_position rec \<noteq> []" "sorted_wrt (<) (row_position rec)" "0 \<le> hd (row_position rec)"
    "last (row_position rec) < int (length (row_prefix_hidden rec))" "last (row_position rec) < int (length (row_prefix_ids rec))"
    "\<And>i. i \<in> set (row_prefix_ids rec) \<Longrightarrow> 0 \<le> i \<and> i < int (length ew)"
    using rec by (auto simp: replayable_def Let_def)
  have stop: "?stop < length (row_prefix_hidden rec)" "?stop < length (row_prefix_ids rec)"
    using r(1,3,4,5) sorted_positions [OF r(2,3), of "last (row_position rec)"] by (auto simp: nat_less_iff)
  have w: "row_width (row_topk_val rec) = k" "row_width (row_draft_tokens rec) = k + 1"
    using rec r(1) by (auto simp: replayable_def Let_def is_matrix_def row_width_def split: list.split)
  have pre: "prefill_prefix head ew rec ?stop 256 = Inr (map (committed_kv head kv ew rec) [0..<?stop])"
    using stop r(6) by (intro prefill_prefix_ok [OF ma]) auto
  have neg: "\<not> (\<exists>p\<in>set (row_position rec). p < 0)" using sorted_positions [OF r(2,3)] by force
  have "rmap (replay_chunk head ew lm rec vc False ?stop k (map (committed_kv head kv ew rec) [0..<?stop])) (chunks chunk_size [0..<?n]) =
    Inr (map (\<lambda>b. (py_slice losses (hd b) (Suc (last b)), py_slice M (hd b) (Suc (last b)), None)) (chunks chunk_size [0..<?n]))"
  proof (rule rmap_total)
    fix blk assume "blk \<in> set (chunks chunk_size [0..<?n])"
    then obtain s e where b: "blk = [s..<e]" "s < e" "e \<le> ?n" using chunks_upt_blocks [OF k(3)] by blast
    then show "replay_chunk head ew lm rec vc False ?stop k (map (committed_kv head kv ew rec) [0..<?stop]) blk =
      Inr (py_slice losses (hd blk) (Suc (last blk)), py_slice M (hd blk) (Suc (last blk)), None)"
      using replay_chunk_ok [OF ma rec k(1,2) dca b(2,3) M] hd_last_upt [OF b(2)] by simp
  qed
  then show ?thesis using r(1,2) neg stop w k(3) pre by (simp add: replay_chunks_def Let_def)
qed

text \<open>
  C1. Replay equals drafting. For a well-formed record and a decoder layer that attends to the
  entries its mask leaves visible, \<open>replay_chunks\<close> returns, for every positive chunk size and vocabulary
  chunk, and the concatenation of what it yields is the loss and the acceptance of the recurrent
  drafting in which each cycle runs alone, one depth at a time, on the keys and values of the
  committed positions before its own. Cycles processed together in a chunk never see each other.
\<close>
theorem replay_chunks_equals_drafting:
  fixes head :: "'kv mtp_head"
  assumes "masked_attention (mh_layer head) kv attend" "replayable (length ew) k rec"
    and "0 < k" "0 < vocab_chunk_size" "0 < chunk_size"
    and "dca_loss k (map (\<lambda>i. map (\<lambda>h. linear h lm) (draft_cycle head kv attend ew rec k i)) [0..<length (row_position rec)])
        (row_topk_val rec) (map (map (map nat)) (row_topk_idx rec)) (row_accept_len rec) = Inr (losses, alpha)"
  shows "\<exists>parts. replay_chunks head ew lm rec chunk_size vocab_chunk_size False = Inr parts \<and>
    concat (map fst parts) = losses \<and> (\<forall>p\<in>set parts. length (fst p) \<le> chunk_size) \<and>
    concat (map (\<lambda>p. fst (snd p)) parts) =
      map (\<lambda>i. map (\<lambda>j. if int j < row_accept_len rec ! i then alpha ! i ! j else - 1) [0..<k]) [0..<length (row_position rec)]"
proof -
  define M where "M = map (\<lambda>i. map (\<lambda>j. if int j < row_accept_len rec ! i then alpha ! i ! j else - 1) [0..<k]) [0..<length (row_position rec)]"
  have n: "length losses = length (row_position rec)"
    using dca_loss_slice [OF assms(6)] assms(2) by (auto simp: replayable_def Let_def is_matrix_def)
  have bound: "length (py_slice losses (hd b) (Suc (last b))) \<le> chunk_size" if bin: "b \<in> set (chunks chunk_size [0..<length (row_position rec)])" for b
  proof -
    obtain s e where "b = [s..<e]" "s < e" using chunks_upt_blocks [OF assms(5) bin] by blast
    then show ?thesis using chunks_bound [OF bin] hd_last_upt [of s e] by simp
  qed
  have len: "length M = length (row_position rec)" by (simp add: M_def)
  have l: "concat (map (\<lambda>b. py_slice losses (hd b) (Suc (last b))) (chunks chunk_size [0..<length (row_position rec)])) = losses"
    using concat_slices [OF assms(5), of losses] n by simp
  have m: "concat (map (\<lambda>b. py_slice M (hd b) (Suc (last b))) (chunks chunk_size [0..<length (row_position rec)])) = M"
    using concat_slices [OF assms(5), of M] len by simp
  show ?thesis
    unfolding replay_chunks_ok [OF assms M_def] M_def [symmetric] using l m bound by (auto simp: comp_def)
qed

section \<open>Witness\<close>

text \<open>A decoder layer of one row and one key/value entry per position that counts what it can see.\<close>

definition example_layer :: "vec list \<Rightarrow> int list \<Rightarrow> (vec \<times> int) list \<Rightarrow> attn_mask \<Rightarrow> vec list \<times> (vec \<times> int) list" where
  "example_layer fs ps cache m =
     (let all = cache @ zip fs ps in
      (map (\<lambda>i. [real (length (filter (\<lambda>(_, b). b \<noteq> None) (zip all (m ! i))))]) [0..<length fs], all))"

definition example_head :: "(vec \<times> int) mtp_head" where
  "example_head = \<lparr> mh_mimo = True, mh_norm_embedding = id, mh_norm_hidden = id, mh_fc = (\<lambda>v. v), mh_layer = example_layer, mh_norm = id \<rparr>"

definition example_row :: "real mtp_row" where
  "example_row = \<lparr> row_hidden = [[1], [3]], row_draft_tokens = [[0, 1], [1, 0]], row_topk_val = [[[0]], [[0]]],
     row_topk_idx = [[[0]], [[0]]], row_position = [0, 2], row_accept_len = [1, 2], row_prefix_hidden = [[1], [2], [3]],
     row_prefix_ids = [0, 1, 1], row_targets = None \<rparr>"

lemma example_attention: "masked_attention (mh_layer example_head) (\<lambda>f p. (f, p)) (\<lambda>_ _ kvs. [real (length kvs)])"
  by (auto simp: masked_attention_def example_head_def example_layer_def Let_def)

lemma overlap_single: "acceptance_overlap (linear [x] [[1]]) [0] [0] = Inr 1"
  by (simp add: acceptance_overlap_def linear_def softmax_def py_get_def overlap_def clamp_def)

lemma example_drafts: "map (draft_cycle example_head (\<lambda>f p. (f, p)) (\<lambda>_ _ kvs. [real (length kvs)]) [[1], [2]] example_row 1) [0, 1] = [[[1]], [[3]]]"
  by (simp add: draft_cycle_def draft_path_def example_head_def example_row_def fuse_def numeral_2_eq_2)

lemma example_replay_loss:
  "dca_loss 1 [[linear [1] [[1]]], [linear [3] [[1]]]] [[[0]], [[0]]] [[[0]], [[0]]] [1, 2] = Inr ([dca_row [1] 1, dca_row [1] 2], [[1], [1]])"
  by (simp add: dca_loss_def overlap_single dca_from_alpha_def validate_lengths_def)

lemma example_replay_dca:
  "dca_loss 1 (map (\<lambda>i. map (\<lambda>h. linear h [[1]]) (draft_cycle example_head (\<lambda>f p. (f, p)) (\<lambda>_ _ kvs. [real (length kvs)]) [[1], [2]] example_row 1 i))
      [0..<length (row_position example_row)]) (row_topk_val example_row) (map (map (map nat)) (row_topk_idx example_row)) (row_accept_len example_row)
    = Inr ([dca_row [1] 1, dca_row [1] 2], [[1], [1]])"
proof -
  have two: "[0..<length (row_position example_row)] = [0, 1]" by (simp add: example_row_def)
  show ?thesis unfolding two using example_drafts example_replay_loss by (simp add: example_row_def)
qed

lemma example_replayable: "replayable (length [[1], [2 :: real]]) 1 example_row"
  by (simp add: replayable_def example_row_def is_matrix_def)

lemma example_replay:
  "\<exists>parts. replay_chunks example_head [[1], [2]] [[1]] example_row 1 5 False = Inr parts"
  using replay_chunks_ok [OF example_attention example_replayable _ _ _ example_replay_dca refl, of 5 1] by auto

theorem replay_chunks_equals_drafting_witness:
  "\<exists>parts. replay_chunks example_head [[1], [2]] [[1]] example_row 1 5 False = Inr parts \<and>
     concat (map fst parts) = [dca_row [1] 1, dca_row [1] 2]"
  using replay_chunks_equals_drafting [OF example_attention example_replayable _ _ _ example_replay_dca, of 5 1] by auto
end
