(* ===== verification/Metrics.thy ===== *)
theory Metrics
  imports Prelude
begin

text \<open>
  The comparison metrics of a run (\<open>verl/trainer/mtp/metrics.py\<close>): the masked mean advantage of
  every trajectory, the statistics over trajectories, and the session counters of
  \<open>ComparisonTracker\<close>.

  A floating-point value is a \<open>real option\<close>: \<open>None\<close> stands for a value that is not finite. A sum with
  such a term, and a mean over no terms, is not finite. Rounding is not modelled.
\<close>

section \<open>Trajectory means\<close>

text \<open>
  A batch of token rows: a padded tensor of shape [rows, columns], a nested tensor whose rows have
  their own lengths, or a padded tensor of another rank.
\<close>

datatype 'a token_rows = Padded nat "'a list list" | Nested "'a list list" | Other_Rank nat

fun is_nested :: "'a token_rows \<Rightarrow> bool" where
  "is_nested (Nested _) = True"
| "is_nested _ = False"

fun rows_of :: "'a token_rows \<Rightarrow> 'a list list" where
  "rows_of (Padded _ rs) = rs"
| "rows_of (Nested rs) = rs"
| "rows_of (Other_Rank _) = []"

fun shape_of :: "'a token_rows \<Rightarrow> nat list" where
  "shape_of (Padded w rs) = [length rs, w]"
| "shape_of _ = []"

definition fsum :: "real option list \<Rightarrow> real option" where
  "fsum xs = (if None \<in> set xs then None else Some (sum_list (map the xs)))"

definition fdiv :: "real option \<Rightarrow> nat \<Rightarrow> real option" where
  "fdiv x n = (case x of None \<Rightarrow> None | Some v \<Rightarrow> if n = 0 then None else Some (v / real n))"

definition masked_row_mean :: "real option list \<Rightarrow> int list \<Rightarrow> real option" where
  "masked_row_mean values mask_row =
     fdiv (fsum (map (\<lambda>(v, m). if m \<noteq> 0 then v else Some 0) (zip values mask_row))) (length (filter (\<lambda>m. m \<noteq> 0) mask_row))"

definition selected_row_mean :: "real option list \<Rightarrow> int list \<Rightarrow> real option" where
  "selected_row_mean values mask_row =
     (let selected = map fst (filter (\<lambda>(_, m). m \<noteq> 0) (zip values mask_row)) in
      if selected \<noteq> [] then fdiv (fsum selected) (length selected) else None)"

definition trajectory_advantages :: "real option token_rows \<Rightarrow> int token_rows \<Rightarrow> real option list result" where
  "trajectory_advantages advantages response_mask =
     (if (case advantages of Other_Rank _ \<Rightarrow> True | _ \<Rightarrow> False)
      then Inl (ValueError ''advantages must have shape [trajectories, tokens]'')
      else if (case response_mask of Other_Rank _ \<Rightarrow> True | _ \<Rightarrow> False)
      then Inl (ValueError ''response_mask must have shape [trajectories, tokens]'')
      else if \<not> is_nested advantages \<and> \<not> is_nested response_mask
      then if shape_of advantages \<noteq> shape_of response_mask
           then Inl (ValueError ''advantages and response_mask must have the same shape'')
           else Inr (map (\<lambda>(v, m). masked_row_mean v m) (zip (rows_of advantages) (rows_of response_mask)))
      else let advantage_rows = rows_of advantages; mask_rows = rows_of response_mask in
        if length advantage_rows \<noteq> length mask_rows
        then Inl (ValueError ''advantages and response_mask have different trajectory counts'')
        else rmap (\<lambda>(v, m). if length v \<noteq> length m
                             then Inl (ValueError ''advantages and response_mask have different trajectory shapes'')
                             else Inr (selected_row_mean v m)) (zip advantage_rows mask_rows))"

section \<open>Statistics over trajectories\<close>

record advantage_statistics =
  total_trajectories :: int
  valid_trajectories :: int
  empty_trajectories :: int
  nonfinite_trajectories :: int
  advantage_mean :: "real option"
  advantage_std :: "real option"
  positive_fraction :: "real option"
  negative_fraction :: "real option"
  zero_fraction :: "real option"

definition mean_of :: "real list \<Rightarrow> real" where
  "mean_of xs = sum_list xs / real (length xs)"

definition fraction_of :: "(real \<Rightarrow> bool) \<Rightarrow> real list \<Rightarrow> real" where
  "fraction_of P xs = real (length (filter P xs)) / real (length xs)"

definition trajectory_statistics :: "real option token_rows \<Rightarrow> int token_rows \<Rightarrow> advantage_statistics result" where
  "trajectory_statistics advantages response_mask =
     rbind (trajectory_advantages advantages response_mask) (\<lambda>means.
     let valid = map the (filter (\<lambda>x. x \<noteq> None) means);
         empty_count = int (length (filter (\<lambda>m. \<forall>x\<in>set m. x = 0) (rows_of response_mask)));
         only_valid = (\<lambda>v. if valid \<noteq> [] then Some v else None)
     in Inr \<lparr> total_trajectories = int (length means), valid_trajectories = int (length valid),
              empty_trajectories = empty_count,
              nonfinite_trajectories = int (length means) - int (length valid) - empty_count,
              advantage_mean = only_valid (mean_of valid),
              advantage_std = only_valid (sqrt (mean_of (map (\<lambda>x. (x - mean_of valid)\<^sup>2) valid))),
              positive_fraction = only_valid (fraction_of (\<lambda>x. x > 0) valid),
              negative_fraction = only_valid (fraction_of (\<lambda>x. x < 0) valid),
              zero_fraction = only_valid (fraction_of (\<lambda>x. x = 0) valid) \<rparr>)"

section \<open>\<open>ComparisonTracker\<close>\<close>

record tracker =
  training_seconds :: real
  evaluation_seconds :: real
  probe_seconds :: real
  e2e_seconds :: real
  generated_tokens :: int
  gpu_hours :: real

definition tracker_init :: tracker where
  "tracker_init = \<lparr> training_seconds = 0, evaluation_seconds = 0, probe_seconds = 0, e2e_seconds = 0, generated_tokens = 0, gpu_hours = 0 \<rparr>"

type_synonym timing = "(string \<times> real option) list"

definition seconds_of :: "timing \<Rightarrow> string \<Rightarrow> real result" where
  "seconds_of timing_raw key =
     (case (case map_of timing_raw key of None \<Rightarrow> Some 0 | Some v \<Rightarrow> v) of
        None \<Rightarrow> Inl (ValueError (key @ '' timing must be finite and nonnegative''))
      | Some x \<Rightarrow> if x < 0 then Inl (ValueError (key @ '' timing must be finite and nonnegative'')) else Inr x)"

definition has_timer :: "timing \<Rightarrow> string \<Rightarrow> bool" where
  "has_timer timing_raw key \<longleftrightarrow> key \<in> fst ` set timing_raw"

definition tracker_update ::
  "tracker \<Rightarrow> timing \<Rightarrow> real option \<Rightarrow> real option \<Rightarrow> (tracker \<times> (string \<times> real) list) result" where
  "tracker_update self timing_raw n_gpus response_tokens =
     (if has_timer timing_raw ''probe'' \<and> has_timer timing_raw ''mtp_probe''
      then Inl (ValueError ''Use only one probe timer: probe or mtp_probe'')
      else rbind (seconds_of timing_raw ''step'') (\<lambda>step.
           rbind (seconds_of timing_raw ''testing'') (\<lambda>evaluation.
           rbind (seconds_of timing_raw (if has_timer timing_raw ''mtp_probe'' then ''mtp_probe'' else ''probe'')) (\<lambda>probe.
           if probe > step then Inl (ValueError ''Probe time cannot exceed the enclosing step time'')
           else case n_gpus of
               None \<Rightarrow> Inl (ValueError ''n_gpus must be positive and finite'')
             | Some gpus \<Rightarrow>
           if gpus \<le> 0 then Inl (ValueError ''n_gpus must be positive and finite'')
           else case response_tokens of
               None \<Rightarrow> Inl (ValueError ''response_tokens must be a nonnegative integer'')
             | Some tokens \<Rightarrow>
           if tokens < 0 \<or> of_int \<lfloor>tokens\<rfloor> \<noteq> tokens then Inl (ValueError ''response_tokens must be a nonnegative integer'')
           else let training = step - probe; e2e = step + evaluation; hours = e2e * gpus / 3600;
                    self' = \<lparr> training_seconds = training_seconds self + training,
                              evaluation_seconds = evaluation_seconds self + evaluation,
                              probe_seconds = probe_seconds self + probe,
                              e2e_seconds = e2e_seconds self + e2e,
                              generated_tokens = generated_tokens self + \<lfloor>tokens\<rfloor>,
                              gpu_hours = gpu_hours self + hours \<rparr>
                in Inr (self',
                    [(''comparison/schema_version'', 1),
                     (''comparison/config/n_gpus'', gpus),
                     (''comparison/time/step_evaluation_s'', evaluation),
                     (''comparison/time/step_probe_s'', probe),
                     (''comparison/time/step_e2e_s'', e2e),
                     (''comparison/time/step_gpu_hours'', hours),
                     (''comparison/time/session_training_s'', training_seconds self'),
                     (''comparison/time/session_evaluation_s'', evaluation_seconds self'),
                     (''comparison/time/session_probe_s'', probe_seconds self'),
                     (''comparison/time/session_e2e_s'', e2e_seconds self'),
                     (''comparison/time/session_gpu_hours'', gpu_hours self'),
                     (''comparison/tokens/step_generated'', of_int \<lfloor>tokens\<rfloor>),
                     (''comparison/tokens/session_generated'', of_int (generated_tokens self'))] @
                    (if has_timer timing_raw ''step'' then [(''comparison/time/step_training_s'', training)] else []))))))"

text \<open>
  A session: every update either returns and changes the counters, or raises before any counter is
  touched. A caller that keeps going continues with the old counters.
\<close>

inductive session :: "tracker \<Rightarrow> bool" where
  session_init: "session tracker_init"
| session_update: "session t \<Longrightarrow> tracker_update t timing_raw n_gpus response_tokens = Inr (t', res) \<Longrightarrow> session t'"

section \<open>Trajectory means: both paths agree\<close>

lemma fsum_masked:
  "length v = length m \<Longrightarrow>
   fsum (map (\<lambda>(v, m). if m \<noteq> 0 then v else Some 0) (zip v m)) = fsum (map fst (filter (\<lambda>(_, m). m \<noteq> (0 :: int)) (zip v m)))"
proof (induction v m rule: list_induct2)
  case (Cons x xs y ys)
  then show ?case by (auto simp: fsum_def split: if_splits)
qed (simp add: fsum_def)

lemma selected_length: "length v = length m \<Longrightarrow> length (filter (\<lambda>(_, m). m \<noteq> 0) (zip v m)) = length (filter (\<lambda>m. m \<noteq> (0 :: int)) m)"
  by (induction v m rule: list_induct2) auto

lemma masked_eq_selected:
  assumes "length v = length m"
  shows "masked_row_mean v m = selected_row_mean v m"
proof -
  let ?s = "map fst (filter (\<lambda>(_, m). m \<noteq> 0) (zip v m))"
  have "masked_row_mean v m = fdiv (fsum ?s) (length ?s)"
    unfolding masked_row_mean_def fsum_masked [OF assms] by (simp add: selected_length [OF assms])
  then show ?thesis by (cases "?s = []") (simp_all add: selected_row_mean_def fdiv_def split: option.split)
qed

text \<open>The mean over the tokens of the mask: undefined on an empty mask, not finite when one of them is not.\<close>

lemma selected_row_mean_eq:
  assumes "length v = length m"
  shows "selected_row_mean v m = (if \<forall>x\<in>set m. x = 0 then None
    else if \<exists>i<length m. m ! i \<noteq> 0 \<and> v ! i = None then None
    else Some (mean_of (map (\<lambda>i. the (v ! i)) (filter (\<lambda>i. m ! i \<noteq> 0) [0..<length m]))))"
proof -
  let ?I = "filter (\<lambda>i. m ! i \<noteq> 0) [0..<length m]"
  have z: "zip v m = map (\<lambda>i. (v ! i, m ! i)) [0..<length m]" using assms by (intro nth_equalityI) auto
  have sel: "map fst (filter (\<lambda>(_, m). m \<noteq> 0) (zip v m)) = map ((!) v) ?I"
    unfolding z filter_map by (simp add: comp_def)
  have e: "?I = [] \<longleftrightarrow> (\<forall>x\<in>set m. x = 0)" by (auto simp: filter_empty_conv all_set_conv_all_nth)
  have nn: "None \<in> set (map ((!) v) ?I) \<longleftrightarrow> (\<exists>i<length m. m ! i \<noteq> 0 \<and> v ! i = None)"
    by (auto simp: image_iff)
  have "selected_row_mean v m = (if ?I = [] then None else if None \<in> set (map ((!) v) ?I) then None
      else Some (sum_list (map the (map ((!) v) ?I)) / real (length ?I)))"
    unfolding selected_row_mean_def sel Let_def by (simp add: fsum_def fdiv_def)
  then show ?thesis unfolding e nn by (simp add: mean_of_def comp_def)
qed

fun wf_rows :: "'a token_rows \<Rightarrow> bool" where
  "wf_rows (Padded w rs) \<longleftrightarrow> (\<forall>r\<in>set rs. length r = w)"
| "wf_rows _ \<longleftrightarrow> True"

lemma trajectory_advantages_rows:
  assumes "trajectory_advantages adv msk = Inr means" "wf_rows adv" "wf_rows msk"
  shows "length (rows_of adv) = length (rows_of msk) \<and> (\<forall>(v, m)\<in>set (zip (rows_of adv) (rows_of msk)). length v = length m) \<and>
    means = map (\<lambda>(v, m). selected_row_mean v m) (zip (rows_of adv) (rows_of msk))"
proof (cases "\<not> is_nested adv \<and> \<not> is_nested msk")
  case True
  then obtain w rs w' rs' where p: "adv = Padded w rs" "msk = Padded w' rs'"
    using assms(1) by (cases adv; cases msk) (auto simp: trajectory_advantages_def)
  then have e: "length rs = length rs'" "w = w'" "means = map (\<lambda>(v, m). masked_row_mean v m) (zip rs rs')"
    using assms(1) by (auto simp: trajectory_advantages_def split: if_splits)
  have l: "length v = length m" if "(v, m) \<in> set (zip rs rs')" for v m
    using assms(2,3) p e(2) set_zip_leftD [OF that] set_zip_rightD [OF that] by simp
  then show ?thesis using p e by (auto intro!: masked_eq_selected)
next
  case False
  then have l: "length (rows_of adv) = length (rows_of msk)"
    and r: "rmap (\<lambda>(v, m). if length v \<noteq> length m
        then Inl (ValueError ''advantages and response_mask have different trajectory shapes'')
        else Inr (selected_row_mean v m)) (zip (rows_of adv) (rows_of msk)) = Inr means"
    using assms(1) by (auto simp: trajectory_advantages_def Let_def split: if_splits)
  have a: "list_all2 (\<lambda>(v, m) y. length v = length m \<and> y = selected_row_mean v m) (zip (rows_of adv) (rows_of msk)) means"
    using r unfolding rmap_eq_Inr by (rule list_all2_mono) (auto split: if_splits)
  then have "\<forall>(v, m)\<in>set (zip (rows_of adv) (rows_of msk)). length v = length m"
    using l by (auto simp: list_all2_conv_all_nth set_zip)
  moreover have "means = map (\<lambda>(v, m). selected_row_mean v m) (zip (rows_of adv) (rows_of msk))"
    using a l by (intro nth_equalityI) (auto simp: list_all2_conv_all_nth split: prod.splits)
  ultimately show ?thesis using l by blast
qed

section \<open>Statistics\<close>

lemma filter_zip_snd: "length xs = length ys \<Longrightarrow> length (filter (\<lambda>(_, y). P y) (zip xs ys)) = length (filter P ys)"
  by (induction xs ys rule: list_induct2) auto

lemma filter_count3:
  "(\<And>x. x \<in> set xs \<Longrightarrow> (if P x then 1 else 0) + (if Q x then 1 else 0) + (if R x then 1 else 0) = (1 :: nat)) \<Longrightarrow>
   length (filter P xs) + length (filter Q xs) + length (filter R xs) = length xs"
  by (induction xs) (force split: if_splits)+

lemma sign_fractions: "xs \<noteq> [] \<Longrightarrow> fraction_of (\<lambda>x. x > 0) xs + fraction_of (\<lambda>x. x < 0) xs + fraction_of (\<lambda>x. x = 0) xs = 1"
proof -
  assume "xs \<noteq> []"
  moreover have "length (filter (\<lambda>x. x > 0) xs) + length (filter (\<lambda>x. x < 0) xs) + length (filter (\<lambda>x. x = 0) xs) = length xs"
    by (rule filter_count3) auto
  then have "real (length (filter (\<lambda>x. x > 0) xs)) + real (length (filter (\<lambda>x. x < 0) xs)) + real (length (filter (\<lambda>x. x = 0) xs)) = real (length xs)"
    by (metis of_nat_add)
  ultimately show ?thesis by (simp add: fraction_of_def flip: add_divide_distrib)
qed

text \<open>
  The rows whose mask selects a value that is not finite.
\<close>

definition nonfinite_row :: "real option list \<times> int list \<Rightarrow> bool" where
  "nonfinite_row vm \<longleftrightarrow> (\<exists>i<length (snd vm). snd vm ! i \<noteq> 0 \<and> fst vm ! i = None)"

text \<open>
  The counts of \<open>trajectory_statistics\<close> classify every trajectory once: total = valid + empty +
  nonfinite, where empty counts the rows whose mask selects no token and nonfinite the rows whose
  mask selects a value that is not finite, on padded and nested inputs alike and whatever the
  padding holds; with a valid trajectory the three sign fractions sum to one.
\<close>
theorem trajectory_statistics_counts:
  assumes "trajectory_statistics adv msk = Inr st" "wf_rows adv" "wf_rows msk"
  shows "total_trajectories st = valid_trajectories st + empty_trajectories st + nonfinite_trajectories st \<and>
    total_trajectories st = int (length (rows_of adv)) \<and>
    empty_trajectories st = int (length (filter (\<lambda>m. \<forall>x\<in>set m. x = 0) (rows_of msk))) \<and>
    nonfinite_trajectories st = int (length (filter nonfinite_row (zip (rows_of adv) (rows_of msk)))) \<and>
    (0 < valid_trajectories st \<longrightarrow> the (positive_fraction st) + the (negative_fraction st) + the (zero_fraction st) = 1)"
proof -
  obtain means where m: "trajectory_advantages adv msk = Inr means" using assms(1) by (auto simp: trajectory_statistics_def rbind_eq_Inr)
  let ?z = "zip (rows_of adv) (rows_of msk)"
  have r: "length (rows_of adv) = length (rows_of msk)" "\<forall>(v, m)\<in>set ?z. length v = length m"
    "means = map (\<lambda>(v, m). selected_row_mean v m) ?z"
    using trajectory_advantages_rows [OF m assms(2,3)] by auto
  have sel: "selected_row_mean v m \<noteq> None \<longleftrightarrow> \<not> (\<forall>x\<in>set m. x = 0) \<and> \<not> nonfinite_row (v, m)" if "(v, m) \<in> set ?z" for v m
  proof -
    have "length v = length m" using that r(2) by auto
    then show ?thesis by (auto simp: selected_row_mean_eq nonfinite_row_def)
  qed
  have excl: "\<not> nonfinite_row (v, m)" if "\<forall>x\<in>set m. x = 0" for v m using that by (auto simp: nonfinite_row_def)
  have count: "length (filter (\<lambda>(v, m). selected_row_mean v m \<noteq> None) ?z) + length (filter (\<lambda>(v, m). \<forall>x\<in>set m. x = 0) ?z) + length (filter nonfinite_row ?z) = length ?z"
  proof (rule filter_count3)
    fix x assume x: "x \<in> set ?z"
    obtain v m where "x = (v, m)" by (cases x) blast
    then show "(if case x of (v, m) \<Rightarrow> selected_row_mean v m \<noteq> None then 1 else 0) + (if case x of (v, m) \<Rightarrow> \<forall>x\<in>set m. x = 0 then 1 else 0) +
        (if nonfinite_row x then 1 else 0) = (1 :: nat)"
      using sel [of v m] excl [of m v] x by (cases "nonfinite_row (v, m)"; cases "\<forall>x\<in>set m. x = 0") simp_all
  qed
  have e: "length (filter (\<lambda>(v, m). \<forall>x\<in>set m. x = 0) ?z) = length (filter (\<lambda>m. \<forall>x\<in>set m. x = 0) (rows_of msk))"
    using r(1) by (rule filter_zip_snd)
  have v: "length (filter (\<lambda>x. x \<noteq> None) means) = length (filter (\<lambda>(v, m). selected_row_mean v m \<noteq> None) ?z)"
    unfolding r(3) by (simp add: filter_map comp_def case_prod_unfold)
  have lm: "length means = length (rows_of adv)" "length ?z = length (rows_of adv)" using r by simp_all
  have st: "total_trajectories st = int (length means)" "valid_trajectories st = int (length (filter (\<lambda>x. x \<noteq> None) means))"
    "empty_trajectories st = int (length (filter (\<lambda>m. \<forall>x\<in>set m. x = 0) (rows_of msk)))"
    "nonfinite_trajectories st = total_trajectories st - valid_trajectories st - empty_trajectories st"
    using assms(1) m by (auto simp: trajectory_statistics_def Let_def)
  have "0 < valid_trajectories st \<longrightarrow> the (positive_fraction st) + the (negative_fraction st) + the (zero_fraction st) = 1"
    using assms(1) m sign_fractions [of "map the (filter (\<lambda>x. x \<noteq> None) means)"] by (auto simp: trajectory_statistics_def Let_def)
  then show ?thesis using st count e v lm by linarith
qed

section \<open>The tracker\<close>

definition tracker_inv :: "tracker \<Rightarrow> bool" where
  "tracker_inv t \<longleftrightarrow> e2e_seconds t = training_seconds t + probe_seconds t + evaluation_seconds t \<and>
     0 \<le> training_seconds t \<and> 0 \<le> probe_seconds t \<and> 0 \<le> evaluation_seconds t \<and> 0 \<le> gpu_hours t \<and> 0 \<le> generated_tokens t"

lemma seconds_of_nonneg: "seconds_of ts key = Inr x \<Longrightarrow> 0 \<le> x"
  by (auto simp: seconds_of_def split: option.splits if_splits)

lemma tracker_update_state:
  assumes "tracker_update t ts g r = Inr (t', res)"
  shows "\<exists>step ev probe gpus n. 0 \<le> step \<and> 0 \<le> ev \<and> 0 \<le> probe \<and> probe \<le> step \<and> 0 < gpus \<and> 0 \<le> n \<and>
    t' = \<lparr> training_seconds = training_seconds t + (step - probe), evaluation_seconds = evaluation_seconds t + ev,
           probe_seconds = probe_seconds t + probe, e2e_seconds = e2e_seconds t + (step + ev),
           generated_tokens = generated_tokens t + n, gpu_hours = gpu_hours t + (step + ev) * gpus / 3600 \<rparr>"
proof -
  obtain step ev probe where s: "seconds_of ts ''step'' = Inr step" "seconds_of ts ''testing'' = Inr ev"
    "seconds_of ts (if has_timer ts ''mtp_probe'' then ''mtp_probe'' else ''probe'') = Inr probe"
    using assms unfolding tracker_update_def by (auto simp: rbind_eq_Inr split: if_splits)
  obtain gpus tokens where g: "g = Some gpus" "r = Some tokens"
    using assms s unfolding tracker_update_def by (cases g; cases r) (auto simp: rbind_eq_Inr split: if_splits)
  have c: "probe \<le> step" "0 < gpus" "0 \<le> tokens"
    using assms s unfolding tracker_update_def g by (simp_all split: if_splits)
  have t': "t' = \<lparr> training_seconds = training_seconds t + (step - probe), evaluation_seconds = evaluation_seconds t + ev,
           probe_seconds = probe_seconds t + probe, e2e_seconds = e2e_seconds t + (step + ev),
           generated_tokens = generated_tokens t + \<lfloor>tokens\<rfloor>, gpu_hours = gpu_hours t + (step + ev) * gpus / 3600 \<rparr>"
    using assms s unfolding tracker_update_def g Let_def by (simp split: if_splits)
  have n: "0 \<le> \<lfloor>tokens\<rfloor>" using c(3) by simp
  show ?thesis using seconds_of_nonneg [OF s(1)] seconds_of_nonneg [OF s(2)] seconds_of_nonneg [OF s(3)] c n t' by blast
qed

lemma tracker_update_inv:
  assumes "tracker_inv t" "tracker_update t ts g r = Inr (t', res)"
  shows "tracker_inv t'"
proof -
  obtain step ev probe gpus n where u: "0 \<le> step" "0 \<le> ev" "0 \<le> probe" "probe \<le> step" "0 < gpus" "0 \<le> n"
    and t': "t' = \<lparr> training_seconds = training_seconds t + (step - probe), evaluation_seconds = evaluation_seconds t + ev,
           probe_seconds = probe_seconds t + probe, e2e_seconds = e2e_seconds t + (step + ev),
           generated_tokens = generated_tokens t + n, gpu_hours = gpu_hours t + (step + ev) * gpus / 3600 \<rparr>"
    using tracker_update_state [OF assms(2)] by blast
  have "0 \<le> (step + ev) * gpus / 3600" using u by simp
  then show ?thesis using assms(1) u unfolding t' tracker_inv_def by simp
qed

text \<open>
  C40. In every state a session of \<open>ComparisonTracker\<close> reaches, the end-to-end time is exactly training
  plus probe plus evaluation time, and no counter is negative.
\<close>
theorem tracker_session_invariant:
  assumes "session t"
  shows "e2e_seconds t = training_seconds t + probe_seconds t + evaluation_seconds t \<and>
    0 \<le> training_seconds t \<and> 0 \<le> probe_seconds t \<and> 0 \<le> evaluation_seconds t \<and> 0 \<le> gpu_hours t \<and> 0 \<le> generated_tokens t"
proof -
  from assms have "tracker_inv t"
  proof (induction rule: session.induct)
    case session_init
    show ?case by (simp add: tracker_init_def tracker_inv_def)
  qed (rule tracker_update_inv)
  then show ?thesis by (simp add: tracker_inv_def)
qed

section \<open>Witnesses\<close>

theorem trajectory_statistics_counts_witness:
  "\<exists>st. trajectory_statistics (Padded 2 [[Some 1, None], [Some 2, Some 2], [None, Some 1]]) (Padded 2 [[1, 0], [0, 0], [1, 1]]) = Inr st \<and>
     total_trajectories st = valid_trajectories st + empty_trajectories st + nonfinite_trajectories st \<and> nonfinite_trajectories st = 1"
proof -
  let ?a = "Padded 2 [[Some 1, None], [Some 2, Some 2], [None, Some 1]]" and ?m = "Padded 2 [[1, 0], [0, 0], [1, 1]]"
  have "\<exists>st. trajectory_statistics ?a ?m = Inr st"
    by (simp add: trajectory_statistics_def trajectory_advantages_def Let_def)
  then obtain st where st: "trajectory_statistics ?a ?m = Inr st" ..
  have nf: "length (filter nonfinite_row (zip (rows_of ?a) (rows_of ?m))) = 1"
    by (simp add: nonfinite_row_def All_less_Suc Ex_less_Suc numeral_2_eq_2)
  show ?thesis using trajectory_statistics_counts [OF st] st nf by (intro exI [of _ st]) simp
qed

theorem tracker_session_invariant_witness:
  "\<exists>t res. tracker_update tracker_init [(''step'', Some 10), (''mtp_probe'', Some 3), (''testing'', Some 2)] (Some 8) (Some 100) = Inr (t, res) \<and>
     e2e_seconds t = training_seconds t + probe_seconds t + evaluation_seconds t \<and> e2e_seconds t = 12 \<and> training_seconds t = 7"
proof -
  have "\<exists>t res. tracker_update tracker_init [(''step'', Some 10), (''mtp_probe'', Some 3), (''testing'', Some 2)] (Some 8) (Some 100) = Inr (t, res) \<and>
      e2e_seconds t = 12 \<and> training_seconds t = 7"
    by (simp add: tracker_update_def has_timer_def seconds_of_def tracker_init_def Let_def)
  then obtain t res where u: "tracker_update tracker_init [(''step'', Some 10), (''mtp_probe'', Some 3), (''testing'', Some 2)] (Some 8) (Some 100) = Inr (t, res)"
    "e2e_seconds t = 12" "training_seconds t = 7" by blast
  show ?thesis using tracker_session_invariant [OF session_update [OF session_init u(1)]] u by blast
qed

end
