(* ===== verification/Engine.thy ===== *)
theory Engine
  imports Replay Metrics
begin

text \<open>
  The update of the draft head (\<open>verl/trainer/mtp/engine.py\<close>): the optimizer groups, the learning-rate
  schedule and \<open>backward_head\<close>, which replays the records of one rank and accumulates the gradient of
  the loss.

  \<open>backward_head\<close> is modelled by the scalar it differentiates: every \<open>backward()\<close> call adds its argument to
  \<open>ac_objective\<close>, and the gradient of the sum is the sum of the gradients. A rank without records runs the head
  with weight zero, which adds nothing. The FSDP calls around the loop (unshard, reshard, gradient
  synchronisation) move parameters and are not modelled, except for what they compute: FSDP averages the
  gradients of the ranks.
\<close>

section \<open>\<open>optimizer_groups\<close>\<close>

text \<open>A parameter is its identity and whether it requires a gradient.\<close>

type_synonym param = "nat \<times> bool"

definition optimizer_groups :: "param list \<Rightarrow> param list \<Rightarrow> (string \<times> param list) list" where
  "optimizer_groups model_parameters mtp_parameters =
     (let head_ids = fst ` set mtp_parameters in
      [(''policy'', filter (\<lambda>p. fst p \<notin> head_ids \<and> snd p) model_parameters), (''mtp'', mtp_parameters)])"

section \<open>\<open>head_schedule\<close>\<close>

definition head_schedule :: "int \<Rightarrow> int \<Rightarrow> int \<Rightarrow> real \<Rightarrow> real" where
  "head_schedule step total_steps warmup_steps min_ratio =
     (if step < warmup_steps then of_int step / of_int (max 1 warmup_steps)
      else let progress = min 1 (max 0 (of_int (step - warmup_steps) / of_int (max 1 (total_steps - warmup_steps)))) in
        min_ratio + (1 - min_ratio) * (1 / 2) * (1 + cos (pi * progress)))"

section \<open>\<open>backward_head\<close>\<close>

record head_config =
  hc_aux_lambda :: "real option"
  hc_advantage_clip :: "real option"
  hc_num_steps :: nat
  hc_chunk_size :: nat
  hc_vocab_chunk_size :: nat
  hc_scaling :: real

record update_batch =
  ub_packed :: "real packed option"
  ub_advantages :: "real option token_rows option"
  ub_response_mask :: "int token_rows option"

record accum =
  ac_objective :: real
  ac_total :: real
  ac_aux_total :: real
  ac_aux_unweighted :: real
  ac_count :: nat
  ac_aux_valid :: nat
  ac_aux_positive :: nat
  ac_alpha_sum :: "real list"
  ac_alpha_count :: "nat list"

record aux_metrics =
  am_lambda :: real
  am_clip :: real
  am_loss :: real
  am_unweighted :: real
  am_valid_cycles :: nat
  am_positive_cycles :: nat
  am_contribution :: real

record head_metrics =
  hm_num_cycles :: real
  hm_dca_loss :: real
  hm_aux :: "aux_metrics option"
  hm_alphas :: "(nat \<times> real option) list"
  hm_projected_steps :: nat
  hm_projected_fraction :: real

definition aux_weight :: "real \<Rightarrow> real option \<Rightarrow> real" where
  "aux_weight advantage_clip v = (case v of None \<Rightarrow> 0 | Some x \<Rightarrow> min (max x 0) advantage_clip)"

text \<open>The loop that gives every record its auxiliary weight.\<close>

definition aux_weights :: "update_batch \<Rightarrow> real \<Rightarrow> (nat \<times> real mtp_row) list \<Rightarrow> real list result" where
  "aux_weights data advantage_clip records =
     (case (ub_advantages data, ub_response_mask data) of
        (Some adv, Some msk) \<Rightarrow>
          rbind (trajectory_advantages adv msk) (\<lambda>trajectory_values.
          rmap (\<lambda>(batch_index, row). rbind (py_get trajectory_values batch_index) (\<lambda>v.
            if row_targets row = None then Inl (RuntimeError ''Auxiliary CE is enabled but rollout target labels were not packed'')
            else Inr (aux_weight advantage_clip v))) records)
      | _ \<Rightarrow> Inl (RuntimeError ''Auxiliary CE requires rollout advantages and response masks''))"

definition valid_target_cycles :: "real mtp_row \<Rightarrow> nat" where
  "valid_target_cycles row = (case row_targets row of None \<Rightarrow> 0 | Some (_, tm) \<Rightarrow> length (filter (\<lambda>r. True \<in> set r) tm))"

text \<open>The body of the loop over the chunks of one record.\<close>

definition backward_chunk ::
  "head_config \<Rightarrow> real \<Rightarrow> nat \<Rightarrow> real \<Rightarrow> real \<Rightarrow> real \<Rightarrow> accum \<Rightarrow> real list \<times> real list list \<times> real list option \<Rightarrow> accum" where
  "backward_chunk config aux_lambda dp_size denominator weight divisor acc part =
     (case part of (losses, alpha, aux_ce) \<Rightarrow>
        let weighted_aux = (case aux_ce of None \<Rightarrow> 0 | Some ce \<Rightarrow> sum_list (map (\<lambda>x. x * weight) ce));
            combined_loss = sum_list losses + aux_lambda * weighted_aux
        in acc\<lparr> ac_objective := ac_objective acc + combined_loss * hc_scaling config * real dp_size / denominator,
               ac_total := ac_total acc + sum_list losses / divisor,
               ac_aux_total := ac_aux_total acc + weighted_aux,
               ac_aux_unweighted := ac_aux_unweighted acc + (case aux_ce of None \<Rightarrow> 0 | Some ce \<Rightarrow> sum_list ce),
               ac_count := ac_count acc + length losses,
               ac_alpha_sum := map (\<lambda>(j, s). s + (\<Sum>r\<leftarrow>alpha. if r ! j \<noteq> - 1 then r ! j else 0)) (enumerate 0 (ac_alpha_sum acc)),
               ac_alpha_count := map (\<lambda>(j, c). c + length (filter (\<lambda>r. r ! j \<noteq> - 1) alpha)) (enumerate 0 (ac_alpha_count acc)) \<rparr>)"

definition denominator_of :: "nat \<Rightarrow> nat option \<Rightarrow> real mtp_row \<Rightarrow> real" where
  "denominator_of global_cycles global_trajectories row =
     (case global_trajectories of None \<Rightarrow> real global_cycles | Some g \<Rightarrow> real (g * length (row_position row)))"

definition backward_record ::
  "'kv mtp_head \<Rightarrow> vec list \<Rightarrow> vec list \<Rightarrow> head_config \<Rightarrow> real \<Rightarrow> nat \<Rightarrow> nat \<Rightarrow> nat option \<Rightarrow> accum \<Rightarrow> real mtp_row \<times> real \<Rightarrow> accum result" where
  "backward_record head embed_weight lm_weight config aux_lambda global_cycles dp_size global_trajectories acc rw =
     (case rw of (row, weight) \<Rightarrow>
        if row_width (row_topk_val row) \<noteq> hc_num_steps config
        then Inl (ValueError ''Rollout and training draft depths disagree'')
        else let acc = (if aux_lambda > 0
                        then acc\<lparr> ac_aux_valid := ac_aux_valid acc + valid_target_cycles row,
                                 ac_aux_positive := ac_aux_positive acc + (if weight > 0 then valid_target_cycles row else 0) \<rparr>
                        else acc);
                 record_aux_ce = (aux_lambda > 0 \<and> weight > 0 \<and> valid_target_cycles row > 0);
                 divisor = (case global_trajectories of None \<Rightarrow> 1 | Some _ \<Rightarrow> real (length (row_position row)))
             in rbind (replay_chunks head embed_weight lm_weight row (hc_chunk_size config) (hc_vocab_chunk_size config) record_aux_ce) (\<lambda>parts.
                Inr (foldl (backward_chunk config aux_lambda dp_size (denominator_of global_cycles global_trajectories row) weight divisor) acc parts)))"

definition accum_init :: "nat \<Rightarrow> accum" where
  "accum_init k = \<lparr> ac_objective = 0, ac_total = 0, ac_aux_total = 0, ac_aux_unweighted = 0, ac_count = 0, ac_aux_valid = 0,
     ac_aux_positive = 0, ac_alpha_sum = replicate k 0, ac_alpha_count = replicate k 0 \<rparr>"

definition head_metrics_of :: "head_config \<Rightarrow> real \<Rightarrow> real \<Rightarrow> nat \<Rightarrow> accum \<Rightarrow> head_metrics" where
  "head_metrics_of config aux_lambda advantage_clip mean_count acc =
     (let m = real (max 1 mean_count) in
      \<lparr> hm_num_cycles = real (ac_count acc), hm_dca_loss = ac_total acc / m,
        hm_aux = (if aux_lambda > 0
          then Some \<lparr> am_lambda = aux_lambda, am_clip = advantage_clip, am_loss = ac_aux_total acc / m,
                      am_unweighted = ac_aux_unweighted acc / m, am_valid_cycles = ac_aux_valid acc,
                      am_positive_cycles = ac_aux_positive acc, am_contribution = aux_lambda * ac_aux_total acc / m \<rparr>
          else None),
        hm_alphas = map (\<lambda>(s, c). (c, if c \<noteq> 0 then Some (s / real c) else None)) (zip (ac_alpha_sum acc) (ac_alpha_count acc)),
        hm_projected_steps = sum_list (ac_alpha_count acc),
        hm_projected_fraction = real (sum_list (ac_alpha_count acc)) / real (max 1 (ac_count acc * hc_num_steps config)) \<rparr>)"

definition backward_head ::
  "'kv mtp_head \<Rightarrow> vec list \<Rightarrow> vec list \<Rightarrow> head_config \<Rightarrow> update_batch \<Rightarrow> nat \<Rightarrow> nat \<Rightarrow> nat option \<Rightarrow> (real \<times> head_metrics) result" where
  "backward_head head embed_weight lm_weight config data global_cycles dp_size global_trajectories =
     (case ub_packed data of
        None \<Rightarrow> Inl (RuntimeError ''GrowMTP update received no verification-record transport fields'')
      | Some packed \<Rightarrow>
        if global_cycles = 0
        then Inr (0, \<lparr> hm_num_cycles = 0, hm_dca_loss = 0, hm_aux = None, hm_alphas = [], hm_projected_steps = 0, hm_projected_fraction = 0 \<rparr>)
        else rbind (unpack_signals packed) (\<lambda>records.
          case hc_aux_lambda config of
            None \<Rightarrow> Inl (ValueError ''rollout_aux_ce_lambda must be finite and nonnegative'')
          | Some aux_lambda \<Rightarrow>
          if aux_lambda < 0 then Inl (ValueError ''rollout_aux_ce_lambda must be finite and nonnegative'')
          else case hc_advantage_clip config of
            None \<Rightarrow> Inl (ValueError ''rollout_aux_advantage_clip must be finite and positive'')
          | Some clip \<Rightarrow>
          if clip \<le> 0 then Inl (ValueError ''rollout_aux_advantage_clip must be finite and positive'')
          else if aux_lambda > 0 \<and> global_trajectories \<noteq> None
          then Inl (ValueError ''Rollout auxiliary CE must be piloted separately from exact-KL refresh'')
          else rbind (if aux_lambda > 0 then aux_weights data clip records else Inr (map (\<lambda>_. 0) records)) (\<lambda>weights.
            rbind (rfold (backward_record head embed_weight lm_weight config aux_lambda global_cycles dp_size global_trajectories)
                     (accum_init (hc_num_steps config)) (zip (map snd records) weights)) (\<lambda>acc.
            let mean_count = (case global_trajectories of None \<Rightarrow> ac_count acc | Some _ \<Rightarrow> length (pk_num_cycles packed)) in
            Inr (ac_objective acc, head_metrics_of config aux_lambda clip mean_count acc)))))"

section \<open>Optimizer groups and schedule\<close>

text \<open>
  Every trainable parameter of the model and every parameter of the head is in exactly one group.
\<close>

lemma optimizer_groups_partition:
  assumes "distinct (map fst model_parameters)" "distinct (map fst mtp_parameters)" "set mtp_parameters \<subseteq> set model_parameters"
  shows "distinct (map fst (concat (map snd (optimizer_groups model_parameters mtp_parameters)))) \<and>
    set (concat (map snd (optimizer_groups model_parameters mtp_parameters))) = set mtp_parameters \<union> {p \<in> set model_parameters. snd p}"
proof -
  have "(i, c) \<in> set mtp_parameters \<Longrightarrow> (i, b) \<in> set model_parameters \<Longrightarrow> (i, b) \<in> set mtp_parameters" for i b c
    using eq_key_imp_eq_value [OF assms(1), of i b c] assms(3) by auto
  then show ?thesis using assms by (auto simp: optimizer_groups_def Let_def distinct_map_filter)
qed

lemma cos_fraction_bounds: "0 \<le> 1 + cos x \<and> 1 + cos x \<le> (2 :: real)"
  using cos_ge_minus_one [of x] cos_le_one [of x] by linarith

lemma head_schedule_bounds:
  assumes "0 \<le> step" "0 \<le> min_ratio" "min_ratio \<le> 1"
  shows "0 \<le> head_schedule step total_steps warmup_steps min_ratio \<and> head_schedule step total_steps warmup_steps min_ratio \<le> 1"
proof (cases "step < warmup_steps")
  case True
  then show ?thesis using assms(1) by (simp add: head_schedule_def divide_le_eq)
next
  case False
  define c where "c = 1 + cos (pi * min 1 (max 0 (real_of_int (step - warmup_steps) / real_of_int (max 1 (total_steps - warmup_steps)))))"
  have c: "0 \<le> c" "c \<le> 2" using cos_fraction_bounds c_def by auto
  have "(1 - min_ratio) * (1 / 2) * c \<le> (1 - min_ratio) * (1 / 2) * 2" using assms c by (intro mult_left_mono) auto
  moreover have "0 \<le> (1 - min_ratio) * (1 / 2) * c" using assms c by simp
  moreover have "head_schedule step total_steps warmup_steps min_ratio = min_ratio + (1 - min_ratio) * (1 / 2) * c"
    using False by (simp add: head_schedule_def c_def Let_def)
  ultimately show ?thesis using assms by auto
qed

lemma cos_antimono_unit: "x \<le> y \<Longrightarrow> 0 \<le> x \<Longrightarrow> y \<le> 1 \<Longrightarrow> cos (pi * y) \<le> cos (pi * x)"
  by (rule cos_monotone_0_pi_le) (auto simp: mult_left_mono mult_left_le)

lemma head_schedule_decay:
  assumes "warmup_steps \<le> s" "s \<le> t" "min_ratio \<le> 1"
  shows "head_schedule t total_steps warmup_steps min_ratio \<le> head_schedule s total_steps warmup_steps min_ratio"
proof -
  let ?d = "real_of_int (max 1 (total_steps - warmup_steps))"
  let ?p = "\<lambda>x. min 1 (max 0 (real_of_int (x - warmup_steps) / ?d))"
  have "real_of_int (s - warmup_steps) / ?d \<le> real_of_int (t - warmup_steps) / ?d"
    using assms by (intro divide_right_mono) auto
  then have "cos (pi * ?p t) \<le> cos (pi * ?p s)" by (intro cos_antimono_unit) auto
  then have "(1 - min_ratio) * (1 / 2) * (1 + cos (pi * ?p t)) \<le> (1 - min_ratio) * (1 / 2) * (1 + cos (pi * ?p s))"
    using assms(3) by (intro mult_left_mono) auto
  then show ?thesis using assms by (simp add: head_schedule_def Let_def)
qed

section \<open>The accumulated objective\<close>

text \<open>The losses of a record, in the order of its cycles.\<close>

definition record_losses :: "'kv mtp_head \<Rightarrow> vec list \<Rightarrow> vec list \<Rightarrow> head_config \<Rightarrow> real mtp_row \<Rightarrow> real list" where
  "record_losses head embed_weight lm_weight config row =
     (case replay_chunks head embed_weight lm_weight row (hc_chunk_size config) (hc_vocab_chunk_size config) False of
        Inl _ \<Rightarrow> [] | Inr parts \<Rightarrow> concat (map fst parts))"

lemma foldl_chunks:
  "ac_objective (foldl (backward_chunk config 0 dp den w dv) acc parts) =
     ac_objective acc + sum_list (concat (map fst parts)) * hc_scaling config * real dp / den \<and>
   ac_total (foldl (backward_chunk config 0 dp den w dv) acc parts) = ac_total acc + sum_list (concat (map fst parts)) / dv \<and>
   ac_count (foldl (backward_chunk config 0 dp den w dv) acc parts) = ac_count acc + length (concat (map fst parts))"
  by (induction parts arbitrary: acc) (auto simp: backward_chunk_def Let_def algebra_simps add_divide_distrib split: prod.split)

definition trajectory_divisor :: "nat option \<Rightarrow> real mtp_row \<Rightarrow> real" where
  "trajectory_divisor global_trajectories row =
     (case global_trajectories of None \<Rightarrow> 1 | Some _ \<Rightarrow> real (length (row_position row)))"

lemma backward_record_zero:
  assumes "backward_record head ew lm config 0 gc dp gt acc (row, w) = Inr acc'"
  shows "ac_objective acc' = ac_objective acc + sum_list (record_losses head ew lm config row) * hc_scaling config * real dp / denominator_of gc gt row \<and>
    ac_total acc' = ac_total acc + sum_list (record_losses head ew lm config row) / trajectory_divisor gt row \<and>
    ac_count acc' = ac_count acc + length (record_losses head ew lm config row)"
  using assms unfolding backward_record_def trajectory_divisor_def
  by (auto simp: rbind_eq_Inr Let_def foldl_chunks record_losses_def split: if_splits)

lemma rfold_records_zero:
  assumes "rfold (backward_record head ew lm config 0 gc dp gt) acc (zip rows (map (\<lambda>_. 0) rows)) = Inr acc'"
  shows "ac_objective acc' = ac_objective acc +
      (\<Sum>row\<leftarrow>rows. sum_list (record_losses head ew lm config row) * hc_scaling config * real dp / denominator_of gc gt row) \<and>
    ac_total acc' = ac_total acc + (\<Sum>row\<leftarrow>rows. sum_list (record_losses head ew lm config row) / trajectory_divisor gt row) \<and>
    ac_count acc' = ac_count acc + (\<Sum>row\<leftarrow>rows. length (record_losses head ew lm config row))"
  using assms
proof (induction rows arbitrary: acc)
  case (Cons row rows)
  then obtain a where a: "backward_record head ew lm config 0 gc dp gt acc (row, 0) = Inr a"
    and r: "rfold (backward_record head ew lm config 0 gc dp gt) a (zip rows (map (\<lambda>_. 0) rows)) = Inr acc'"
    by (auto simp: rbind_eq_Inr)
  from Cons.IH [OF r] backward_record_zero [OF a] show ?case by simp
qed simp

text \<open>What one rank contributes when the auxiliary loss is off.\<close>

lemma backward_head_local:
  assumes "backward_head head ew lm config data gc dp gt = Inr (obj, m)" "hc_aux_lambda config = Some 0" "0 < gc"
  shows "\<exists>packed records. ub_packed data = Some packed \<and> unpack_signals packed = Inr records \<and>
    obj = (\<Sum>row\<leftarrow>map snd records. sum_list (record_losses head ew lm config row) * hc_scaling config * real dp / denominator_of gc gt row) \<and>
    hm_num_cycles m = real (\<Sum>row\<leftarrow>map snd records. length (record_losses head ew lm config row))"
proof -
  obtain packed where p: "ub_packed data = Some packed" using assms(1) by (auto simp: backward_head_def split: option.splits)
  obtain records where u: "unpack_signals packed = Inr records"
    using assms(1,3) by (auto simp: backward_head_def p rbind_eq_Inr)
  obtain clip where c: "hc_advantage_clip config = Some clip" "0 < clip"
    using assms by (cases "hc_advantage_clip config") (auto simp: backward_head_def p u split: if_splits)
  obtain acc where f: "rfold (backward_record head ew lm config 0 gc dp gt) (accum_init (hc_num_steps config)) (zip (map snd records) (map (\<lambda>_. 0) (map snd records))) = Inr acc"
    and o: "obj = ac_objective acc" "hm_num_cycles m = real (ac_count acc)"
    using assms c by (auto simp: backward_head_def p u rbind_eq_Inr Let_def head_metrics_of_def comp_def)
  show ?thesis using rfold_records_zero [OF f] p u o by (simp add: accum_init_def)
qed

text \<open>The records of a rank.\<close>

definition rank_rows :: "update_batch \<Rightarrow> real mtp_row list" where
  "rank_rows data = (case ub_packed data of None \<Rightarrow> [] | Some packed \<Rightarrow>
     (case unpack_signals packed of Inl _ \<Rightarrow> [] | Inr records \<Rightarrow> map snd records))"

lemma backward_head_rows:
  assumes "backward_head head ew lm config data gc dp gt = Inr (obj, m)" "hc_aux_lambda config = Some 0" "0 < gc"
  shows "obj = (\<Sum>row\<leftarrow>rank_rows data. sum_list (record_losses head ew lm config row) * hc_scaling config * real dp / denominator_of gc gt row) \<and>
    hm_num_cycles m = real (\<Sum>row\<leftarrow>rank_rows data. length (record_losses head ew lm config row))"
  using backward_head_local [OF assms] by (auto simp: rank_rows_def)

lemma ranks_sum:
  assumes "list_all2 (\<lambda>data r. backward_head head ew lm config data gc dp gt = Inr r) datas rs" "hc_aux_lambda config = Some 0" "0 < gc"
  shows "sum_list (map fst rs) = (\<Sum>row\<leftarrow>concat (map rank_rows datas).
      sum_list (record_losses head ew lm config row) * hc_scaling config * real dp / denominator_of gc gt row)"
  using assms(1)
proof (induction datas rs rule: list_all2_induct)
  case (Cons d ds r rs)
  obtain obj m where r: "r = (obj, m)" by (cases r) blast
  then have "backward_head head ew lm config d gc dp gt = Inr (obj, m)" using Cons by simp
  from backward_head_rows [OF this assms(2,3)] show ?case using Cons r by simp
qed simp

lemma sum_list_divide: "(\<Sum>x\<leftarrow>xs. f x / c) = (\<Sum>x\<leftarrow>xs. f x) / (c :: real)"
  by (induction xs) (auto simp: add_divide_distrib)

text \<open>
  C2. The gradient of the draft head is the global cycle mean. When every rank's \<open>backward_head\<close> returns,
  the FSDP average over the ranks of what they differentiate is the loss scale times the sum of the losses
  of all cycles of all ranks over \<open>global_cycles\<close>, however the records are spread over the ranks and with the
  auxiliary cross entropy switched off (\<open>hc_aux_lambda = Some 0\<close>, the default); on a refresh step it is the mean over the trajectories of the mean loss of each trajectory's cycles.
\<close>
theorem backward_head_global_mean:
  assumes "list_all2 (\<lambda>data r. backward_head head ew lm config data gc (length datas) gt = Inr r) datas rs"
    and "hc_aux_lambda config = Some 0" "0 < gc" "datas \<noteq> []"
  shows "sum_list (map fst rs) / real (length datas) =
    hc_scaling config * (case gt of
      None \<Rightarrow> (\<Sum>row\<leftarrow>concat (map rank_rows datas). sum_list (record_losses head ew lm config row)) / real gc
    | Some g \<Rightarrow> (\<Sum>row\<leftarrow>concat (map rank_rows datas).
        sum_list (record_losses head ew lm config row) / real (length (row_position row))) / real g)"
proof -
  let ?rows = "concat (map rank_rows datas)" and ?dp = "real (length datas)"
  let ?L = "\<lambda>row. sum_list (record_losses head ew lm config row)"
  have dp: "?dp \<noteq> 0" using assms(4) by simp
  have "sum_list (map fst rs) = (\<Sum>row\<leftarrow>?rows. ?L row * hc_scaling config * ?dp / denominator_of gc gt row)"
    by (rule ranks_sum [OF assms(1-3)])
  also have "\<dots> = ?dp * (\<Sum>row\<leftarrow>?rows. hc_scaling config * (?L row / denominator_of gc gt row))"
    unfolding sum_list_const_mult [symmetric] by (rule arg_cong [where f = sum_list]) (simp add: mult.commute mult.left_commute)
  finally have e: "sum_list (map fst rs) / ?dp = (\<Sum>row\<leftarrow>?rows. hc_scaling config * (?L row / denominator_of gc gt row))"
    using dp by simp
  show ?thesis
  proof (cases gt)
    case None
    then show ?thesis unfolding e
      by (simp add: denominator_of_def sum_list_const_mult sum_list_divide)
  next
    case (Some g)
    have d: "?L row / denominator_of gc gt row = ?L row / real (length (row_position row)) / real g" for row
      by (simp add: Some denominator_of_def)
    show ?thesis unfolding e d unfolding sum_list_const_mult unfolding sum_list_divide by (simp add: Some)
  qed
qed

text \<open>
  The learning-rate factor of the head: linear from 0 during warm-up, 1 where it ends, then never
  increasing down to \<open>min_ratio\<close>, which it has from \<open>total_steps\<close> on; it stays within [0, 1] throughout.
\<close>
theorem head_schedule_shape:
  assumes "0 \<le> step" "0 \<le> min_ratio" "min_ratio \<le> 1" "0 \<le> warmup_steps" "warmup_steps < total_steps"
  shows "0 \<le> head_schedule step total_steps warmup_steps min_ratio \<and> head_schedule step total_steps warmup_steps min_ratio \<le> 1 \<and>
    (step < warmup_steps \<longrightarrow> head_schedule step total_steps warmup_steps min_ratio * of_int warmup_steps = of_int step) \<and>
    (step = warmup_steps \<longrightarrow> head_schedule step total_steps warmup_steps min_ratio = 1) \<and>
    (warmup_steps \<le> step \<longrightarrow> head_schedule (step + 1) total_steps warmup_steps min_ratio \<le> head_schedule step total_steps warmup_steps min_ratio) \<and>
    (total_steps \<le> step \<longrightarrow> head_schedule step total_steps warmup_steps min_ratio = min_ratio)"
proof -
  have "head_schedule step total_steps warmup_steps min_ratio * of_int warmup_steps = of_int step" if "step < warmup_steps"
    using that assms(1) by (simp add: head_schedule_def max_def)
  moreover have "head_schedule step total_steps warmup_steps min_ratio = 1" if "step = warmup_steps"
    using that by (simp add: head_schedule_def Let_def field_simps)
  moreover have "head_schedule step total_steps warmup_steps min_ratio = min_ratio" if "total_steps \<le> step"
  proof -
    have "1 \<le> real_of_int (step - warmup_steps) / real_of_int (max 1 (total_steps - warmup_steps))"
      using that assms(5) by (simp add: le_divide_eq)
    then have "min 1 (max 0 (real_of_int (step - warmup_steps) / real_of_int (max 1 (total_steps - warmup_steps)))) = 1" by simp
    then show ?thesis using that assms(5) unfolding head_schedule_def Let_def by simp
  qed
  ultimately show ?thesis
    using head_schedule_bounds [OF assms(1-3)] head_schedule_decay [of warmup_steps step "step + 1" min_ratio total_steps] assms(3) by auto
qed

section \<open>Witnesses\<close>

definition example_config :: head_config where
  "example_config = \<lparr> hc_aux_lambda = Some 0, hc_advantage_clip = Some 2, hc_num_steps = 1, hc_chunk_size = 1, hc_vocab_chunk_size = 5, hc_scaling = 3 \<rparr>"

definition example_batch :: update_batch where
  "example_batch = \<lparr> ub_packed = Some \<lparr> pk_rows = Some [example_row], pk_num_cycles = [2] \<rparr>, ub_advantages = None, ub_response_mask = None \<rparr>"

definition idle_batch :: update_batch where
  "idle_batch = \<lparr> ub_packed = Some \<lparr> pk_rows = None, pk_num_cycles = [0] \<rparr>, ub_advantages = None, ub_response_mask = None \<rparr>"

lemma example_unpack: "unpack_signals \<lparr> pk_rows = Some [example_row], pk_num_cycles = [2] \<rparr> = Inr [(0, example_row)]"
  by (simp add: unpack_signals_def key_get_def example_row_def)

lemma idle_unpack: "unpack_signals \<lparr> pk_rows = (None :: real mtp_row list option), pk_num_cycles = [0] \<rparr> = Inr []"
  by (simp add: unpack_signals_def)

lemma example_backward:
  "\<exists>r. backward_head example_head [[1], [2]] [[1]] example_config example_batch 2 2 None = Inr r"
  "\<exists>r. backward_head example_head [[1], [2]] [[1]] example_config idle_batch 2 2 None = Inr r"
proof -
  have w: "row_width (row_topk_val example_row) = 1" by (simp add: example_row_def row_width_def)
  show "\<exists>r. backward_head example_head [[1], [2]] [[1]] example_config example_batch 2 2 None = Inr r"
    using example_replay w by (auto simp: backward_head_def example_batch_def example_config_def example_unpack backward_record_def Let_def)
  show "\<exists>r. backward_head example_head [[1], [2]] [[1]] example_config idle_batch 2 2 None = Inr r"
    by (simp add: backward_head_def idle_batch_def example_config_def idle_unpack Let_def)
qed

theorem backward_head_global_mean_witness:
  "\<exists>r1 r2. backward_head example_head [[1], [2]] [[1]] example_config example_batch 2 2 None = Inr r1 \<and>
     backward_head example_head [[1], [2]] [[1]] example_config idle_batch 2 2 None = Inr r2 \<and>
     (fst r1 + fst r2) / 2 = 3 * (sum_list (record_losses example_head [[1], [2]] [[1]] example_config example_row) / 2)"
proof -
  obtain r1 r2 where r: "backward_head example_head [[1], [2]] [[1]] example_config example_batch 2 2 None = Inr r1"
    "backward_head example_head [[1], [2]] [[1]] example_config idle_batch 2 2 None = Inr r2" using example_backward by blast
  have a: "list_all2 (\<lambda>data r. backward_head example_head [[1], [2]] [[1]] example_config data 2 (length [example_batch, idle_batch]) None = Inr r)
      [example_batch, idle_batch] [r1, r2]"
    using r by (simp add: numeral_2_eq_2)
  have rows: "rank_rows example_batch = [example_row]" "rank_rows idle_batch = []"
    by (simp_all add: rank_rows_def example_batch_def idle_batch_def example_unpack idle_unpack)
  have "sum_list (map fst [r1, r2]) / real (length [example_batch, idle_batch]) =
      3 * (sum_list (record_losses example_head [[1], [2]] [[1]] example_config example_row) / 2)"
    using backward_head_global_mean [OF a] rows by (simp add: example_config_def)
  then show ?thesis using r by auto
qed

theorem head_schedule_shape_witness: "head_schedule 10 100 10 (1 / 10) = 1 \<and> head_schedule 11 100 10 (1 / 10) \<le> 1"
  using head_schedule_shape [of 10 "1 / 10" 10 100] by simp
end
