(* ===== verification/Rejection.thy ===== *)
theory Rejection
  imports Prelude
begin

text \<open>
  Classic single-chain rejection sampling (\<open>sglang/srt/speculative/acceptance.py\<close>).

  Distributions are lists of reals over the vocabulary. The random numbers are inputs: \<open>u\<close> holds
  the uniform draws of \<open>torch.rand_like\<close>, and \<open>multinomial\<close>, the draw of one token from a
  distribution, is a parameter. \<open>tiny\<close> is the smallest normal number of the float type.
\<close>

section \<open>One row of the batch\<close>

definition accept_ratio :: "real \<Rightarrow> real list \<Rightarrow> real list \<Rightarrow> nat \<Rightarrow> real" where
  "accept_ratio tiny p q tok = min 1 (p ! tok / max tiny (q ! tok))"

text \<open>The cumulative product of the acceptance indicators, and its sum.\<close>

fun cumprod_bits :: "nat \<Rightarrow> nat list \<Rightarrow> nat list" where
  "cumprod_bits acc [] = []"
| "cumprod_bits acc (x # xs) = (acc * x) # cumprod_bits (acc * x) xs"

definition accepted_length :: "real \<Rightarrow> real list list \<Rightarrow> nat list \<Rightarrow> real list list \<Rightarrow> real list \<Rightarrow> nat" where
  "accepted_length tiny target draft_tokens draft u =
     sum_list (cumprod_bits 1
       (map (\<lambda>i. if u ! i < accept_ratio tiny (target ! i) (draft ! i) (draft_tokens ! i) then 1 else 0)
         [0..<length draft_tokens]))"

definition residual :: "real list \<Rightarrow> real list \<Rightarrow> real list" where
  "residual p q = map (\<lambda>(x, y). max 0 (x - y)) (zip p q)"

definition rejected_distribution :: "real \<Rightarrow> real list \<Rightarrow> real list \<Rightarrow> real list" where
  "rejected_distribution tiny p q =
     (let r = residual p q; mass = sum_list r
      in if mass > 0 then map (\<lambda>x. x / max tiny mass) r else p)"

text \<open>The distribution of the token after the accepted prefix: replacement or bonus.\<close>

definition next_distribution :: "real \<Rightarrow> real list list \<Rightarrow> real list list \<Rightarrow> nat \<Rightarrow> real list" where
  "next_distribution tiny target draft len =
     (if len < length draft then rejected_distribution tiny (target ! len) (draft ! min len (length draft - 1))
      else target ! len)"

definition rejection_row ::
  "real \<Rightarrow> (real list \<Rightarrow> nat) \<Rightarrow> real list list \<Rightarrow> nat list \<Rightarrow> real list list \<Rightarrow> real list \<Rightarrow> (nat \<times> nat) result" where
  "rejection_row tiny multinomial target draft_tokens draft u =
     (if length target \<noteq> length draft_tokens + 1 \<or> length draft \<noteq> length draft_tokens \<or>
         (\<exists>i<length draft. length (draft ! i) \<noteq> length (target ! i))
      then Inl (ValueError ''Target and draft distribution shapes disagree'')
      else if \<exists>i<length draft_tokens. draft_tokens ! i \<ge> length (target ! i) then Inl (RuntimeError ''index out of bounds'')
      else let len = accepted_length tiny target draft_tokens draft u
           in Inr (len, multinomial (next_distribution tiny target draft len)))"

definition classic_rejection_sample ::
  "real \<Rightarrow> (real list \<Rightarrow> nat) \<Rightarrow> real list list list \<Rightarrow> nat list list \<Rightarrow> real list list list \<Rightarrow> real list list \<Rightarrow> (nat \<times> nat) list result" where
  "classic_rejection_sample tiny multinomial target_probs draft_tokens draft_probs u =
     rmap (\<lambda>(target, tokens, draft, us). rejection_row tiny multinomial target tokens draft us)
       (zip target_probs (zip draft_tokens (zip draft_probs u)))"

section \<open>The accepted prefix\<close>

lemma cumprod_bits_0: "sum_list (cumprod_bits 0 xs) = 0"
  by (induction xs) auto

lemma sum_cumprod_bits:
  "sum_list (cumprod_bits 1 (map (\<lambda>b. if b then 1 else 0) bs)) = length (takeWhile id bs)"
  by (induction bs) (auto simp: cumprod_bits_0)

lemma accepted_length_takeWhile:
  "accepted_length tiny target toks draft u =
   length (takeWhile (\<lambda>i. u ! i < accept_ratio tiny (target ! i) (draft ! i) (toks ! i)) [0..<length toks])"
proof -
  let ?P = "\<lambda>i. u ! i < accept_ratio tiny (target ! i) (draft ! i) (toks ! i)"
  have "accepted_length tiny target toks draft u = length (takeWhile id (map ?P [0..<length toks]))"
    using sum_cumprod_bits [of "map ?P [0..<length toks]"] by (simp add: accepted_length_def comp_def)
  then show ?thesis by (simp add: takeWhile_map)
qed

lemma accepted_prefix:
  assumes "len = accepted_length tiny target toks draft u"
  shows "len \<le> length toks"
    and "i < len \<Longrightarrow> u ! i < accept_ratio tiny (target ! i) (draft ! i) (toks ! i)"
    and "len < length toks \<Longrightarrow> \<not> u ! len < accept_ratio tiny (target ! len) (draft ! len) (toks ! len)"
proof -
  let ?P = "\<lambda>i. u ! i < accept_ratio tiny (target ! i) (draft ! i) (toks ! i)"
  let ?t = "takeWhile ?P [0..<length toks]"
  have len: "len = length ?t" using assms by (simp add: accepted_length_takeWhile)
  have le: "length ?t \<le> length [0..<length toks]" by (rule length_takeWhile_le)
  then show "len \<le> length toks" using len by simp
  show "?P i" if i: "i < len"
  proof -
    have "?t ! i = i" using takeWhile_nth [of i ?P "[0..<length toks]"] i le len by simp
    then show ?thesis using set_takeWhileD [of i ?P "[0..<length toks]"] i len by (metis nth_mem)
  qed
  show "\<not> ?P len" if "len < length toks"
    using nth_length_takeWhile [of ?P "[0..<length toks]"] that len by simp
qed

section \<open>The emitted token has the target distribution\<close>

text \<open>
  The probability that the token emitted at a depth is \<open>x\<close>, when the draft is drawn from \<open>q\<close>: the
  draft is \<open>x\<close> and accepted, or some draft is rejected and \<open>x\<close> is drawn as its replacement.
\<close>

definition emit_prob :: "real \<Rightarrow> real list \<Rightarrow> real list \<Rightarrow> nat \<Rightarrow> real" where
  "emit_prob tiny p q x =
     q ! x * accept_ratio tiny p q x +
     (\<Sum>y\<leftarrow>[0..<length q]. q ! y * (1 - accept_ratio tiny p q y)) * (rejected_distribution tiny p q ! x)"

definition is_dist :: "real list \<Rightarrow> bool" where
  "is_dist p \<longleftrightarrow> (\<forall>x\<in>set p. 0 \<le> x) \<and> sum_list p = 1"

lemma accept_mass:
  assumes "0 < tiny" "0 \<le> p ! x" "q ! x = 0 \<or> tiny \<le> q ! x"
  shows "q ! x * accept_ratio tiny p q x = min (p ! x) (q ! x)"
proof (cases "q ! x = 0")
  case True
  then show ?thesis using assms by (simp add: accept_ratio_def)
next
  case False
  then have q: "tiny \<le> q ! x" "0 < q ! x" using assms by auto
  then have "accept_ratio tiny p q x = min 1 (p ! x / q ! x)" by (simp add: accept_ratio_def max_def)
  then show ?thesis using q(2) by (simp add: min_mult_distrib_left min.commute)
qed

lemma residual_nth: "length p = length q \<Longrightarrow> x < length q \<Longrightarrow> residual p q ! x = max 0 (p ! x - q ! x)"
  by (simp add: residual_def)

lemma sum_residual:
  assumes "length p = length q"
  shows "sum_list (residual p q) = (\<Sum>y\<leftarrow>[0..<length q]. p ! y - min (p ! y) (q ! y))"
proof -
  have "residual p q = map (\<lambda>y. p ! y - min (p ! y) (q ! y)) [0..<length q]"
    by (rule nth_equalityI) (use assms in \<open>auto simp: residual_nth residual_def\<close>)
  then show ?thesis by simp
qed

lemma sum_list_nth: "length p = n \<Longrightarrow> (\<Sum>y\<leftarrow>[0..<n]. p ! y) = sum_list (p :: real list)"
  using map_nth [of p] by simp

lemma reject_mass:
  assumes "0 < tiny" "is_dist p" "is_dist q" "length p = length q" "\<forall>y<length q. q ! y = 0 \<or> tiny \<le> q ! y"
  shows "(\<Sum>y\<leftarrow>[0..<length q]. q ! y * (1 - accept_ratio tiny p q y)) = sum_list (residual p q)"
proof -
  let ?m = "\<Sum>y\<leftarrow>[0..<length q]. min (p ! y) (q ! y)"
  have "q ! y * (1 - accept_ratio tiny p q y) = q ! y - min (p ! y) (q ! y)" if "y < length q" for y
  proof -
    have "0 \<le> p ! y" using assms(2,4) that by (simp add: is_dist_def)
    then show ?thesis using accept_mass [OF assms(1), of p y q] assms(5) that by (simp add: right_diff_distrib)
  qed
  then have "(\<Sum>y\<leftarrow>[0..<length q]. q ! y * (1 - accept_ratio tiny p q y)) = (\<Sum>y\<leftarrow>[0..<length q]. q ! y - min (p ! y) (q ! y))"
    by (intro arg_cong [where f = sum_list]) simp
  also have "\<dots> = 1 - ?m" using assms(3) by (simp add: sum_list_subtractf sum_list_nth is_dist_def)
  also have "\<dots> = sum_list (residual p q)"
    using assms(2,4) by (simp add: sum_residual sum_list_subtractf sum_list_nth is_dist_def)
  finally show ?thesis .
qed

lemma emit_prob_target:
  assumes "0 < tiny" "is_dist p" "is_dist q" "length p = length q" "\<forall>y<length q. q ! y = 0 \<or> tiny \<le> q ! y"
    and "sum_list (residual p q) = 0 \<or> tiny \<le> sum_list (residual p q)" "x < length q"
  shows "emit_prob tiny p q x = p ! x"
proof -
  let ?mass = "sum_list (residual p q)"
  have px: "0 \<le> p ! x" using assms by (simp add: is_dist_def)
  have acc: "q ! x * accept_ratio tiny p q x = min (p ! x) (q ! x)" using accept_mass assms px by blast
  have nn: "\<forall>r\<in>set (residual p q). 0 \<le> r" by (auto simp: residual_def)
  have rej: "?mass * rejected_distribution tiny p q ! x = residual p q ! x"
  proof (cases "?mass = 0")
    case True
    then have "residual p q ! x = 0"
      using nn assms(4,7) by (metis (no_types, lifting) length_map length_zip min.idem nth_mem residual_def sum_list_nonneg_eq_0_iff)
    then show ?thesis using True by simp
  next
    case False
    then have "0 < ?mass" "max tiny ?mass = ?mass" using assms(1,6) by auto
    then show ?thesis using assms(4,7) by (simp add: rejected_distribution_def residual_def Let_def)
  qed
  show ?thesis
    unfolding emit_prob_def acc reject_mass [OF assms(1-5)] rej using assms(4,7) by (simp add: residual_nth)
qed


lemma rejected_is_dist:
  assumes "0 < tiny" "is_dist p" "sum_list (residual p q) = 0 \<or> tiny \<le> sum_list (residual p q)"
  shows "is_dist (rejected_distribution tiny p q)"
proof (cases "sum_list (residual p q) = 0")
  case True
  then show ?thesis using assms by (simp add: rejected_distribution_def)
next
  case False
  let ?m = "sum_list (residual p q)"
  have m: "0 < ?m" "max tiny ?m = ?m" using False assms by auto
  have "(\<Sum>x\<leftarrow>residual p q. x / ?m) = ?m / ?m" by (simp add: divide_inverse sum_list_mult_const)
  moreover have "\<forall>x\<in>set (residual p q). 0 \<le> x / ?m" using m(1) by (auto simp: residual_def)
  ultimately show ?thesis using m by (simp add: is_dist_def rejected_distribution_def Let_def)
qed

section \<open>Properties\<close>

text \<open>
  C18. Lossless sampling: at every depth the token that is emitted, either the draft (accepted with
  the ratio the code uses) or its replacement (drawn from the distribution the code builds
  after a rejection), has exactly the target distribution \<open>p\<close>, for every draft distribution
  \<open>q\<close>. The draw is accepted for exactly the uniform numbers below the ratio. Positive
  probabilities and the residual mass are at least the smallest normal number.
\<close>
theorem rejection_preserves_target:
  assumes "0 < tiny" "is_dist p" "is_dist q" "length p = length q" "\<forall>y<length q. q ! y = 0 \<or> tiny \<le> q ! y"
    and "sum_list (residual p q) = 0 \<or> tiny \<le> sum_list (residual p q)" "x < length q"
  shows "emit_prob tiny p q x = p ! x \<and> {u. 0 \<le> u \<and> u < 1 \<and> u < accept_ratio tiny p q x} = {0..<accept_ratio tiny p q x}"
  using emit_prob_target [OF assms] by (auto simp: accept_ratio_def)

text \<open>
  A sampled row: the returned length counts the drafts before the first rejected one, so all
  drafts below it passed their test and the next one failed (or there is none); the token after
  it is drawn from the target when all drafts were accepted and from the normalised residual
  otherwise, which is a probability distribution.
\<close>
theorem rejection_row_spec:
  assumes "rejection_row tiny multinomial target toks draft u = Inr (len, bonus)"
    and "0 < tiny" "\<forall>p\<in>set target. is_dist p"
    and "\<forall>i<length draft. sum_list (residual (target ! i) (draft ! i)) = 0 \<or> tiny \<le> sum_list (residual (target ! i) (draft ! i))"
  shows "len \<le> length toks \<and> (\<forall>i<len. u ! i < accept_ratio tiny (target ! i) (draft ! i) (toks ! i)) \<and>
    (len < length toks \<longrightarrow> \<not> u ! len < accept_ratio tiny (target ! len) (draft ! len) (toks ! len)) \<and>
    (\<exists>d. bonus = multinomial d \<and> is_dist d \<and>
      d = (if len < length toks then rejected_distribution tiny (target ! len) (draft ! len) else target ! length toks))"
proof -
  have shape: "length target = length toks + 1" "length draft = length toks"
    and len: "len = accepted_length tiny target toks draft u" and bonus: "bonus = multinomial (next_distribution tiny target draft len)"
    using assms(1) by (auto simp: rejection_row_def Let_def split: if_splits)
  note pre = accepted_prefix [OF len]
  have d: "next_distribution tiny target draft len = (if len < length toks then rejected_distribution tiny (target ! len) (draft ! len) else target ! length toks)"
    using pre(1) shape by (auto simp: next_distribution_def min_def)
  moreover have "is_dist (next_distribution tiny target draft len)"
    unfolding d using rejected_is_dist [OF assms(2)] assms(3,4) shape pre(1) by auto
  ultimately show ?thesis using pre bonus by blast
qed

section \<open>The properties at concrete inputs\<close>

theorem rejection_preserves_target_witness:
  "emit_prob (1 / 100) [1 / 4, 3 / 4] [1 / 2, 1 / 2] 0 = 1 / 4"
  using rejection_preserves_target [of "1 / 100" "[1 / 4, 3 / 4]" "[1 / 2, 1 / 2]" 0]
  by (simp add: is_dist_def residual_def All_less_Suc)

theorem rejection_row_spec_witness:
  "rejection_row (1 / 100) (\<lambda>d. if d ! 1 = 1 then 1 else 0) [[1 / 4, 3 / 4], [1 / 2, 1 / 2]] [0] [[1 / 2, 1 / 2]] [3 / 4] = Inr (0, 1) \<and>
   \<not> (3 / 4 :: real) < accept_ratio (1 / 100) [1 / 4, 3 / 4] [1 / 2, 1 / 2] 0"
proof
  show e: "rejection_row (1 / 100) (\<lambda>d. if d ! 1 = 1 then 1 else 0) [[1 / 4, 3 / 4], [1 / 2, 1 / 2]] [0] [[1 / 2, 1 / 2]] [3 / 4] = Inr (0, 1)"
    by (simp add: rejection_row_def accepted_length_def accept_ratio_def next_distribution_def rejected_distribution_def residual_def Let_def)
  show "\<not> (3 / 4 :: real) < accept_ratio (1 / 100) [1 / 4, 3 / 4] [1 / 2, 1 / 2] 0"
    using rejection_row_spec [OF e] by (simp add: is_dist_def residual_def)
qed

end
