(* ===== verification/Refresh.thy ===== *)
theory Refresh
  imports Signals Loss
begin

text \<open>
  Policy-shift detection and teacher refresh: \<open>verl/trainer/mtp/probe.py\<close> (case selection, the
  verifier path of a cycle, the comparison of distributions) and \<open>verl/trainer/mtp/refresh.py\<close>
  (the cached old distributions, the shift score of a trajectory, the selection of trajectories
  and the replacement of their teachers).

  The forward pass of the policy is a parameter \<open>eval\<close>, a function of the probe case: the rows of
  log-probabilities at the verifier positions (and, for the refresh, the hidden states). The
  random generator is explicit: \<open>choice\<close> and \<open>rand\<close> act on its state. \<open>heapq.nlargest\<close> is what the
  standard library documents: the first elements of the stable descending sort.

  Values are reals, so the checks for values that are not finite and the conversion of a replaced field to its stored
  dtype do not appear. \<open>score_shift\<close> is the computation of the source rank; the other ranks receive its scores by broadcast.
\<close>

section \<open>\<open>probe.py\<close>: cases\<close>

definition should_validate :: "int \<Rightarrow> int \<Rightarrow> int \<Rightarrow> bool \<Rightarrow> bool" where
  "should_validate step total_steps frequency final_validation \<longleftrightarrow>
     frequency > 0 \<and> (step mod frequency = 0 \<or> step \<ge> total_steps) \<or> final_validation \<and> step \<ge> total_steps"

record trajectory =
  tr_source_rank :: nat
  tr_index :: int
  tr_advantage :: real
  tr_score :: real
  tr_position :: "int list"
  tr_draft_tokens :: "int list list"
  tr_prefix_ids :: "int list"
  tr_target_ids :: "int list"
  tr_accept_len :: "int list"

record probe_case =
  pc_input_ids :: "int list"
  pc_draft_tokens :: "int list"
  pc_position :: int
  pc_cycle_index :: nat
  pc_trajectory_index :: int
  pc_source_rank :: nat
  pc_advantage :: real
  pc_score :: real
  pc_verify_valid_length :: int

definition cycle_case :: "trajectory \<Rightarrow> nat \<Rightarrow> probe_case result" where
  "cycle_case r cycle =
     rbind (py_get (tr_position r) cycle) (\<lambda>position.
     rbind (py_get (tr_draft_tokens r) cycle) (\<lambda>tokens.
     let actual = take (nat (position + 2)) (tr_target_ids r);
         shifted = take (nat (position + 1)) (tr_prefix_ids r) in
     if length tokens < 2 \<or> position < 0 \<or> int (length actual) \<noteq> position + 2 \<or> tl actual \<noteq> shifted \<or> last shifted \<noteq> hd tokens
     then Inl (ValueError ''Actual target context disagrees with the shifted MTP stream'')
     else rbind (py_get (tr_accept_len r) cycle) (\<lambda>al.
       Inr \<lparr>pc_input_ids = butlast actual @ butlast tokens, pc_draft_tokens = tokens, pc_position = position,
            pc_cycle_index = cycle, pc_trajectory_index = tr_index r, pc_source_rank = tr_source_rank r,
            pc_advantage = tr_advantage r, pc_score = tr_score r, pc_verify_valid_length = al\<rparr>)))"

definition nlargest :: "nat \<Rightarrow> ('a \<Rightarrow> 'k::linorder) \<Rightarrow> 'a list \<Rightarrow> 'a list" where
  "nlargest n key xs = take n (py_sorted_rev (\<lambda>a b. key a < key b) xs)"

text \<open>The eligible cycles of a record: those whose verifier context fits.\<close>

definition eligible_cycles :: "nat \<Rightarrow> trajectory \<Rightarrow> (nat \<times> int) list result" where
  "eligible_cycles max_context r =
     rbind (rmap (\<lambda>(cycle, position).
         rbind (py_get (tr_draft_tokens r) cycle) (\<lambda>tokens.
         if length tokens < 2 \<or> position < 0 \<or> position \<ge> int (length (tr_prefix_ids r))
         then Inl (ValueError ''Invalid probe cycle or incomplete committed prefix'')
         else if position + 1 + (int (length tokens) - 1) > int max_context then Inr []
         else if tr_prefix_ids r ! nat position \<noteq> hd tokens
         then Inl (ValueError ''Probe seed does not match the committed prefix'')
         else Inr [(cycle, position)])) (enumerate 0 (tr_position r)))
       (\<lambda>cs. Inr (concat cs))"

definition candidate_step ::
  "('g \<Rightarrow> nat \<Rightarrow> nat \<times> 'g) \<Rightarrow> ('g \<Rightarrow> real \<times> 'g) \<Rightarrow> nat \<Rightarrow> 'g \<times> (real \<times> trajectory \<times> nat) list \<Rightarrow> trajectory \<Rightarrow>
   ('g \<times> (real \<times> trajectory \<times> nat) list) result" where
  "candidate_step choice rand max_context st r =
     rbind (eligible_cycles max_context r) (\<lambda>eligible.
     if eligible = [] then Inr st
     else let (i, g1) = choice (fst st) (length eligible); (priority, g2) = rand g1
          in Inr (g2, snd st @ [(priority, r, fst (eligible ! i))]))"

definition select_cases ::
  "('g \<Rightarrow> nat \<Rightarrow> nat \<times> 'g) \<Rightarrow> ('g \<Rightarrow> real \<times> 'g) \<Rightarrow> 'g \<Rightarrow> trajectory list \<Rightarrow> nat \<Rightarrow> nat \<Rightarrow> (real \<times> probe_case) list result" where
  "select_cases choice rand seed records max_cycles max_context =
     (if max_cycles = 0 \<or> max_context = 0 then Inl (ValueError ''Probe budgets must be positive'')
      else rbind (rfold (candidate_step choice rand max_context) (seed, []) records) (\<lambda>(_, candidates).
        rmap (\<lambda>(priority, r, cycle). rbind (cycle_case r cycle) (\<lambda>c. Inr (priority, c)))
          (nlargest max_cycles fst candidates)))"

definition case_key :: "real \<times> probe_case \<Rightarrow> real \<times> nat \<times> int \<times> nat" where
  "case_key pc = (fst pc, pc_source_rank (snd pc), pc_trajectory_index (snd pc), pc_cycle_index (snd pc))"

text \<open>\<open>parts\<close> are the cases of all ranks, as the all-gather returns them.\<close>

definition synchronized_cases :: "(real \<times> probe_case) list list \<Rightarrow> nat \<Rightarrow> (real \<times> probe_case) list" where
  "synchronized_cases parts max_cycles = nlargest max_cycles case_key (concat parts)"

section \<open>\<open>probe.py\<close>: \<open>compare_distributions\<close>\<close>

definition kl_row :: "real list \<Rightarrow> real list \<Rightarrow> real" where
  "kl_row new old = max 0 (\<Sum>(n, m)\<leftarrow>zip new old. exp n * (n - m))"

definition tv_row :: "real list \<Rightarrow> real list \<Rightarrow> real" where
  "tv_row new old = (\<Sum>(n, m)\<leftarrow>zip new old. \<bar>exp n - exp m\<bar>) * (1 / 2)"

definition alpha_row :: "real list \<Rightarrow> real list \<Rightarrow> real" where
  "alpha_row p q = clamp 0 1 (\<Sum>(x, y)\<leftarrow>zip p q. min (exp x) (exp y))"

definition tau_row :: "real list \<Rightarrow> real" where
  "tau_row alpha = 1 + sum_list (cumprod alpha)"

definition mean :: "real list \<Rightarrow> real" where
  "mean xs = sum_list xs / real (length xs)"

record probe_row =
  pr_kl :: real
  pr_tv :: real
  pr_tau_pre :: real
  pr_tau_fixed :: real
  pr_delta_lag :: real
  pr_tau_joint :: real
  pr_joint_gain :: real
  pr_alpha_pre :: "real list"
  pr_alpha_fixed :: "real list"
  pr_alpha_joint :: "real list"

record probe_metrics =
  pm_num_cycles :: nat
  pm_num_positions :: nat
  pm_kl_mean :: real
  pm_kl_max :: real
  pm_tv_mean :: real
  pm_tau_pre :: real
  pm_tau_fixed :: real
  pm_delta_lag :: real
  pm_tau_joint :: real
  pm_joint_gain :: real
  pm_alphas :: "(real \<times> real \<times> real) list"

type_synonym logprobs = "real list list list"

definition shape3 :: "logprobs \<Rightarrow> nat list list" where
  "shape3 x = map (map length) x"

definition normalized :: "logprobs \<Rightarrow> bool" where
  "normalized x \<longleftrightarrow> (\<forall>c\<in>set x. \<forall>r\<in>set c. \<bar>logsumexp r\<bar> \<le> 1 / 10 ^ 4)"

definition probe_row_of :: "real list list \<Rightarrow> real list list \<Rightarrow> real list list \<Rightarrow> real list list \<Rightarrow> probe_row" where
  "probe_row_of old new draft updated =
     (let kl = map (\<lambda>(n, m). kl_row n m) (zip new old); tv = map (\<lambda>(n, m). tv_row n m) (zip new old);
          a_pre = map (\<lambda>(p, q). alpha_row p q) (zip old draft);
          a_fixed = map (\<lambda>(p, q). alpha_row p q) (zip new draft);
          a_joint = map (\<lambda>(p, q). alpha_row p q) (zip new updated)
      in \<lparr>pr_kl = mean kl, pr_tv = mean tv, pr_tau_pre = tau_row a_pre, pr_tau_fixed = tau_row a_fixed,
          pr_delta_lag = tau_row a_pre - tau_row a_fixed, pr_tau_joint = tau_row a_joint,
          pr_joint_gain = tau_row a_joint - tau_row a_fixed,
          pr_alpha_pre = a_pre, pr_alpha_fixed = a_fixed, pr_alpha_joint = a_joint\<rparr>)"

definition compare_distributions ::
  "logprobs \<Rightarrow> logprobs \<Rightarrow> logprobs \<Rightarrow> logprobs \<Rightarrow> (probe_metrics \<times> probe_row list) result" where
  "compare_distributions old new draft updated =
     (if shape3 new \<noteq> shape3 old \<or> shape3 draft \<noteq> shape3 old \<or> shape3 updated \<noteq> shape3 old
      then Inl (ValueError ''Probe distributions must have matching [cycle, depth, vocab] shapes'')
      else if concat (concat old) = [] then Inl (ValueError ''Probe distributions must be nonempty and finite'')
      else if \<not> (normalized old \<and> normalized new \<and> normalized draft \<and> normalized updated)
      then Inl (ValueError ''Probe inputs must be normalized log probabilities'')
      else let rows = map (\<lambda>(o1, n1, d1, u1). probe_row_of o1 n1 d1 u1) (zip old (zip new (zip draft updated)));
               kl = concat (map (\<lambda>(n, m). map (\<lambda>(x, y). kl_row x y) (zip n m)) (zip new old));
               tv = concat (map (\<lambda>(n, m). map (\<lambda>(x, y). tv_row x y) (zip n m)) (zip new old))
        in Inr (\<lparr>pm_num_cycles = length old, pm_num_positions = length kl, pm_kl_mean = mean kl,
              pm_kl_max = foldl max (hd kl) (tl kl), pm_tv_mean = mean tv,
              pm_tau_pre = mean (map pr_tau_pre rows), pm_tau_fixed = mean (map pr_tau_fixed rows),
              pm_delta_lag = mean (map pr_delta_lag rows), pm_tau_joint = mean (map pr_tau_joint rows),
              pm_joint_gain = mean (map pr_joint_gain rows),
              pm_alphas = map (\<lambda>k. (mean (map (\<lambda>r. pr_alpha_pre r ! k) rows), mean (map (\<lambda>r. pr_alpha_fixed r ! k) rows),
                                     mean (map (\<lambda>r. pr_alpha_joint r ! k) rows))) [0..<length (hd old)]\<rparr>, rows))"

section \<open>\<open>refresh.py\<close>\<close>

definition trajectory_key :: "trajectory \<Rightarrow> nat \<times> int" where
  "trajectory_key r = (tr_source_rank r, tr_index r)"

text \<open>\<open>parts\<close>: per rank, its records, its number of trajectories and its number of cycles.\<close>

definition gather_trajectories :: "(trajectory list \<times> nat \<times> int) list \<Rightarrow> trajectory list \<times> nat \<times> int" where
  "gather_trajectories parts =
     (py_sorted (\<lambda>a b. trajectory_key a < trajectory_key b) (concat (map fst parts)),
      sum_list (map (fst \<circ> snd) parts), sum_list (map (snd \<circ> snd) parts))"

definition record_cases :: "trajectory list \<Rightarrow> probe_case list result" where
  "record_cases records =
     rbind (rmap (\<lambda>r. rmap (cycle_case r) [0..<length (tr_position r)]) records) (\<lambda>cs. Inr (concat cs))"

text \<open>The snapshot of the old policy: on the source rank all log-probabilities, in the order of the cases.\<close>

record snapshot =
  sn_cache :: "real list option"
  sn_positive :: "trajectory list"
  sn_num_positions :: nat
  sn_cache_bytes :: nat

definition capture_shift :: "(probe_case \<Rightarrow> real list list) \<Rightarrow> trajectory list \<Rightarrow> bool \<Rightarrow> snapshot result" where
  "capture_shift eval records source =
     (let positive = filter (\<lambda>r. tr_advantage r > 0) records in
      rbind (record_cases positive) (\<lambda>cases.
      let targets = map eval cases; cache = (if source then Some (concat (concat targets)) else None)
      in Inr \<lparr>sn_cache = cache, sn_positive = positive, sn_num_positions = sum_list (map length targets),
              sn_cache_bytes = (case cache of None \<Rightarrow> 0 | Some c \<Rightarrow> 4 * length c)\<rparr>))"

text \<open>One cycle: read as many cached values as the new tensor has, and add the clamped divergences.\<close>

definition shift_cycle ::
  "(probe_case \<Rightarrow> real list list) \<Rightarrow> trajectory \<Rightarrow> real list \<times> real \<times> nat \<Rightarrow> nat \<Rightarrow> (real list \<times> real \<times> nat) result" where
  "shift_cycle eval r st cycle =
     (case st of (cache, acc, cnt) \<Rightarrow>
        rbind (cycle_case r cycle) (\<lambda>c.
        let new = eval c; n = length (concat new) in
        if length (take n cache) \<noteq> n then Inl (RuntimeError ''Incomplete policy-shift snapshot'')
        else let old = chunks (row_width new) (take n cache)
             in Inr (drop n cache, acc + sum_list (map (\<lambda>(x, y). kl_row x y) (zip new old)), cnt + length new)))"

definition shift_record ::
  "(probe_case \<Rightarrow> real list list) \<Rightarrow> real list \<times> ((nat \<times> int) \<Rightarrow> real) \<Rightarrow> trajectory \<Rightarrow> (real list \<times> ((nat \<times> int) \<Rightarrow> real)) result" where
  "shift_record eval st r =
     (case st of (cache, scores) \<Rightarrow>
        rbind (rfold (shift_cycle eval r) (cache, 0, 0) [0..<length (tr_position r)]) (\<lambda>(cache', acc, cnt).
        Inr (cache', scores(trajectory_key r := acc / max 1 (real cnt)))))"

text \<open>The source rank's scores, which are then broadcast to the other ranks.\<close>

definition score_shift :: "(probe_case \<Rightarrow> real list list) \<Rightarrow> snapshot \<Rightarrow> ((nat \<times> int) \<Rightarrow> real) result" where
  "score_shift eval snap =
     (case sn_cache snap of
        None \<Rightarrow> rbind (record_cases (sn_positive snap)) (\<lambda>_. Inr (\<lambda>_. 0))
      | Some cache \<Rightarrow> rbind (rfold (shift_record eval) (cache, \<lambda>_. 0) (sn_positive snap)) (\<lambda>(_, scores). Inr scores))"

definition trajectory_scores :: "trajectory list \<Rightarrow> ((nat \<times> int) \<Rightarrow> real) \<Rightarrow> (nat \<times> int) \<Rightarrow> real" where
  "trajectory_scores records shift key =
     (case map_of (rev (map (\<lambda>r. (trajectory_key r, max (tr_advantage r) 0 * shift (trajectory_key r))) records)) key of
        None \<Rightarrow> 0 | Some s \<Rightarrow> s)"

definition select_trajectories ::
  "trajectory list \<Rightarrow> ((nat \<times> int) \<Rightarrow> real) \<Rightarrow> real \<Rightarrow> (trajectory list \<times> ((nat \<times> int) \<Rightarrow> real)) result" where
  "select_trajectories records shift fraction =
     (if \<not> (0 \<le> fraction \<and> fraction \<le> 1) then Inl (ValueError ''comparison_refresh_fraction must be in [0, 1]'')
      else let scores = trajectory_scores records shift;
               positive = filter (\<lambda>r. scores (trajectory_key r) > 0) records;
               cnt = min (length positive) (nat \<lceil>fraction * real (length records)\<rceil>);
               key = (\<lambda>r. (- scores (trajectory_key r), trajectory_key r))
           in Inr (take cnt (py_sorted (\<lambda>a b. key a < key b) positive), scores))"

text \<open>
  The refreshed teacher of a selected trajectory: \<open>eval_full\<close> returns log-probabilities and hidden
  states, \<open>topk\<close> (torch) the largest values of a row with their indices.
\<close>

record replacement =
  rp_topk_val :: "real list list list"
  rp_topk_idx :: "int list list list"
  rp_prefix_hidden :: "real list list"
  rp_hidden :: "real list list"

definition teacher_replacement ::
  "(probe_case \<Rightarrow> real list list \<times> real list list) \<Rightarrow> (nat \<Rightarrow> real list \<Rightarrow> (real \<times> int) list) \<Rightarrow> nat \<Rightarrow> trajectory \<Rightarrow> replacement result" where
  "teacher_replacement eval_full topk teacher_topk r =
     rbind (rmap (cycle_case r) [0..<length (tr_position r)]) (\<lambda>cases.
     let outs = map eval_full cases;
         tops = map (\<lambda>(target, _). map (\<lambda>row. topk (min teacher_topk (length row)) row) target) outs in
     if tr_position r = [] then Inl IndexError
     else let prefix = take (nat (last (tr_position r)) + 1) (snd (last outs)) in
       rbind (rmap (\<lambda>p. py_get prefix (nat p)) (tr_position r)) (\<lambda>hidden.
       Inr \<lparr>rp_topk_val = map (map (map fst)) tops, rp_topk_idx = map (map (map snd)) tops,
            rp_prefix_hidden = prefix, rp_hidden = hidden\<rparr>))"

definition replacements ::
  "(probe_case \<Rightarrow> real list list \<times> real list list) \<Rightarrow> (nat \<Rightarrow> real list \<Rightarrow> (real \<times> int) list) \<Rightarrow> nat \<Rightarrow> trajectory list \<Rightarrow> nat \<Rightarrow>
   (int \<times> replacement) list result" where
  "replacements eval_full topk teacher_topk selected source_rank =
     rbind (rmap (\<lambda>r. if tr_source_rank r = source_rank
         then rbind (teacher_replacement eval_full topk teacher_topk r) (\<lambda>x. Inr [(tr_index r, x)])
         else rbind (rmap (cycle_case r) [0..<length (tr_position r)]) (\<lambda>_. Inr [])) selected) (\<lambda>rs. Inr (concat rs))"

definition replace_row :: "(int \<times> replacement) list \<Rightarrow> int \<Rightarrow> real mtp_row \<Rightarrow> real mtp_row" where
  "replace_row reps request old =
     (case map_of (rev reps) request of
        None \<Rightarrow> old
      | Some rp \<Rightarrow> old\<lparr>row_topk_val := rp_topk_val rp, row_topk_idx := rp_topk_idx rp,
                      row_hidden := rp_hidden rp, row_prefix_hidden := rp_prefix_hidden rp\<rparr>)"

text \<open>The new batch has the fields of \<open>FIELDS\<close> only, so no rollout targets.\<close>

definition mixed_teacher_batch ::
  "(probe_case \<Rightarrow> real list list \<times> real list list) \<Rightarrow> (nat \<Rightarrow> real list \<Rightarrow> (real \<times> int) list) \<Rightarrow>
   real packed \<Rightarrow> int list \<Rightarrow> trajectory list \<Rightarrow> nat \<Rightarrow> nat \<Rightarrow> real packed result" where
  "mixed_teacher_batch eval_full topk data request_index selected source_rank teacher_topk =
     rbind (replacements eval_full topk teacher_topk selected source_rank) (\<lambda>reps.
     case pk_rows data of
       None \<Rightarrow> Inr data
     | Some rows \<Rightarrow>
         rbind (if reps = [] then Inr rows
                else rmap (\<lambda>(i, old). rbind (py_get request_index i) (\<lambda>request. Inr (replace_row reps request old)))
                       (enumerate 0 rows)) (\<lambda>rows'.
         Inr (data\<lparr>pk_rows := Some (map (row_targets_update (\<lambda>_. None)) rows')\<rparr>)))"

section \<open>The largest elements\<close>

lemma key_weak_order: "weak_order (\<lambda>a b. key a < (key b :: 'k::linorder))"
  by unfold_locales auto

lemma strict_if_distinct:
  "sorted_wrt (\<lambda>x y. \<not> key x < (key y :: 'k::linorder)) L \<Longrightarrow> distinct (map key L) \<Longrightarrow> sorted_wrt (\<lambda>x y. key y < key x) L"
proof (induction L)
  case (Cons x L)
  have "key y < key x" if "y \<in> set L" for y
  proof -
    have "key y \<le> key x" using Cons.prems(1) that by (simp add: not_less)
    moreover have "key y \<noteq> key x" using Cons.prems(2) imageI [OF that, of key] by auto
    ultimately show ?thesis by simp
  qed
  with Cons show ?case by simp
qed simp

lemma sorted_rev_strict:
  assumes "distinct (map key xs)"
  shows "sorted_wrt (\<lambda>x y. key y < key x) (py_sorted_rev (\<lambda>a b. key a < (key b :: 'k::linorder)) xs)"
proof -
  let ?L = "py_sorted_rev (\<lambda>a b. key a < key b) xs"
  have s: "sorted_wrt (\<lambda>x y. \<not> key x < key y) ?L"
    by (rule weak_order.ordered_py_sorted_rev [OF key_weak_order])
  have "mset (map key ?L) = mset (map key xs)" by (simp only: mset_map mset_py_sorted_rev)
  then have d: "distinct (map key ?L)" using assms mset_eq_imp_distinct_iff by blast
  show ?thesis by (rule strict_if_distinct [OF s d])
qed

lemma strict_distinct:
  assumes "sorted_wrt (\<lambda>x y. key y < (key x :: 'k::linorder)) L"
  shows "distinct (map key L)" "distinct L"
proof -
  show "distinct (map key L)"
    using assms
  proof (induction L)
    case (Cons x L)
    then have "key x \<notin> key ` set L" by fastforce
    with Cons show ?case by simp
  qed simp
  then show "distinct L" by (simp add: distinct_map)
qed

definition above :: "('a \<Rightarrow> 'k::linorder) \<Rightarrow> 'a set \<Rightarrow> 'a \<Rightarrow> nat" where
  "above key A x = card {y \<in> A. key x < key y}"

lemma above_mono: "finite B \<Longrightarrow> A \<subseteq> B \<Longrightarrow> above key A x \<le> above key B x"
  unfolding above_def by (rule card_mono) auto

lemma strict_nth_above:
  assumes "sorted_wrt (\<lambda>x y. key y < (key x :: 'k::linorder)) L" "i < length L"
  shows "above key (set L) (L ! i) = i"
proof -
  have lt: "key (L ! b) < key (L ! a)" if "a < b" "b < length L" for a b
    using sorted_wrt_nth_less [OF assms(1) that] .
  have "{y \<in> set L. key (L ! i) < key y} = set (take i L)"
  proof (intro set_eqI iffI)
    fix y assume "y \<in> {y \<in> set L. key (L ! i) < key y}"
    then obtain j where j: "j < length L" "y = L ! j" "key (L ! i) < key (L ! j)" by (auto simp: in_set_conv_nth)
    then have "j < i" using lt [of i j] by (metis less_asym linorder_neqE_nat)
    then show "y \<in> set (take i L)" using j by (auto simp: in_set_conv_nth intro!: exI [of _ j])
  next
    fix y assume "y \<in> set (take i L)"
    then obtain j where "j < i" "y = L ! j" using assms(2) by (auto simp: in_set_conv_nth)
    then show "y \<in> {y \<in> set L. key (L ! i) < key y}" using lt [of j i] assms(2) by auto
  qed
  moreover have "distinct L" by (rule strict_distinct(2) [OF assms(1)])
  ultimately show ?thesis using assms(2) by (simp add: above_def distinct_card)
qed

lemma set_nlargest:
  assumes "distinct (map key xs)"
  shows "set (nlargest n key xs) = {x \<in> set xs. above key (set xs) x < n}"
proof -
  let ?L = "py_sorted_rev (\<lambda>a b. key a < key b) xs"
  have s: "sorted_wrt (\<lambda>x y. key y < key x) ?L" by (rule sorted_rev_strict [OF assms])
  have ab: "above key (set xs) (?L ! i) = i" if "i < length ?L" for i using strict_nth_above [OF s that] by simp
  have "x \<in> set (take n ?L) \<longleftrightarrow> x \<in> set xs \<and> above key (set xs) x < n" for x
  proof
    assume "x \<in> set (take n ?L)"
    then obtain i where "i < n" "i < length ?L" "x = ?L ! i" by (auto simp: in_set_conv_nth)
    then show "x \<in> set xs \<and> above key (set xs) x < n" using ab nth_mem [of i ?L] by simp
  next
    assume x: "x \<in> set xs \<and> above key (set xs) x < n"
    then obtain i where "i < length ?L" "x = ?L ! i" by (metis in_set_conv_nth set_py_sorted_rev)
    then show "x \<in> set (take n ?L)" using x ab [of i] by (auto simp: in_set_conv_nth intro!: exI [of _ i])
  qed
  then show ?thesis unfolding nlargest_def by blast
qed

lemma nlargest_strict: "distinct (map key xs) \<Longrightarrow> sorted_wrt (\<lambda>x y. key y < key x) (nlargest n key xs)"
  unfolding nlargest_def by (intro sorted_wrt_take sorted_rev_strict)

lemma strict_unique:
  assumes "sorted_wrt (\<lambda>x y. key y < (key x :: 'k::linorder)) L" "sorted_wrt (\<lambda>x y. key y < key x) M" "set L = set M"
  shows "L = M"
  using assms
proof (induction L arbitrary: M)
  case (Cons x L)
  then obtain y M' where M: "M = y # M'" by (cases M) auto
  have "x = y"
  proof (rule ccontr)
    assume ne: "x \<noteq> y"
    have "x \<in> set M'" "y \<in> set L" using Cons.prems(3) M ne by auto
    then have "key x < key y" "key y < key x" using Cons.prems(1,2) M by auto
    then show False by simp
  qed
  moreover have "x \<notin> set L" "y \<notin> set M'" using Cons.prems(1,2) M by auto
  ultimately have "set L = set M'" using Cons.prems(3) M by auto
  then have "L = M'" using Cons.IH [of M'] Cons.prems(1,2) M by simp
  then show ?case using M \<open>x = y\<close> by simp
qed simp

lemma nlargest_sorted:
  assumes "sorted_wrt (\<lambda>x y. key y < (key x :: 'k::linorder)) L"
  shows "nlargest n key L = take n L"
proof -
  have "py_sorted_rev (\<lambda>a b. key a < key b) L = L"
    by (rule strict_unique [where key = key]) (use assms sorted_rev_strict strict_distinct in auto)
  then show ?thesis by (simp add: nlargest_def)
qed

lemma nlargest_merge:
  assumes d: "distinct (map key (concat parts))"
  shows "nlargest n key (concat (map (nlargest n key) parts)) = nlargest n key (concat parts)"
proof -
  let ?S = "concat parts" and ?T = "concat (map (nlargest n key) parts)"
  have dp: "distinct (map key p)" if "p \<in> set parts" for p
    using d that by (auto simp: map_concat distinct_concat_iff)
  have sub: "set (nlargest n key p) \<subseteq> set p" for p by (auto simp: nlargest_def dest: in_set_takeD)
  have ts: "set ?T \<subseteq> set ?S" using sub by force
  have dt: "distinct (map key ?T)"
    using d
  proof (induction parts)
    case (Cons p parts)
    have "distinct (map key (nlargest n key p))"
      by (rule strict_distinct(1), rule nlargest_strict) (use Cons.prems in simp)
    moreover have "set (concat (map (nlargest n key) parts)) \<subseteq> set (concat parts)" using sub by force
    then have "key ` set (nlargest n key p) \<inter> key ` set (concat (map (nlargest n key) parts)) \<subseteq>
        key ` set p \<inter> key ` set (concat parts)" using sub [of p] by (meson Int_mono image_mono)
    moreover have "key ` set p \<inter> key ` set (concat parts) = {}" using Cons.prems by simp
    ultimately have "key ` set (nlargest n key p) \<inter> key ` set (concat (map (nlargest n key) parts)) = {}"
      by (simp only: subset_empty)
    then show ?case using Cons \<open>distinct (map key (nlargest n key p))\<close> by simp
  qed simp
  have top: "x \<in> set ?T" if x: "x \<in> set ?S" "above key (set ?S) x < n" for x
  proof -
    obtain p where p: "p \<in> set parts" "x \<in> set p" using x(1) by auto
    have "above key (set p) x \<le> above key (set ?S) x" by (rule above_mono) (use p in auto)
    then have "x \<in> set (nlargest n key p)" using x(2) p(2) set_nlargest [OF dp [OF p(1)]] by auto
    then show ?thesis using p(1) by auto
  qed
  have "above key (set ?T) x < n \<longleftrightarrow> above key (set ?S) x < n" if "x \<in> set ?T" for x
  proof
    show "above key (set ?S) x < n \<Longrightarrow> above key (set ?T) x < n"
      using above_mono [OF _ ts, of key x] by (simp add: le_less_trans)
    show "above key (set ?S) x < n" if t: "above key (set ?T) x < n"
    proof (rule ccontr)
      assume big: "\<not> ?thesis"
      let ?L = "py_sorted_rev (\<lambda>a b. key a < key b) ?S"
      have s: "sorted_wrt (\<lambda>x y. key y < key x) ?L" by (rule sorted_rev_strict [OF d])
      have "x \<in> set ?L" using \<open>x \<in> set ?T\<close> ts by auto
      then obtain i where i: "i < length ?L" "x = ?L ! i" by (metis in_set_conv_nth)
      have "n \<le> i" using big strict_nth_above [OF s i(1)] i(2) by simp
      have "set (take n ?L) \<subseteq> {y \<in> set ?T. key x < key y}"
      proof
        fix y assume y: "y \<in> set (take n ?L)"
        then obtain j where j: "j < n" "j < length ?L" "y = ?L ! j" by (auto simp: in_set_conv_nth)
        have "key x < key y" using sorted_wrt_nth_less [OF s, of j i] i j \<open>n \<le> i\<close> by simp
        moreover have "y \<in> set ?T"
          using top [of y] y set_nlargest [OF d, of n] by (auto simp: nlargest_def)
        ultimately show "y \<in> {y \<in> set ?T. key x < key y}" by blast
      qed
      then have "card (set (take n ?L)) \<le> above key (set ?T) x" unfolding above_def by (intro card_mono) auto
      moreover have "card (set (take n ?L)) = n"
        using strict_distinct(2) [OF s] i(1) \<open>n \<le> i\<close> by (simp add: distinct_card)
      ultimately show False using t by simp
    qed
  qed
  then have "set (nlargest n key ?T) = set (nlargest n key ?S)"
    unfolding set_nlargest [OF d] set_nlargest [OF dt] using top ts by blast
  then show ?thesis by (rule strict_unique [OF nlargest_strict [OF dt] nlargest_strict [OF d]])
qed


section \<open>Verifier paths\<close>

lemma cycle_case_context:
  assumes "cycle_case r cycle = Inr c"
  shows "cycle < length (tr_position r)" "pc_position c = tr_position r ! cycle" "pc_cycle_index c = cycle"
    "pc_draft_tokens c = tr_draft_tokens r ! cycle" "2 \<le> length (pc_draft_tokens c)" "0 \<le> pc_position c"
    "pc_input_ids c = take (nat (pc_position c + 1)) (tr_target_ids r) @ butlast (pc_draft_tokens c)"
    "nat (pc_position c + 1) < length (tr_target_ids r)"
    "tr_target_ids r ! nat (pc_position c + 1) = hd (pc_draft_tokens c)"
    "take (nat (pc_position c + 1)) (tr_prefix_ids r) = tl (take (nat (pc_position c + 2)) (tr_target_ids r))"
proof -
  obtain position tokens al where g: "py_get (tr_position r) cycle = Inr position" "py_get (tr_draft_tokens r) cycle = Inr tokens"
    and ok: "2 \<le> length tokens" "0 \<le> position" "int (length (take (nat (position + 2)) (tr_target_ids r))) = position + 2"
      "tl (take (nat (position + 2)) (tr_target_ids r)) = take (nat (position + 1)) (tr_prefix_ids r)"
      "last (take (nat (position + 1)) (tr_prefix_ids r)) = hd tokens"
    and c: "c = \<lparr>pc_input_ids = butlast (take (nat (position + 2)) (tr_target_ids r)) @ butlast tokens, pc_draft_tokens = tokens, pc_position = position,
            pc_cycle_index = cycle, pc_trajectory_index = tr_index r, pc_source_rank = tr_source_rank r,
            pc_advantage = tr_advantage r, pc_score = tr_score r, pc_verify_valid_length = al\<rparr>"
    using assms unfolding cycle_case_def Let_def by (auto simp: rbind_eq_Inr if_Inl_eq_Inr)
  have n2: "nat (position + 2) = Suc (nat (position + 1))" using ok(2) by simp
  have lt: "nat (position + 1) < length (tr_target_ids r)" using ok(2,3) by simp
  have tk: "take (nat (position + 2)) (tr_target_ids r) = take (nat (position + 1)) (tr_target_ids r) @ [tr_target_ids r ! nat (position + 1)]"
    unfolding n2 using lt by (rule take_Suc_conv_app_nth)
  have "0 < length (tl (take (nat (position + 2)) (tr_target_ids r)))" using ok(2,3) by simp
  then have "tl (take (nat (position + 2)) (tr_target_ids r)) \<noteq> []" by (simp only: length_greater_0_conv not_False_eq_True)
  then have "last (take (nat (position + 2)) (tr_target_ids r)) = hd tokens" using ok(4,5) by (metis last_tl)
  then have seed: "tr_target_ids r ! nat (position + 1) = hd tokens" unfolding tk by simp
  show "cycle < length (tr_position r)" "pc_position c = tr_position r ! cycle" "pc_cycle_index c = cycle"
    "pc_draft_tokens c = tr_draft_tokens r ! cycle" "2 \<le> length (pc_draft_tokens c)" "0 \<le> pc_position c"
    "nat (pc_position c + 1) < length (tr_target_ids r)" "tr_target_ids r ! nat (pc_position c + 1) = hd (pc_draft_tokens c)"
    "take (nat (pc_position c + 1)) (tr_prefix_ids r) = tl (take (nat (pc_position c + 2)) (tr_target_ids r))"
    using g c ok seed lt by (auto simp: py_get_eq_Inr)
  show "pc_input_ids c = take (nat (pc_position c + 1)) (tr_target_ids r) @ butlast (pc_draft_tokens c)"
    using c tk by simp
qed

lemma cycle_case_path:
  assumes "cycle_case r cycle = Inr c"
  shows "take (nat (pc_position c + 2)) (pc_input_ids c) = take (nat (pc_position c + 2)) (tr_target_ids r)"
    and "int (length (pc_input_ids c)) = pc_position c + int (length (pc_draft_tokens c))"
    and "drop (nat (pc_position c + 1)) (pc_input_ids c) = butlast (pc_draft_tokens c)"
proof -
  note c = cycle_case_context [OF assms]
  let ?n = "nat (pc_position c + 1)"
  have n2: "nat (pc_position c + 2) = Suc ?n" using c(6) by simp
  have len: "length (take ?n (tr_target_ids r)) = ?n" using c(8) by simp
  obtain t ts where t: "butlast (pc_draft_tokens c) = t # ts" "t = hd (pc_draft_tokens c)"
    using c(5) by (cases "pc_draft_tokens c"; cases "tl (pc_draft_tokens c)") auto
  show "take (nat (pc_position c + 2)) (pc_input_ids c) = take (nat (pc_position c + 2)) (tr_target_ids r)"
    unfolding n2 c(7) t(1) using len t(2) c(8,9) by (simp add: take_Suc_conv_app_nth)
  show "int (length (pc_input_ids c)) = pc_position c + int (length (pc_draft_tokens c))"
    unfolding c(7) using len c(5,6) by simp
  show "drop ?n (pc_input_ids c) = butlast (pc_draft_tokens c)" unfolding c(7) using len by simp
qed


section \<open>Shift scores\<close>

text \<open>Two models with the same shape of output: every case has rows of one positive width.\<close>

definition same_shape :: "(probe_case \<Rightarrow> real list list) \<Rightarrow> (probe_case \<Rightarrow> real list list) \<Rightarrow> bool" where
  "same_shape new old \<longleftrightarrow> (\<forall>c. map length (new c) = map length (old c) \<and> 0 < row_width (old c) \<and> (\<forall>r\<in>set (old c). length r = row_width (old c)))"

definition divergence :: "(probe_case \<Rightarrow> real list list) \<Rightarrow> (probe_case \<Rightarrow> real list list) \<Rightarrow> probe_case list \<Rightarrow> real" where
  "divergence new old cs = (\<Sum>c\<leftarrow>cs. sum_list (map (\<lambda>(x, y). kl_row x y) (zip (new c) (old c))))"

definition positions_of :: "(probe_case \<Rightarrow> real list list) \<Rightarrow> probe_case list \<Rightarrow> nat" where
  "positions_of new cs = (\<Sum>c\<leftarrow>cs. length (new c))"

definition shift_of :: "(probe_case \<Rightarrow> real list list) \<Rightarrow> (probe_case \<Rightarrow> real list list) \<Rightarrow> probe_case list \<Rightarrow> real" where
  "shift_of new old cs = divergence new old cs / max 1 (real (positions_of new cs))"

lemma shift_cycle_reads:
  assumes sh: "same_shape new old" and c: "cycle_case r cycle = Inr c"
  shows "shift_cycle new r (concat (old c) @ rest, acc, cnt) cycle =
    Inr (rest, acc + sum_list (map (\<lambda>(x, y). kl_row x y) (zip (new c) (old c))), cnt + length (new c))"
proof -
  have ml: "map length (new c) = map length (old c)" and w: "0 < row_width (old c)" "\<And>r. r \<in> set (old c) \<Longrightarrow> length r = row_width (old c)"
    using sh by (auto simp: same_shape_def)
  have n: "length (concat (new c)) = length (concat (old c))" unfolding length_concat ml ..
  have rw: "row_width (new c) = row_width (old c)" using ml by (cases "new c"; cases "old c") (auto simp: row_width_def)
  have "chunks (row_width (new c)) (concat (old c)) = old c" unfolding rw by (rule chunks_concat_rect [OF w])
  then show ?thesis using c n by (simp add: shift_cycle_def Let_def)
qed

lemma shift_cycles_run:
  assumes "same_shape new old" "rmap (cycle_case r) is = Inr cs"
  shows "rfold (shift_cycle new r) (concat (concat (map old cs)) @ rest, acc, cnt) is =
    Inr (rest, acc + divergence new old cs, cnt + positions_of new cs)"
  using assms(2)
proof (induction "is" arbitrary: cs acc cnt)
  case (Cons i "is")
  then obtain c cs' where c: "cycle_case r i = Inr c" "rmap (cycle_case r) is = Inr cs'" "cs = c # cs'"
    by (auto simp: rbind_eq_Inr)
  show ?case
    using Cons.IH [OF c(2)] shift_cycle_reads [OF assms(1) c(1)] c(3)
    by (simp add: divergence_def positions_of_def add.assoc)
qed (simp add: divergence_def positions_of_def)

lemma shift_records_run:
  assumes "same_shape new old" "rmap (\<lambda>r. rmap (cycle_case r) [0..<length (tr_position r)]) rs = Inr css"
  shows "rfold (shift_record new) (concat (concat (map old (concat css))) @ rest, sc) rs =
    Inr (rest, foldl (\<lambda>sc (r, cs). sc(trajectory_key r := shift_of new old cs)) sc (zip rs css))"
  using assms(2)
proof (induction rs arbitrary: css sc)
  case (Cons r rs)
  then obtain cs css' where c: "rmap (cycle_case r) [0..<length (tr_position r)] = Inr cs"
      "rmap (\<lambda>r. rmap (cycle_case r) [0..<length (tr_position r)]) rs = Inr css'" "css = cs # css'"
    by (auto simp: rbind_eq_Inr)
  have "shift_record new (concat (concat (map old cs)) @ concat (concat (map old (concat css'))) @ rest, sc) r =
      Inr (concat (concat (map old (concat css'))) @ rest, sc(trajectory_key r := shift_of new old cs))"
    using shift_cycles_run [OF assms(1) c(1), of _ 0 0] by (simp add: shift_record_def shift_of_def)
  with Cons.IH [OF c(2)] c(3) show ?case by simp
qed simp

lemma foldl_upd_other: "k \<notin> fst ` set kvs \<Longrightarrow> foldl (\<lambda>f (k, v). f(k := v)) f0 kvs k = f0 k"
  by (induction kvs arbitrary: f0) auto

lemma foldl_upd_in:
  "distinct (map fst kvs) \<Longrightarrow> (k, v) \<in> set kvs \<Longrightarrow> foldl (\<lambda>f (k, v). f(k := v)) f0 kvs k = v"
proof (induction kvs arbitrary: f0)
  case (Cons kv kvs)
  show ?case
  proof (cases "(k, v) = kv")
    case True
    have "fst kv \<notin> fst ` set kvs" using Cons.prems(1) by simp
    then have "k \<notin> fst ` set kvs" unfolding True [symmetric] fst_conv .
    then have "foldl (\<lambda>f (k, v). f(k := v)) (f0(k := v)) kvs k = v" using foldl_upd_other [of k kvs "f0(k := v)"] by simp
    then show ?thesis unfolding True [symmetric] foldl_Cons prod.case .
  qed (use Cons in auto)
qed simp

lemma foldl_scores:
  "foldl (\<lambda>sc (r, cs). sc(trajectory_key r := shift_of new old cs)) sc xs =
   foldl (\<lambda>f (k, v). f(k := v)) sc (map (\<lambda>(r, cs). (trajectory_key r, shift_of new old cs)) xs)"
  by (induction xs arbitrary: sc) auto

lemma divergence_nonneg: "0 \<le> divergence new old cs"
proof -
  have "0 \<le> kl_row x y" for x y by (simp add: kl_row_def)
  then show ?thesis unfolding divergence_def by (intro sum_list_nonneg) (auto intro!: sum_list_nonneg)
qed

lemma divergence_same: "divergence old old cs = 0"
proof -
  have "kl_row x x = 0" for x
  proof -
    have "(\<Sum>(n, m)\<leftarrow>zip x x. exp n * (n - m)) = 0" by (induction x) auto
    then show ?thesis by (simp add: kl_row_def)
  qed
  then have z: "sum_list (map (\<lambda>(x, y). kl_row x y) (zip xs xs)) = 0" for xs by (induction xs) auto
  show ?thesis unfolding divergence_def z by (induction cs) auto
qed

text \<open>
  C19. The streamed detector is exact: after \<open>capture_shift\<close> of the old policy on the source rank,
  \<open>score_shift\<close> of the new policy never runs out of cached values, and the score of a
  trajectory is the mean, over all verifier positions of all its cycles, of the clamped
  divergence of the new from the old distribution; it is zero for a trajectory with no positive
  advantage, never negative, and zero for all when the policy did not change.
\<close>
theorem score_shift_exact:
  assumes "capture_shift old records True = Inr snap" "same_shape new old" "distinct (map trajectory_key records)"
  shows "\<exists>scores. score_shift new snap = Inr scores \<and>
    (\<forall>r\<in>set records. if tr_advantage r > 0
       then \<exists>cs. rmap (cycle_case r) [0..<length (tr_position r)] = Inr cs \<and> scores (trajectory_key r) = shift_of new old cs
       else scores (trajectory_key r) = 0) \<and>
    (\<forall>k. 0 \<le> scores k) \<and> (new = old \<longrightarrow> (\<forall>k. scores k = 0))"
proof -
  let ?pos = "filter (\<lambda>r. tr_advantage r > 0) records"
  obtain css where css: "rmap (\<lambda>r. rmap (cycle_case r) [0..<length (tr_position r)]) ?pos = Inr css"
    and snap: "sn_cache snap = Some (concat (concat (map old (concat css))))" "sn_positive snap = ?pos"
    using assms(1) by (auto simp: capture_shift_def record_cases_def Let_def rbind_eq_Inr)
  let ?kvs = "map (\<lambda>(r, cs). (trajectory_key r, shift_of new old cs)) (zip ?pos css)"
  define scores where "scores = foldl (\<lambda>f (k, v). f(k := v)) (\<lambda>_. 0) ?kvs"
  have run: "score_shift new snap = Inr scores"
    using shift_records_run [OF assms(2) css, of "[]" "\<lambda>_. 0"] snap by (simp add: score_shift_def scores_def foldl_scores)
  have len: "length css = length ?pos" using rmap_length [OF css] .
  have keys: "map fst ?kvs = map trajectory_key ?pos" 
    by (rule nth_equalityI) (use len in \<open>auto simp del: length_filter_conv_card\<close>)
  have d: "distinct (map fst ?kvs)" unfolding keys using assms(3) by (rule distinct_map_filter)
  have val: "(\<exists>cs. rmap (cycle_case r) [0..<length (tr_position r)] = Inr cs \<and> scores (trajectory_key r) = shift_of new old cs)"
    if r: "r \<in> set ?pos" for r
  proof -
    obtain i where i: "i < length ?pos" "r = ?pos ! i" using r by (metis in_set_conv_nth)
    have "rmap (cycle_case r) [0..<length (tr_position r)] = Inr (css ! i)"
      using css i unfolding rmap_eq_Inr by (simp add: list_all2_conv_all_nth)
    moreover have "(trajectory_key r, shift_of new old (css ! i)) \<in> set ?kvs"
      using i len by (auto simp: in_set_conv_nth intro!: image_eqI [of _ _ "(r, css ! i)"] exI [of _ i])
    ultimately show ?thesis using foldl_upd_in [OF d] by (auto simp: scores_def)
  qed
  have out: "scores k = 0" if "k \<notin> trajectory_key ` set ?pos" for k
    using foldl_upd_other [of k ?kvs "\<lambda>_. 0"] that keys unfolding scores_def by (metis list.set_map)
  have in_pos: "r \<in> set ?pos" if "r \<in> set records" "trajectory_key r \<in> trajectory_key ` set ?pos" for r
    using that assms(3) by (auto simp: distinct_map inj_on_def)
  have nn: "0 \<le> scores k \<and> (new = old \<longrightarrow> scores k = 0)" for k
  proof (cases "k \<in> trajectory_key ` set ?pos")
    case True
    then obtain r cs where "scores k = shift_of new old cs" using val by auto
    then show ?thesis using divergence_nonneg [of new old cs] divergence_same [of old cs] by (auto simp: shift_of_def)
  qed (simp add: out)
  have "if tr_advantage r > 0
       then \<exists>cs. rmap (cycle_case r) [0..<length (tr_position r)] = Inr cs \<and> scores (trajectory_key r) = shift_of new old cs
       else scores (trajectory_key r) = 0" if "r \<in> set records" for r
    using val [of r] out [of "trajectory_key r"] in_pos [of r] that by auto
  then show ?thesis using run nn by blast
qed


section \<open>Selection and replacement\<close>

lemma trajectory_scores_eq:
  assumes "distinct (map trajectory_key records)" "r \<in> set records"
  shows "trajectory_scores records shift (trajectory_key r) = max (tr_advantage r) 0 * shift (trajectory_key r)"
proof -
  let ?kvs = "map (\<lambda>r. (trajectory_key r, max (tr_advantage r) 0 * shift (trajectory_key r))) records"
  have "map fst (rev ?kvs) = rev (map trajectory_key records)" by (simp add: rev_map comp_def)
  then have "distinct (map fst (rev ?kvs))" using assms(1) by (simp only: distinct_rev)
  moreover have "(trajectory_key r, max (tr_advantage r) 0 * shift (trajectory_key r)) \<in> set (rev ?kvs)" using assms(2) by auto
  ultimately have "map_of (rev ?kvs) (trajectory_key r) = Some (max (tr_advantage r) 0 * shift (trajectory_key r))"
    by (rule map_of_is_SomeI)
  then show ?thesis by (simp add: trajectory_scores_def)
qed

lemma sorted_take_least:
  assumes "x \<in> set (take n (py_sorted (\<lambda>a b. key a < (key b :: 'k::linorder)) xs))"
    and "y \<in> set (drop n (py_sorted (\<lambda>a b. key a < key b) xs))"
  shows "key x \<le> key y"
proof -
  let ?L = "py_sorted (\<lambda>a b. key a < key b) xs"
  have "sorted_wrt (\<lambda>x y. \<not> key y < key x) ?L"
    by (rule weak_order.ordered_py_sorted [OF key_weak_order])
  then have "sorted_wrt (\<lambda>x y. \<not> key y < key x) (take n ?L @ drop n ?L)" by simp
  then show ?thesis using assms unfolding sorted_wrt_append by (meson not_less)
qed

lemma replacements_keys:
  assumes "replacements eval_full topk k selected rank = Inr reps"
  shows "fst ` set reps \<subseteq> tr_index ` {r \<in> set selected. tr_source_rank r = rank}"
proof -
  obtain rss where rss: "rmap (\<lambda>r. if tr_source_rank r = rank
         then rbind (teacher_replacement eval_full topk k r) (\<lambda>x. Inr [(tr_index r, x)])
         else rbind (rmap (cycle_case r) [0..<length (tr_position r)]) (\<lambda>_. Inr [])) selected = Inr rss" "reps = concat rss"
    using assms by (auto simp: replacements_def rbind_eq_Inr)
  have "fst ` set (rss ! i) \<subseteq> tr_index ` {r \<in> set selected. tr_source_rank r = rank}" if "i < length rss" for i
  proof -
    have len: "length selected = length rss" using rmap_length [OF rss(1)] by simp
    then have mem: "selected ! i \<in> set selected" using that by simp
    have row: "(if tr_source_rank (selected ! i) = rank
         then rbind (teacher_replacement eval_full topk k (selected ! i)) (\<lambda>x. Inr [(tr_index (selected ! i), x)])
         else rbind (rmap (cycle_case (selected ! i)) [0..<length (tr_position (selected ! i))]) (\<lambda>_. Inr [])) = Inr (rss ! i)"
      using rss(1) that len unfolding rmap_eq_Inr by (simp add: list_all2_conv_all_nth)
    show ?thesis
    proof (cases "tr_source_rank (selected ! i) = rank")
      case True
      then have "rbind (teacher_replacement eval_full topk k (selected ! i)) (\<lambda>x. Inr [(tr_index (selected ! i), x)]) = Inr (rss ! i)"
        using row by simp
      then obtain x where "Inr [(tr_index (selected ! i), x)] = (Inr (rss ! i) :: (int \<times> replacement) list result)"
        unfolding rbind_eq_Inr by blast
      then have "rss ! i = [(tr_index (selected ! i), x)]" by simp
      then show ?thesis using mem True by auto
    next
      case False
      then have "rss ! i = []" using row by (auto simp: rbind_eq_Inr)
      then show ?thesis by simp
    qed
  qed
  then show ?thesis unfolding rss(2) by (fastforce simp: in_set_conv_nth)
qed

lemma replace_row_kept:
  "row_draft_tokens (replace_row reps q old) = row_draft_tokens old" "row_position (replace_row reps q old) = row_position old"
  "row_accept_len (replace_row reps q old) = row_accept_len old" "row_prefix_ids (replace_row reps q old) = row_prefix_ids old"
  by (simp_all add: replace_row_def split: option.split)

text \<open>
  C20. \<open>select_trajectories\<close>: it returns for every fraction in [0, 1]; at most
  \<open>\<lceil>fraction \<cdot> n\<rceil>\<close> trajectories are selected, and fewer only if all with a positive score are;
  each has a positive advantage and a positive shift, and no trajectory that was left out
  scores higher than a selected one.
\<close>
theorem select_trajectories_best:
  assumes "0 \<le> fraction" "fraction \<le> 1" "distinct (map trajectory_key records)"
  shows "\<exists>sel scores. select_trajectories records shift fraction = Inr (sel, scores) \<and>
    (\<forall>r\<in>set records. scores (trajectory_key r) = max (tr_advantage r) 0 * shift (trajectory_key r)) \<and>
    length sel = min (length (filter (\<lambda>r. scores (trajectory_key r) > 0) records)) (nat \<lceil>fraction * real (length records)\<rceil>) \<and>
    (\<forall>r\<in>set sel. r \<in> set records \<and> 0 < tr_advantage r \<and> 0 < shift (trajectory_key r)) \<and>
    (\<forall>r\<in>set sel. \<forall>x\<in>set records. x \<notin> set sel \<longrightarrow> scores (trajectory_key x) \<le> scores (trajectory_key r))"
proof -
  define scores where "scores = trajectory_scores records shift"
  define pos where "pos = filter (\<lambda>r. scores (trajectory_key r) > 0) records"
  define n where "n = min (length pos) (nat \<lceil>fraction * real (length records)\<rceil>)"
  define key where "key = (\<lambda>r. (- scores (trajectory_key r), trajectory_key r))"
  define L where "L = py_sorted (\<lambda>a b. key a < key b) pos"
  have run: "select_trajectories records shift fraction = Inr (take n L, scores)"
    using assms(1,2) by (simp add: select_trajectories_def Let_def scores_def pos_def n_def key_def L_def)
  have sc: "scores (trajectory_key r) = max (tr_advantage r) 0 * shift (trajectory_key r)" if "r \<in> set records" for r
    unfolding scores_def by (rule trajectory_scores_eq [OF assms(3) that])
  have setL: "set L = set pos" by (simp add: L_def)
  have len: "length (take n L) = n" by (simp add: L_def n_def)
  have mem: "r \<in> set records \<and> 0 < scores (trajectory_key r)" if "r \<in> set (take n L)" for r
    using in_set_takeD [OF that] setL by (simp add: pos_def)
  have pos_parts: "0 < tr_advantage r \<and> 0 < shift (trajectory_key r)" if "r \<in> set (take n L)" for r
    using mem [OF that] sc [of r] by (auto simp: zero_less_mult_iff max_def split: if_splits)
  have best: "scores (trajectory_key x) \<le> scores (trajectory_key r)"
    if r: "r \<in> set (take n L)" and x: "x \<in> set records" "x \<notin> set (take n L)" for r x
  proof (cases "x \<in> set pos")
    case True
    then have "x \<in> set (drop n L)" using x(2) setL by (metis append_take_drop_id set_append UnE)
    then have "key r \<le> key x" using sorted_take_least [of r n key pos x] r unfolding L_def by blast
    then show ?thesis by (auto simp: key_def less_eq_prod_def)
  next
    case False
    then have "scores (trajectory_key x) \<le> 0" using x(1) by (simp add: pos_def)
    then show ?thesis using mem [OF r] by linarith
  qed
  have "length (take n L) = min (length (filter (\<lambda>r. scores (trajectory_key r) > 0) records)) (nat \<lceil>fraction * real (length records)\<rceil>)"
    using len by (simp only: n_def pos_def)
  then show ?thesis using run sc mem pos_parts best by blast
qed

text \<open>
  C21. \<open>mixed_teacher_batch\<close> preserves the paths: in the new batch every row keeps its draft tokens,
  positions, accepted lengths and prefix tokens; a row whose request is not a selected
  trajectory of this rank keeps its teacher and features too, and the number of rows and
  of cycles is unchanged.
\<close>
theorem mixed_teacher_batch_preserves_paths:
  assumes "mixed_teacher_batch eval_full topk data request_index selected rank k = Inr out" "pk_rows data = Some rows"
  shows "\<exists>rows'. pk_rows out = Some rows' \<and> length rows' = length rows \<and> pk_num_cycles out = pk_num_cycles data \<and>
    (\<forall>i<length rows. row_draft_tokens (rows' ! i) = row_draft_tokens (rows ! i) \<and> row_position (rows' ! i) = row_position (rows ! i) \<and>
       row_accept_len (rows' ! i) = row_accept_len (rows ! i) \<and> row_prefix_ids (rows' ! i) = row_prefix_ids (rows ! i) \<and>
       (request_index ! i \<notin> tr_index ` {r \<in> set selected. tr_source_rank r = rank} \<longrightarrow>
          rows' ! i = row_targets_update (\<lambda>_. None) (rows ! i)))"
proof -
  obtain reps where reps: "replacements eval_full topk k selected rank = Inr reps"
    using assms(1) by (auto simp: mixed_teacher_batch_def rbind_eq_Inr)
  have keys: "fst ` set reps \<subseteq> tr_index ` {r \<in> set selected. tr_source_rank r = rank}"
    by (rule replacements_keys [OF reps])
  obtain rows1 where rows1: "pk_rows out = Some (map (row_targets_update (\<lambda>_. None)) rows1)" "pk_num_cycles out = pk_num_cycles data"
    and r1: "(if reps = [] then Inr rows
       else rmap (\<lambda>(i, old). rbind (py_get request_index i) (\<lambda>request. Inr (replace_row reps request old))) (enumerate 0 rows)) = Inr rows1"
    using assms reps by (auto simp: mixed_teacher_batch_def rbind_eq_Inr)
  have row: "length rows1 = length rows \<and> (\<forall>i<length rows. \<exists>q. rows1 ! i = replace_row reps q (rows ! i) \<and> (reps \<noteq> [] \<longrightarrow> q = request_index ! i))"
  proof (cases "reps = []")
    case True
    then show ?thesis using r1 by (auto simp: replace_row_def)
  next
    case False
    then have "list_all2 (\<lambda>(i, old) y. rbind (py_get request_index i) (\<lambda>request. Inr (replace_row reps request old)) = Inr y) (enumerate 0 rows) rows1"
      using r1 by (simp add: rmap_eq_Inr case_prod_unfold)
    then have "length rows1 = length rows" "\<forall>i<length rows. rows1 ! i = replace_row reps (request_index ! i) (rows ! i)"
      by (auto simp: list_all2_conv_all_nth nth_enumerate_eq rbind_eq_Inr py_get_eq_Inr)
    then show ?thesis by blast
  qed
  have same: "rows1 ! i = rows ! i" if "i < length rows" "request_index ! i \<notin> tr_index ` {r \<in> set selected. tr_source_rank r = rank}" for i
  proof -
    obtain q where q: "rows1 ! i = replace_row reps q (rows ! i)" "reps \<noteq> [] \<longrightarrow> q = request_index ! i" using row \<open>i < length rows\<close> by blast
    have "map_of (rev reps) q = None"
      using q(2) that(2) keys by (cases "reps = []") (auto simp: map_of_eq_None_iff)
    then show ?thesis using q(1) by (simp add: replace_row_def)
  qed
  have kept: "row_draft_tokens (rows1 ! i) = row_draft_tokens (rows ! i) \<and> row_position (rows1 ! i) = row_position (rows ! i) \<and>
       row_accept_len (rows1 ! i) = row_accept_len (rows ! i) \<and> row_prefix_ids (rows1 ! i) = row_prefix_ids (rows ! i)" if "i < length rows" for i
    using row that replace_row_kept by metis
  show ?thesis
    by (rule exI [of _ "map (row_targets_update (\<lambda>_. None)) rows1"]) (use rows1 row kept same in auto)
qed


section \<open>Comparison of distributions\<close>

lemma kl_row_nonneg: "0 \<le> kl_row n m"
  by (simp add: kl_row_def)

lemma tv_row_nonneg: "0 \<le> tv_row n m"
  unfolding tv_row_def by (intro mult_nonneg_nonneg sum_list_nonneg) auto

lemma alpha_row_bounds: "0 \<le> alpha_row p q \<and> alpha_row p q \<le> 1"
  by (simp add: alpha_row_def clamp_def)

lemma cumprod_from_bounds:
  "0 \<le> acc \<Longrightarrow> acc \<le> 1 \<Longrightarrow> (\<forall>x\<in>set xs. 0 \<le> x \<and> x \<le> 1) \<Longrightarrow> (\<forall>y\<in>set (cumprod_from acc xs). 0 \<le> y \<and> y \<le> 1)"
proof (induction xs arbitrary: acc)
  case (Cons x xs)
  have b: "0 \<le> acc * x" "acc * x \<le> 1" using Cons.prems by (simp, intro mult_le_one) auto
  have "\<forall>x\<in>set xs. 0 \<le> x \<and> x \<le> 1" using Cons.prems(3) by simp
  from Cons.IH [OF b this] b show ?case by simp
qed simp

lemma sum_list_bounds:
  assumes "\<forall>x\<in>set xs. a \<le> x \<and> x \<le> (b :: real)"
  shows "real (length xs) * a \<le> sum_list xs" "sum_list xs \<le> real (length xs) * b"
proof -
  have "real (length xs) * a \<le> sum_list xs \<and> sum_list xs \<le> real (length xs) * b"
    using assms
  proof (induction xs)
    case (Cons x xs)
    then have "real (length xs) * a \<le> sum_list xs" "sum_list xs \<le> real (length xs) * b" "a \<le> x" "x \<le> b" by simp_all
    moreover have "real (length (x # xs)) * c = c + real (length xs) * c" for c by (simp add: distrib_right)
    ultimately show ?case by simp
  qed simp
  then show "real (length xs) * a \<le> sum_list xs" "sum_list xs \<le> real (length xs) * b" by blast+
qed

lemma tau_row_bounds:
  assumes "\<forall>a\<in>set alpha. 0 \<le> a \<and> a \<le> 1"
  shows "1 \<le> tau_row alpha" "tau_row alpha \<le> 1 + real (length alpha)"
proof -
  have b: "\<forall>y\<in>set (cumprod alpha). 0 \<le> y \<and> y \<le> 1"
    unfolding cumprod_def by (rule cumprod_from_bounds [OF _ _ assms]) simp_all
  show "1 \<le> tau_row alpha" "tau_row alpha \<le> 1 + real (length alpha)"
    using sum_list_bounds [OF b] by (simp_all add: tau_row_def)
qed

lemma mean_between: "xs \<noteq> [] \<Longrightarrow> \<forall>x\<in>set xs. a \<le> x \<and> x \<le> b \<Longrightarrow> a \<le> mean xs \<and> mean xs \<le> b"
proof -
  assume ne: "xs \<noteq> []" and b: "\<forall>x\<in>set xs. a \<le> x \<and> x \<le> b"
  have n: "0 < real (length xs)" using ne by simp
  show ?thesis
    using sum_list_bounds [OF b] unfolding mean_def pos_le_divide_eq [OF n] pos_divide_le_eq [OF n] by (simp add: mult.commute)
qed

lemma mean_diff: "length xs = length ys \<Longrightarrow> mean (map (\<lambda>(x, y). x - y) (zip xs ys)) = mean xs - mean ys"
proof -
  assume len: "length xs = length ys"
  then have "sum_list (map (\<lambda>(x, y). x - y) (zip xs ys)) = sum_list xs - sum_list ys"
    by (induction xs ys rule: list_induct2) auto
  then show ?thesis using len by (simp add: mean_def diff_divide_distrib)
qed

lemma probe_row_bounds:
  assumes "length new = d" "length old = d" "length draft = d" "length updated = d"
  shows "1 \<le> pr_tau_pre (probe_row_of old new draft updated) \<and> pr_tau_pre (probe_row_of old new draft updated) \<le> 1 + real d"
    "1 \<le> pr_tau_fixed (probe_row_of old new draft updated) \<and> pr_tau_fixed (probe_row_of old new draft updated) \<le> 1 + real d"
    "1 \<le> pr_tau_joint (probe_row_of old new draft updated) \<and> pr_tau_joint (probe_row_of old new draft updated) \<le> 1 + real d"
proof -
  have "1 \<le> tau_row (map (\<lambda>(p, q). alpha_row p q) (zip ps qs)) \<and> tau_row (map (\<lambda>(p, q). alpha_row p q) (zip ps qs)) \<le> 1 + real d"
    if "length ps = d" "length qs = d" for ps qs
  proof -
    have "\<forall>a\<in>set (map (\<lambda>(p, q). alpha_row p q) (zip ps qs)). 0 \<le> a \<and> a \<le> 1"
    proof
      fix a assume "a \<in> set (map (\<lambda>(p, q). alpha_row p q) (zip ps qs))"
      then obtain p q where "a = alpha_row p q" by auto
      then show "0 \<le> a \<and> a \<le> 1" using alpha_row_bounds by simp
    qed
    from tau_row_bounds [OF this] show ?thesis using that by simp
  qed
  then show "1 \<le> pr_tau_pre (probe_row_of old new draft updated) \<and> pr_tau_pre (probe_row_of old new draft updated) \<le> 1 + real d"
    "1 \<le> pr_tau_fixed (probe_row_of old new draft updated) \<and> pr_tau_fixed (probe_row_of old new draft updated) \<le> 1 + real d"
    "1 \<le> pr_tau_joint (probe_row_of old new draft updated) \<and> pr_tau_joint (probe_row_of old new draft updated) \<le> 1 + real d"
    using assms by (simp_all add: probe_row_of_def Let_def)
qed


text \<open>The values of one cycle paired up, over all cycles.\<close>

definition all_pairs :: "(real list \<Rightarrow> real list \<Rightarrow> real) \<Rightarrow> logprobs \<Rightarrow> logprobs \<Rightarrow> real list" where
  "all_pairs f xs ys = concat (map (\<lambda>(n, m). map (\<lambda>(x, y). f x y) (zip n m)) (zip xs ys))"

lemma all_pairs_in: "v \<in> set (all_pairs f xs ys) \<Longrightarrow> \<exists>x y. v = f x y"
  by (auto simp: all_pairs_def)

lemma all_pairs_same: "v \<in> set (all_pairs f xs xs) \<Longrightarrow> \<exists>x. v = f x x"
  by (auto simp: all_pairs_def in_set_zip)

lemma all_pairs_nonempty:
  assumes "shape3 xs = shape3 ys" "concat (concat ys) \<noteq> []"
  shows "all_pairs f xs ys \<noteq> []"
proof -
  obtain m where m: "m \<in> set ys" "m \<noteq> []" using assms(2) by fastforce
  then obtain i where i: "i < length ys" "ys ! i = m" by (auto simp: in_set_conv_nth)
  have len: "length xs = length ys" using arg_cong [OF assms(1), of length] by (simp add: shape3_def)
  have "length (xs ! i) = length m"
    using arg_cong [OF assms(1), of "\<lambda>l. length (l ! i)"] i len by (simp add: shape3_def)
  then have "map (\<lambda>(x, y). f x y) (zip (xs ! i) m) \<noteq> []" using m(2) by (cases m; cases "xs ! i") auto
  moreover have "map (\<lambda>(x, y). f x y) (zip (xs ! i) m) \<in> set (map (\<lambda>(n, m). map (\<lambda>(x, y). f x y) (zip n m)) (zip xs ys))"
    using i len by (force simp: in_set_zip)
  ultimately show ?thesis unfolding all_pairs_def by (metis concat_eq_Nil_conv)
qed

lemma shape3_depth: "shape3 xs = shape3 ys \<Longrightarrow> i < length ys \<Longrightarrow> length xs = length ys \<and> length (xs ! i) = length (ys ! i)"
proof -
  assume e: "shape3 xs = shape3 ys" and i: "i < length ys"
  have "length xs = length ys" using arg_cong [OF e, of length] by (simp add: shape3_def)
  moreover from this have "length (xs ! i) = length (ys ! i)"
    using arg_cong [OF e, of "\<lambda>l. length (l ! i)"] i by (simp add: shape3_def)
  ultimately show ?thesis by simp
qed

lemma kl_tv_same: "kl_row x x = 0" "tv_row x x = 0"
proof -
  have "(\<Sum>(n, m)\<leftarrow>zip x x. exp n * (n - m)) = 0" "(\<Sum>(n, m)\<leftarrow>zip x x. \<bar>exp n - exp m\<bar>) = 0" by (induction x) auto
  then show "kl_row x x = 0" "tv_row x x = 0" by (simp_all add: kl_row_def tv_row_def)
qed

lemma mean_map_diff: "mean (map (\<lambda>r. f r - g r) rs) = mean (map f rs) - mean (map g rs)"
proof -
  have "(\<Sum>r\<leftarrow>rs. f r - g r) = (\<Sum>r\<leftarrow>rs. f r) - (\<Sum>r\<leftarrow>rs. g r)" by (induction rs) auto
  then show ?thesis by (simp add: mean_def diff_divide_distrib)
qed

lemma mean_zero: "(\<forall>x\<in>set xs. x = 0) \<Longrightarrow> mean xs = 0"
proof -
  assume "\<forall>x\<in>set xs. x = 0"
  then have "sum_list xs = 0" by (induction xs) auto
  then show ?thesis by (simp add: mean_def)
qed

text \<open>What a successful comparison returned.\<close>

lemma compare_distributions_Inr:
  assumes "compare_distributions old new draft updated = Inr (m, rows)"
  shows "shape3 new = shape3 old" "shape3 draft = shape3 old" "shape3 updated = shape3 old" "concat (concat old) \<noteq> []"
    "rows = map (\<lambda>(o1, n1, d1, u1). probe_row_of o1 n1 d1 u1) (zip old (zip new (zip draft updated)))"
    "pm_kl_mean m = mean (all_pairs kl_row new old)" "pm_tv_mean m = mean (all_pairs tv_row new old)"
    "pm_kl_max m = foldl max (hd (all_pairs kl_row new old)) (tl (all_pairs kl_row new old))"
    "pm_tau_pre m = mean (map pr_tau_pre rows)" "pm_tau_fixed m = mean (map pr_tau_fixed rows)"
    "pm_tau_joint m = mean (map pr_tau_joint rows)"
    "pm_delta_lag m = mean (map pr_delta_lag rows)" "pm_joint_gain m = mean (map pr_joint_gain rows)"
  using assms unfolding compare_distributions_def Let_def all_pairs_def by (auto split: if_split_asm)

text \<open>
  The probe's metrics: when \<open>compare_distributions\<close> returns, the mean divergence lies between zero
  and the reported maximum, the total variation is not negative, the lag and the joint gain are
  the differences of the reported chains, every chain lies between one and one plus the draft
  depth; and a policy that did not change has no divergence, no variation and no lag.
\<close>
lemma compare_distributions_bounds:
  assumes "compare_distributions old new draft updated = Inr (m, rows)" "\<forall>c\<in>set old. length c = d"
  shows "0 \<le> pm_kl_mean m \<and> pm_kl_mean m \<le> pm_kl_max m \<and> 0 \<le> pm_tv_mean m \<and>
    pm_delta_lag m = pm_tau_pre m - pm_tau_fixed m \<and> pm_joint_gain m = pm_tau_joint m - pm_tau_fixed m \<and>
    (\<forall>t\<in>{pm_tau_pre m, pm_tau_fixed m, pm_tau_joint m}. 1 \<le> t \<and> t \<le> 1 + real d) \<and>
    (new = old \<longrightarrow> pm_kl_mean m = 0 \<and> pm_tv_mean m = 0 \<and> pm_delta_lag m = 0)"
proof -
  note c = compare_distributions_Inr [OF assms(1)]
  let ?kl = "all_pairs kl_row new old" and ?tv = "all_pairs tv_row new old"
  have ne: "?kl \<noteq> []" "?tv \<noteq> []" using all_pairs_nonempty [OF c(1,4)] by blast+
  have kl: "\<forall>v\<in>set ?kl. 0 \<le> v \<and> v \<le> pm_kl_max m"
  proof
    fix v assume v: "v \<in> set ?kl"
    then have "v \<in> set (hd ?kl # tl ?kl)" using ne(1) by simp
    then show "0 \<le> v \<and> v \<le> pm_kl_max m"
      unfolding c(8) using foldl_max_ge [of v "hd ?kl" "tl ?kl"] all_pairs_in [OF v] kl_row_nonneg by auto
  qed
  have "\<forall>v\<in>set ?tv. 0 \<le> v \<and> v \<le> foldl max (hd ?tv) (tl ?tv)"
  proof
    fix v assume v: "v \<in> set ?tv"
    then have "v \<in> set (hd ?tv # tl ?tv)" using ne(2) by simp
    then show "0 \<le> v \<and> v \<le> foldl max (hd ?tv) (tl ?tv)"
      using foldl_max_ge [of v "hd ?tv" "tl ?tv"] all_pairs_in [OF v] tv_row_nonneg by auto
  qed
  then have tv: "0 \<le> pm_tv_mean m" unfolding c(7) using mean_between [OF ne(2)] by blast
  have lag: "pm_delta_lag m = pm_tau_pre m - pm_tau_fixed m" "pm_joint_gain m = pm_tau_joint m - pm_tau_fixed m"
    unfolding c(9-13) by (simp_all add: c(5) probe_row_of_def Let_def case_prod_unfold comp_def flip: mean_map_diff)
  have row: "\<exists>i<length old. r = probe_row_of (old ! i) (new ! i) (draft ! i) (updated ! i)" if "r \<in> set rows" for r
  proof -
    have "r \<in> set (map (\<lambda>(o1, n1, d1, u1). probe_row_of o1 n1 d1 u1) (zip old (zip new (zip draft updated))))" using that unfolding c(5) .
    then obtain i where "i < length old" "r = probe_row_of (old ! i) (new ! i) (draft ! i) (updated ! i)"
      by (auto simp: in_set_zip)
    then show ?thesis by blast
  qed
  have rne: "rows \<noteq> []" using c(1-4) shape3_depth [OF c(1), of 0] shape3_depth [OF c(2), of 0] shape3_depth [OF c(3), of 0]
    unfolding c(5) by (cases old; cases new; cases draft; cases updated) auto
  have tau: "1 \<le> pr_tau_pre r \<and> pr_tau_pre r \<le> 1 + real d" "1 \<le> pr_tau_fixed r \<and> pr_tau_fixed r \<le> 1 + real d"
    "1 \<le> pr_tau_joint r \<and> pr_tau_joint r \<le> 1 + real d" if "r \<in> set rows" for r
  proof -
    obtain i where i: "i < length old" "r = probe_row_of (old ! i) (new ! i) (draft ! i) (updated ! i)" using row [OF \<open>r \<in> set rows\<close>] by blast
    have d: "length (old ! i) = d" using assms(2) i(1) by simp
    show "1 \<le> pr_tau_pre r \<and> pr_tau_pre r \<le> 1 + real d" "1 \<le> pr_tau_fixed r \<and> pr_tau_fixed r \<le> 1 + real d"
      "1 \<le> pr_tau_joint r \<and> pr_tau_joint r \<le> 1 + real d"
      unfolding i(2) using probe_row_bounds [of "new ! i" d "old ! i" "draft ! i" "updated ! i"] d
        shape3_depth [OF c(1) i(1)] shape3_depth [OF c(2) i(1)] shape3_depth [OF c(3) i(1)] by simp_all
  qed
  have "1 \<le> mean (map f rows) \<and> mean (map f rows) \<le> 1 + real d" if "\<And>r. r \<in> set rows \<Longrightarrow> 1 \<le> f r \<and> f r \<le> 1 + real d" for f
    by (rule mean_between) (use rne that in auto)
  then have taus: "\<forall>t\<in>{pm_tau_pre m, pm_tau_fixed m, pm_tau_joint m}. 1 \<le> t \<and> t \<le> 1 + real d"
    unfolding c(9-11) using tau by auto
  have "pm_kl_mean m = 0 \<and> pm_tv_mean m = 0 \<and> pm_delta_lag m = 0" if "new = old"
  proof -
    have "pr_tau_pre r = pr_tau_fixed r" if "r \<in> set rows" for r
      using row [OF that] \<open>new = old\<close> by (auto simp: probe_row_of_def Let_def)
    then have e: "map pr_tau_pre rows = map pr_tau_fixed rows" by simp
    have "pm_delta_lag m = 0" unfolding lag(1) c(9,10) e by (simp only: diff_self)
    moreover have "pm_kl_mean m = 0" "pm_tv_mean m = 0"
      unfolding c(6,7) \<open>new = old\<close> by (rule mean_zero, use all_pairs_same kl_tv_same in fastforce)+
    ultimately show ?thesis by simp
  qed
  then show ?thesis using kl mean_between [OF ne(1) kl] tv lag taus unfolding c(6) by blast
qed

text \<open>
  A smaller budget selects a prefix of what a larger one selects, in the order of the priorities.
\<close>

lemma select_cases_prefix:
  assumes "select_cases choice rand g records M ctx = Inr full" "0 < k" "k \<le> M"
  shows "select_cases choice rand g records k ctx = Inr (take k full) \<and> sorted_wrt (\<lambda>x y. \<not> fst x < fst y) full"
proof -
  have pos: "M \<noteq> 0" "ctx \<noteq> 0" using assms by (auto simp: select_cases_def split: if_splits)
  let ?f = "\<lambda>(priority, r, cycle). rbind (cycle_case r cycle) (\<lambda>c. Inr (priority, c))"
  obtain g' cands where c: "rfold (candidate_step choice rand ctx) (g, []) records = Inr (g', cands)"
    and r: "rmap ?f (nlargest M fst cands) = Inr full"
    using assms(1) pos by (auto simp: select_cases_def rbind_def split: sum.splits prod.splits)
  let ?L = "py_sorted_rev (\<lambda>a b. fst a < fst b) cands"
  have all: "list_all2 (\<lambda>x y. ?f x = Inr y) (take M ?L) full" using r by (simp only: rmap_eq_Inr nlargest_def)
  have "list_all2 (\<lambda>x y. ?f x = Inr y) (take k (take M ?L)) (take k full)" by (rule list_all2_takeI [OF all])
  then have "rmap ?f (nlargest k fst cands) = Inr (take k full)"
    using assms(3) by (simp only: rmap_eq_Inr nlargest_def take_take min_absorb1)
  moreover have "map fst full = map fst (take M ?L)"
  proof -
    have "fst y = fst x" if "?f x = Inr y" for x y using that by (auto simp: rbind_def split: prod.splits sum.splits)
    then have "list_all2 (\<lambda>x y. fst y = fst x) (take M ?L) full" by (rule list_all2_mono [OF all])
    then show ?thesis by (induction rule: list_all2_induct) simp_all
  qed
  then have "sorted_wrt (\<lambda>x y. \<not> x < y) (map fst full)"
    using sorted_wrt_take [OF weak_order.ordered_py_sorted_rev [OF key_weak_order [of fst]], of M cands] by (simp only: sorted_wrt_map)
  ultimately show ?thesis using c pos assms(2) by (simp add: select_cases_def sorted_wrt_map)
qed

text \<open>
  Local selection loses nothing: each rank selects with the small budget \<open>k\<close>, and the synchronised selection
  is the one that would be made from the selections with a larger budget, as long as no two priorities drawn
  on any rank are equal.
\<close>

theorem synchronized_local_selections:
  assumes "map (\<lambda>(g, records). select_cases choice rand g records M ctx) ranks = map Inr fulls"
    and "0 < k" "k \<le> M" "distinct (map fst (concat fulls))"
  shows "\<exists>locals. map (\<lambda>(g, records). select_cases choice rand g records k ctx) ranks = map Inr locals \<and>
    synchronized_cases locals k = synchronized_cases fulls k"
proof -
  have key: "case_key x < case_key y" if "fst x < fst y" for x y using that by (auto simp: case_key_def)
  have sel: "select_cases choice rand (fst x) (snd x) k ctx = Inr (take k full) \<and> sorted_wrt (\<lambda>x y. \<not> fst x < fst y) full"
    if "select_cases choice rand (fst x) (snd x) M ctx = Inr full" for x full
    by (rule select_cases_prefix [OF that assms(2,3)])
  have rank: "list_all2 (\<lambda>x full. select_cases choice rand (fst x) (snd x) M ctx = Inr full) ranks fulls"
    using assms(1) by (simp add: list_all2_conv_all_nth list_eq_iff_nth_eq split_beta)
  have "map (\<lambda>(g, records). select_cases choice rand g records k ctx) ranks = map Inr (map (take k) fulls)"
    using list_all2_lengthD [OF rank] list_all2_nthD [OF rank] sel by (intro nth_equalityI) (auto simp: split_beta)
  moreover have top: "nlargest k case_key full = take k full" if full: "full \<in> set fulls" for full
  proof (rule nlargest_sorted)
    obtain i where i: "i < length fulls" "full = fulls ! i" using full by (auto simp: in_set_conv_nth)
    have "distinct (map fst full)" using assms(4) full by (auto simp: map_concat distinct_concat_iff)
    then have "sorted_wrt (\<lambda>x y. fst y < fst x) full"
      using sel list_all2_nthD2 [OF rank i(1)] i(2) by (intro strict_if_distinct) blast+
    then show "sorted_wrt (\<lambda>x y. case_key y < case_key x) full" by (rule sorted_wrt_mono_rel [rotated]) (rule key)
  qed
  moreover have "distinct (map case_key (concat fulls))"
  proof -
    have "distinct (map fst (map case_key (concat fulls)))" using assms(4) by (simp add: case_key_def comp_def)
    then show ?thesis unfolding distinct_map [of fst] by blast
  qed
  then have "nlargest k case_key (concat (map (nlargest k case_key) fulls)) = nlargest k case_key (concat fulls)" by (rule nlargest_merge)
  then have "synchronized_cases (map (take k) fulls) k = synchronized_cases fulls k"
    using top by (simp add: synchronized_cases_def cong: map_cong)
  ultimately show ?thesis by blast
qed

text \<open>
  The verifier path of a cycle: when \<open>cycle_case\<close> returns, its input starts with the actual
  tokens of the trajectory up to and including the cycle's seed, continues with the draft
  tokens but the last, and so has exactly one verifier position per draft after the anchor.
\<close>
theorem cycle_case_verifier_path:
  assumes "cycle_case r cycle = Inr c"
  shows "take (nat (pc_position c + 2)) (pc_input_ids c) = take (nat (pc_position c + 2)) (tr_target_ids r) \<and>
    drop (nat (pc_position c + 1)) (pc_input_ids c) = butlast (tr_draft_tokens r ! cycle) \<and>
    int (length (pc_input_ids c)) - (pc_position c + 1) = int (length (tr_draft_tokens r ! cycle)) - 1"
  using cycle_case_path [OF assms] cycle_case_context(4) [OF assms] by simp


section \<open>The properties at concrete inputs\<close>

definition example_trajectory :: trajectory where
  "example_trajectory = \<lparr>tr_source_rank = 0, tr_index = 7, tr_advantage = 1, tr_score = 1, tr_position = [1],
     tr_draft_tokens = [[12, 13, 14]], tr_prefix_ids = [11, 12], tr_target_ids = [10, 11, 12, 13, 14], tr_accept_len = [2]\<rparr>"

definition example_case :: probe_case where
  "example_case = \<lparr>pc_input_ids = [10, 11, 12, 13], pc_draft_tokens = [12, 13, 14], pc_position = 1, pc_cycle_index = 0,
     pc_trajectory_index = 7, pc_source_rank = 0, pc_advantage = 1, pc_score = 1, pc_verify_valid_length = 2\<rparr>"

lemma example_cycle_case: "cycle_case example_trajectory 0 = Inr example_case"
  by (simp add: cycle_case_def example_trajectory_def example_case_def numeral_eq_Suc)

theorem cycle_case_verifier_path_witness:
  "cycle_case example_trajectory 0 = Inr example_case \<and>
   drop (nat (pc_position example_case + 1)) (pc_input_ids example_case) = butlast (tr_draft_tokens example_trajectory ! 0)"
  using example_cycle_case cycle_case_verifier_path [OF example_cycle_case] by simp

text \<open>A policy that changed: the score is the divergence of the two distributions at the two verifier positions.\<close>

theorem score_shift_exact_witness:
  "\<exists>snap scores. capture_shift (\<lambda>_. [[ln (1 / 2), ln (1 / 2)], [0, 0]]) [example_trajectory] True = Inr snap \<and>
     score_shift (\<lambda>_. [[ln (1 / 4), ln (3 / 4)], [0, 0]]) snap = Inr scores \<and>
     scores (0, 7) = shift_of (\<lambda>_. [[ln (1 / 4), ln (3 / 4)], [0, 0]]) (\<lambda>_. [[ln (1 / 2), ln (1 / 2)], [0, 0]]) [example_case]"
proof -
  let ?old = "\<lambda>_ :: probe_case. [[ln (1 / 2), ln (1 / 2)], [0, 0 :: real]]"
  let ?new = "\<lambda>_ :: probe_case. [[ln (1 / 4), ln (3 / 4)], [0, 0 :: real]]"
  have c: "rmap (cycle_case example_trajectory) [0..<length (tr_position example_trajectory)] = Inr [example_case]"
    using example_cycle_case by (simp add: example_trajectory_def)
  then obtain snap where s: "capture_shift ?old [example_trajectory] True = Inr snap"
    by (simp add: capture_shift_def record_cases_def) (simp add: example_trajectory_def)
  have "same_shape ?new ?old" by (simp add: same_shape_def row_width_def)
  from score_shift_exact [OF s this] obtain scores where "score_shift ?new snap = Inr scores"
    "scores (trajectory_key example_trajectory) = shift_of ?new ?old [example_case]"
    using c by (auto simp: example_trajectory_def)
  then show ?thesis using s by (auto simp: example_trajectory_def trajectory_key_def)
qed

theorem select_trajectories_best_witness:
  "\<exists>sel scores. select_trajectories [example_trajectory] (\<lambda>_. 2) (1 / 2) = Inr (sel, scores) \<and>
     scores (trajectory_key example_trajectory) = 2 \<and> (\<forall>r\<in>set sel. r = example_trajectory)"
  using select_trajectories_best [of "1 / 2" "[example_trajectory]" "\<lambda>_. 2"] by (auto simp: example_trajectory_def)

definition example_row :: "real mtp_row" where
  "example_row = \<lparr>row_hidden = [[1]], row_draft_tokens = [[12, 13, 14]], row_topk_val = [[[0]]], row_topk_idx = [[[0]]],
     row_position = [1], row_accept_len = [2], row_prefix_hidden = [[1], [1]], row_prefix_ids = [11, 12], row_targets = None\<rparr>"

text \<open>Two rows, of which the first belongs to the selected trajectory: its teacher is replaced, its path is not.\<close>

theorem mixed_teacher_batch_preserves_paths_witness:
  "\<exists>out rows'. mixed_teacher_batch (\<lambda>_. ([[- 1, 0]], [[8], [9]])) (\<lambda>k row. take k (zip row [0, 1]))
       \<lparr>pk_rows = Some [example_row, example_row], pk_num_cycles = [1, 1]\<rparr> [7, 5] [example_trajectory] 0 2 = Inr out \<and>
     pk_rows out = Some rows' \<and> row_topk_val (rows' ! 0) = [[[- 1, 0]]] \<and> row_hidden (rows' ! 0) = [[9]] \<and>
     row_draft_tokens (rows' ! 0) = [[12, 13, 14]] \<and> row_prefix_ids (rows' ! 0) = [11, 12] \<and>
     rows' ! 1 = row_targets_update (\<lambda>_. None) example_row"
proof -
  let ?data = "\<lparr>pk_rows = Some [example_row, example_row], pk_num_cycles = [1, 1]\<rparr>"
  let ?eval = "\<lambda>_ :: probe_case. ([[- 1, 0 :: real]], [[8], [9 :: real]])" and ?topk = "\<lambda>k row. take k (zip row [0, 1 :: int])"
  define rep where "rep = \<lparr>rp_topk_val = [[[- 1, 0]]], rp_topk_idx = [[[0, 1]]], rp_prefix_hidden = [[8], [9]], rp_hidden = [[9 :: real]]\<rparr>"
  have c: "rmap (cycle_case example_trajectory) [0..<length (tr_position example_trajectory)] = Inr [example_case]"
    using example_cycle_case by (simp add: example_trajectory_def)
  have p: "tr_position example_trajectory = [1]" "tr_source_rank example_trajectory = 0" "tr_index example_trajectory = 7"
    by (simp_all add: example_trajectory_def)
  have r: "teacher_replacement ?eval ?topk 2 example_trajectory = Inr rep"
    unfolding teacher_replacement_def c rbind_Inr by (simp add: p rep_def numeral_2_eq_2 Let_def)
  have e: "mixed_teacher_batch ?eval ?topk ?data [7, 5] [example_trajectory] 0 2 =
      Inr (?data\<lparr>pk_rows := Some [row_targets_update (\<lambda>_. None) (replace_row [(7, rep)] 7 example_row), row_targets_update (\<lambda>_. None) (replace_row [(7, rep)] 5 example_row)]\<rparr>)"
    by (simp add: mixed_teacher_batch_def replacements_def p r py_get_def)
  show ?thesis
    using mixed_teacher_batch_preserves_paths [OF e, of "[example_row, example_row]"] e
    by (auto simp: p All_less_Suc rep_def replace_row_def example_row_def)
qed

end
