(* ===== verification/Kv_Pool.thy ===== *)
theory Kv_Pool
  imports Prelude
begin

text \<open>
  The page allocators of the KV cache (\<open>sglang/srt/mem_cache/allocator.py\<close>): the state all
  allocators share, \<open>TokenToKVPoolAllocator\<close> (pages of one token) and the operations of
  \<open>PagedTokenToKVPoolAllocator\<close> other than the two kernels.

  \<^item> \<open>kv_pool\<close> is the state. Page 0 is the padded slot and is never handed out.
  \<^item> The locale \<open>page_pool\<close> states what a pool promises of its operations, as multisets of pages; \<open>pool_run\<close>
    is the state machine of a pool and its client, who remembers the pages it holds.
  \<^item> Both allocators are interpretations of \<open>page_pool\<close>. Its conservation law is used here for the slots of the
    token allocator; the paged one has two more ways to take pages, and its runs are in \<open>Paged_Alloc\<close>.
\<close>

section \<open>\<open>BaseTokenToKVPoolAllocator\<close>\<close>

record kv_pool =
  kp_size :: nat
  kp_page_size :: nat
  kp_need_sort :: bool
  kp_free_pages :: "nat list"
  kp_release_pages :: "nat list"
  kp_not_in_free_group :: bool
  kp_free_group :: "nat list list"

definition available_size :: "kv_pool \<Rightarrow> nat" where
  "available_size s = (length (kp_free_pages s) + length (kp_release_pages s)) * kp_page_size s"

definition backup_state :: "kv_pool \<Rightarrow> nat list \<times> nat list" where
  "backup_state s = (kp_free_pages s, kp_release_pages s)"

definition restore_state :: "kv_pool \<Rightarrow> nat list \<times> nat list \<Rightarrow> kv_pool" where
  "restore_state s b = s\<lparr> kp_free_pages := fst b, kp_release_pages := snd b \<rparr>"

definition free_group_begin :: "kv_pool \<Rightarrow> kv_pool" where
  "free_group_begin s = s\<lparr> kp_not_in_free_group := False, kp_free_group := [] \<rparr>"

definition free_group_end :: "(kv_pool \<Rightarrow> nat list \<Rightarrow> kv_pool) \<Rightarrow> kv_pool \<Rightarrow> kv_pool" where
  "free_group_end free s =
     (let s = s\<lparr> kp_not_in_free_group := True \<rparr> in
      if kp_free_group s \<noteq> [] then free s (concat (kp_free_group s)) else s)"

definition merge_and_sort_free :: "kv_pool \<Rightarrow> kv_pool" where
  "merge_and_sort_free s =
     (if kp_release_pages s \<noteq> []
      then s\<lparr> kp_free_pages := sort (kp_free_pages s @ kp_release_pages s), kp_release_pages := [] \<rparr> else s)"

definition pool_clear :: "nat \<Rightarrow> kv_pool \<Rightarrow> kv_pool" where
  "pool_clear num_pages s =
     s\<lparr> kp_free_pages := [1..<num_pages + 1], kp_not_in_free_group := True, kp_free_group := [], kp_release_pages := [] \<rparr>"

definition base_init :: "nat \<Rightarrow> nat \<Rightarrow> bool \<Rightarrow> kv_pool" where
  "base_init sz page_size need_sort = \<lparr> kp_size = sz, kp_page_size = page_size, kp_need_sort = need_sort,
     kp_free_pages = [], kp_release_pages = [], kp_not_in_free_group = True, kp_free_group = [] \<rparr>"

section \<open>\<open>TokenToKVPoolAllocator\<close>\<close>

definition token_clear :: "kv_pool \<Rightarrow> kv_pool" where
  "token_clear s = pool_clear (kp_size s) s"

definition token_init :: "nat \<Rightarrow> bool \<Rightarrow> kv_pool" where
  "token_init sz need_sort = token_clear (base_init sz 1 need_sort)"

definition token_available_size :: "kv_pool \<Rightarrow> nat" where
  "token_available_size s = length (kp_free_pages s) + length (kp_release_pages s)"

definition token_alloc :: "kv_pool \<Rightarrow> nat \<Rightarrow> nat list option \<times> kv_pool" where
  "token_alloc s need_size =
     (let s = (if kp_need_sort s \<and> need_size > length (kp_free_pages s) then merge_and_sort_free s else s) in
      if need_size > length (kp_free_pages s) then (None, s)
      else (Some (take need_size (kp_free_pages s)), s\<lparr> kp_free_pages := drop need_size (kp_free_pages s) \<rparr>))"

definition token_free :: "kv_pool \<Rightarrow> nat list \<Rightarrow> kv_pool" where
  "token_free s free_index =
     (if free_index = [] then s
      else if kp_not_in_free_group s
      then if kp_need_sort s then s\<lparr> kp_release_pages := kp_release_pages s @ free_index \<rparr>
           else s\<lparr> kp_free_pages := kp_free_pages s @ free_index \<rparr>
      else s\<lparr> kp_free_group := kp_free_group s @ [free_index] \<rparr>)"

section \<open>\<open>PagedTokenToKVPoolAllocator\<close>\<close>

definition paged_clear :: "kv_pool \<Rightarrow> kv_pool" where
  "paged_clear s = pool_clear (kp_size s div kp_page_size s) s"

definition paged_init :: "nat \<Rightarrow> nat \<Rightarrow> bool \<Rightarrow> kv_pool" where
  "paged_init sz page_size need_sort = paged_clear (base_init sz page_size need_sort)"

definition page_indices :: "nat \<Rightarrow> nat list \<Rightarrow> nat list" where
  "page_indices page_size pages = concat (map (\<lambda>p. map (\<lambda>j. p * page_size + j) [0..<page_size]) pages)"

definition paged_alloc :: "kv_pool \<Rightarrow> nat \<Rightarrow> nat list option \<times> kv_pool" where
  "paged_alloc s need_size =
     (let num_pages = need_size div kp_page_size s;
          s = (if kp_need_sort s \<and> num_pages > length (kp_free_pages s) then merge_and_sort_free s else s)
      in if num_pages > length (kp_free_pages s) then (None, s)
         else (Some (page_indices (kp_page_size s) (take num_pages (kp_free_pages s))),
               s\<lparr> kp_free_pages := drop num_pages (kp_free_pages s) \<rparr>))"

text \<open>\<open>torch.unique(free_index // page_size)\<close>: sorted, without duplicates.\<close>

definition unique_pages :: "nat \<Rightarrow> nat list \<Rightarrow> nat list" where
  "unique_pages page_size free_index = sort (remdups (map (\<lambda>i. i div page_size) free_index))"

definition paged_free :: "kv_pool \<Rightarrow> nat list \<Rightarrow> kv_pool" where
  "paged_free s free_index =
     (if free_index = [] then s
      else if kp_not_in_free_group s
      then let free_page_indices = unique_pages (kp_page_size s) free_index in
           if kp_need_sort s then s\<lparr> kp_release_pages := free_page_indices @ kp_release_pages s \<rparr>
           else s\<lparr> kp_free_pages := free_page_indices @ kp_free_pages s \<rparr>
      else s\<lparr> kp_free_group := kp_free_group s @ [free_index] \<rparr>)"

section \<open>The contract of a pool\<close>

definition no_dup :: "'a multiset \<Rightarrow> bool" where
  "no_dup M \<longleftrightarrow> (\<forall>x. count M x \<le> 1)"

lemma no_dup_mset [simp]: "no_dup (mset xs) \<longleftrightarrow> distinct xs"
proof -
  have "count (mset xs) x \<le> 1 \<longleftrightarrow> count (mset xs) x = (if x \<in> set xs then 1 else 0)" for x
  proof (cases "x \<in> set xs")
    case True
    then have "count (mset xs) x \<noteq> 0" by simp
    then show ?thesis using True by (simp only: if_True) linarith
  next
    case False
    then have "count (mset xs) x = 0" by simp
    then show ?thesis using False by (simp only: if_False) linarith
  qed
  then show ?thesis unfolding no_dup_def distinct_count_atmost_1 by blast
qed

lemma no_dup_mono: "A \<subseteq># B \<Longrightarrow> no_dup B \<Longrightarrow> no_dup A"
  unfolding no_dup_def by (meson le_trans mset_subset_eq_count)

lemma no_dup_disjoint: "no_dup (A + B) \<Longrightarrow> set_mset A \<inter> set_mset B = {}"
proof (rule ccontr)
  assume d: "no_dup (A + B)" and "set_mset A \<inter> set_mset B \<noteq> {}"
  then obtain x where "x \<in># A" "x \<in># B" by blast
  then have "1 \<le> count A x" "1 \<le> count B x" by (simp_all add: Suc_le_eq)
  then have "2 \<le> count (A + B) x" unfolding count_union by linarith
  with d show False unfolding no_dup_def by (metis Suc_1 not_less_eq_eq)
qed

text \<open>
  A pool and its client. The client holds the pages of \<open>used\<close>; it frees index lists whose pages it
  holds, and opens and closes free groups in turn.
\<close>

datatype pool_op = Alloc nat | Free "nat list" | Group_Begin | Group_End

inductive pool_run ::
  "('s \<Rightarrow> nat \<Rightarrow> nat list option \<times> 's) \<Rightarrow> ('s \<Rightarrow> nat list \<Rightarrow> 's) \<Rightarrow> ('s \<Rightarrow> 's) \<Rightarrow> ('s \<Rightarrow> 's) \<Rightarrow> ('s \<Rightarrow> bool) \<Rightarrow> (nat list \<Rightarrow> nat list) \<Rightarrow>
   's \<Rightarrow> pool_op list \<Rightarrow> 's \<Rightarrow> nat multiset \<Rightarrow> bool"
  for alloc free group_begin group_end grouping pages s0 where
  run_start: "pool_run alloc free group_begin group_end grouping pages s0 [] s0 {#}"
| run_alloc: "pool_run alloc free group_begin group_end grouping pages s0 ops s used \<Longrightarrow> alloc s n = (Some idx, s') \<Longrightarrow>
    pool_run alloc free group_begin group_end grouping pages s0 (ops @ [Alloc n]) s' (used + mset (pages idx))"
| run_alloc_fails: "pool_run alloc free group_begin group_end grouping pages s0 ops s used \<Longrightarrow> alloc s n = (None, s') \<Longrightarrow>
    pool_run alloc free group_begin group_end grouping pages s0 (ops @ [Alloc n]) s' used"
| run_free: "pool_run alloc free group_begin group_end grouping pages s0 ops s used \<Longrightarrow> mset (pages idx) \<subseteq># used \<Longrightarrow>
    pool_run alloc free group_begin group_end grouping pages s0 (ops @ [Free idx]) (free s idx) (used - mset (pages idx))"
| run_begin: "pool_run alloc free group_begin group_end grouping pages s0 ops s used \<Longrightarrow> \<not> grouping s \<Longrightarrow>
    pool_run alloc free group_begin group_end grouping pages s0 (ops @ [Group_Begin]) (group_begin s) used"
| run_end: "pool_run alloc free group_begin group_end grouping pages s0 ops s used \<Longrightarrow> grouping s \<Longrightarrow>
    pool_run alloc free group_begin group_end grouping pages s0 (ops @ [Group_End]) (group_end s) used"

locale page_pool =
  fixes alloc :: "'s \<Rightarrow> nat \<Rightarrow> nat list option \<times> 's" and free :: "'s \<Rightarrow> nat list \<Rightarrow> 's"
    and group_begin group_end :: "'s \<Rightarrow> 's" and grouping :: "'s \<Rightarrow> bool"
    and pages :: "nat list \<Rightarrow> nat list" and held :: "'s \<Rightarrow> nat multiset" and inv :: "'s \<Rightarrow> bool"
  assumes alloc_some: "inv s \<Longrightarrow> no_dup (held s) \<Longrightarrow> alloc s n = (Some idx, s') \<Longrightarrow> inv s' \<and> held s = mset (pages idx) + held s'"
    and alloc_none: "inv s \<Longrightarrow> alloc s n = (None, s') \<Longrightarrow> inv s' \<and> held s' = held s"
    and free_held: "inv s \<Longrightarrow> no_dup (held s + mset (pages idx)) \<Longrightarrow> inv (free s idx) \<and> held (free s idx) = held s + mset (pages idx)"
    and begin_held: "inv s \<Longrightarrow> \<not> grouping s \<Longrightarrow> inv (group_begin s) \<and> held (group_begin s) = held s"
    and end_held: "inv s \<Longrightarrow> grouping s \<Longrightarrow> inv (group_end s) \<and> held (group_end s) = held s"
begin

text \<open>No page is lost and none is handed out twice, in any run.\<close>

lemma conservation:
  assumes "pool_run alloc free group_begin group_end grouping pages s0 ops s used" "inv s0" "no_dup (held s0)"
  shows "inv s \<and> held s + used = held s0"
  using assms(1)
proof (induction rule: pool_run.induct)
  case (run_alloc ops s used n idx s')
  then have "no_dup (held s)" using assms(3) by (metis no_dup_mono mset_subset_eq_add_left)
  from alloc_some [OF _ this run_alloc.hyps(2)] run_alloc.IH show ?case by (auto simp: ac_simps)
next
  case (run_alloc_fails ops s used n s')
  then show ?case using alloc_none [OF _ run_alloc_fails.hyps(2)] by simp
next
  case (run_free ops s used idx)
  have "no_dup (held s + used)" using run_free.IH assms(3) by simp
  then have "no_dup (held s + mset (pages idx))"
    using run_free.hyps(2) by (meson no_dup_mono subset_mset.add_left_mono)
  from free_held [OF _ this] run_free.IH run_free.hyps(2) show ?case by (simp add: add.assoc)
next
  case (run_begin ops s used)
  then show ?case using begin_held by simp
next
  case (run_end ops s used)
  then show ?case using end_held by simp
qed (use assms(2) in simp)

lemma alloc_fresh:
  assumes "pool_run alloc free group_begin group_end grouping pages s0 ops s used" "inv s0" "no_dup (held s0)"
    and "alloc s n = (Some idx, s')"
  shows "distinct (pages idx) \<and> set (pages idx) \<inter> set_mset used = {} \<and> set (pages idx) \<subseteq> set_mset (held s0)"
proof -
  have c: "inv s" "held s + used = held s0" using conservation [OF assms(1-3)] by auto
  then have d: "no_dup (held s + used)" using assms(3) by simp
  have "no_dup (held s)" using d by (metis no_dup_mono mset_subset_eq_add_left)
  from alloc_some [OF c(1) this assms(4)] have h: "held s = mset (pages idx) + held s'" by simp
  have "no_dup (mset (pages idx))" using d h by (metis no_dup_mono mset_subset_eq_add_left)
  moreover have "set (pages idx) \<inter> set_mset used = {}" using no_dup_disjoint [OF d] h by auto
  moreover have "set (pages idx) \<subseteq> set_mset (held s0)" unfolding c(2) [symmetric] h by auto
  ultimately show ?thesis by simp
qed

end

section \<open>Invariant and held pages\<close>

text \<open>
  The pages the pool can hand out, now or when the open free group ends; \<open>pages\<close> are the pages of an
  index list. Without \<open>need_sort\<close> nothing waits in \<open>release_pages\<close>.
\<close>

definition held_pages :: "(nat list \<Rightarrow> nat list) \<Rightarrow> kv_pool \<Rightarrow> nat multiset" where
  "held_pages pages s = mset (kp_free_pages s) + mset (kp_release_pages s) +
     (if kp_not_in_free_group s then {#} else mset (pages (concat (kp_free_group s))))"

definition pool_inv :: "nat \<Rightarrow> kv_pool \<Rightarrow> bool" where
  "pool_inv page_size s \<longleftrightarrow> kp_page_size s = page_size \<and> (\<not> kp_need_sort s \<longrightarrow> kp_release_pages s = [])"

lemma merge_held [simp]: "held_pages pages (merge_and_sort_free s) = held_pages pages s"
  by (simp add: merge_and_sort_free_def held_pages_def)

lemma merge_inv [simp]: "pool_inv ps s \<Longrightarrow> pool_inv ps (merge_and_sort_free s)"
  by (auto simp: merge_and_sort_free_def pool_inv_def)

lemma merge_page_size [simp]: "kp_page_size (merge_and_sort_free s) = kp_page_size s"
  by (simp add: merge_and_sort_free_def)

lemma take_drop_held:
  "held_pages pages s = mset (take n (kp_free_pages s)) + held_pages pages (s\<lparr> kp_free_pages := drop n (kp_free_pages s) \<rparr>)"
proof -
  have "mset (kp_free_pages s) = mset (take n (kp_free_pages s)) + mset (drop n (kp_free_pages s))"
    by (metis append_take_drop_id mset_append)
  then show ?thesis by (simp add: held_pages_def add.assoc)
qed

lemma set_unique_pages: "set (unique_pages ps idx) = (\<lambda>i. i div ps) ` set idx"
  by (simp add: unique_pages_def)

lemma unique_pages_Nil [simp]: "unique_pages ps [] = []"
  by (simp add: unique_pages_def)

lemma distinct_unique_pages [simp]: "distinct (unique_pages ps idx)"
  by (simp add: unique_pages_def)

lemma mset_unique_pages_append:
  assumes "set (unique_pages ps xs) \<inter> set (unique_pages ps ys) = {}"
  shows "mset (unique_pages ps (xs @ ys)) = mset (unique_pages ps xs) + mset (unique_pages ps ys)"
proof -
  have "mset (unique_pages ps (xs @ ys)) = mset (unique_pages ps xs @ unique_pages ps ys)"
    by (subst set_eq_iff_mset_eq_distinct [symmetric]) (use assms in \<open>auto simp: set_unique_pages\<close>)
  then show ?thesis by simp
qed

lemma in_page_indices:
  assumes "0 < ps"
  shows "i \<in> set (page_indices ps pgs) \<longleftrightarrow> i div ps \<in> set pgs"
proof
  assume "i \<in> set (page_indices ps pgs)"
  then obtain p where p: "p \<in> set pgs" "ps * p \<le> i" "i < ps * Suc p" by (auto simp: page_indices_def mult.commute)
  then show "i div ps \<in> set pgs" using div_nat_eqI [OF p(2,3)] by simp
next
  assume "i div ps \<in> set pgs"
  moreover have "i \<in> (\<lambda>j. i div ps * ps + j) ` set [0..<ps]"
    by (rule image_eqI [of _ _ "i mod ps"]) (use assms in simp_all)
  ultimately show "i \<in> set (page_indices ps pgs)" unfolding page_indices_def set_concat set_map image_image by blast
qed

lemma length_page_indices: "length (page_indices ps pgs) = length pgs * ps"
  by (induction pgs) (auto simp: page_indices_def)

lemma distinct_page_indices:
  assumes "distinct pgs"
  shows "distinct (page_indices ps pgs)"
proof (cases "ps = 0")
  case False
  have "map (\<lambda>j. p * ps + j) [0..<ps] = [p * ps..<p * ps + ps]" for p by (intro nth_equalityI) auto
  then have e: "page_indices ps (p # xs) = [p * ps..<p * ps + ps] @ page_indices ps xs" for p xs by (simp add: page_indices_def)
  show ?thesis using assms
  proof (induction pgs)
    case (Cons p pgs)
    have "i div ps = p" if "i \<in> set [p * ps..<p * ps + ps]" for i
      using that False by (intro div_nat_eqI) (auto simp: mult.commute)
    then show ?case using Cons False unfolding e by (auto simp: in_page_indices)
  qed (simp add: page_indices_def)
qed (use length_page_indices [of ps pgs] in simp)

lemma unique_page_indices:
  assumes "0 < ps" "distinct pgs"
  shows "mset (unique_pages ps (page_indices ps pgs)) = mset pgs"
proof -
  have "p \<in> (\<lambda>i. i div ps) ` set (page_indices ps pgs)" if "p \<in> set pgs" for p
    using that assms(1) in_page_indices [of ps "p * ps" pgs] by (intro image_eqI [of _ _ "p * ps"]) simp_all
  then have "set (unique_pages ps (page_indices ps pgs)) = set pgs"
    using assms(1) by (auto simp: set_unique_pages in_page_indices)
  then show ?thesis using assms(2) by (metis distinct_unique_pages set_eq_iff_mset_eq_distinct)
qed

section \<open>Both allocators meet the contract\<close>

lemma token_alloc_Some:
  assumes "token_alloc s n = (Some idx, s')"
  shows "\<exists>t. (t = s \<or> t = merge_and_sort_free s) \<and> n \<le> length (kp_free_pages t) \<and> idx = take n (kp_free_pages t) \<and>
    s' = t\<lparr> kp_free_pages := drop n (kp_free_pages t) \<rparr>"
  using assms by (cases "kp_need_sort s \<and> n > length (kp_free_pages s)") (auto simp: token_alloc_def Let_def not_less split: if_splits)

lemma token_alloc_None: "token_alloc s n = (None, s') \<Longrightarrow> s' = s \<or> s' = merge_and_sort_free s"
  by (auto simp: token_alloc_def Let_def split: if_splits)

lemma paged_alloc_Some:
  assumes "paged_alloc s n = (Some idx, s')"
  shows "\<exists>t k. (t = s \<or> t = merge_and_sort_free s) \<and> k = n div kp_page_size s \<and> k \<le> length (kp_free_pages t) \<and>
    idx = page_indices (kp_page_size s) (take k (kp_free_pages t)) \<and> s' = t\<lparr> kp_free_pages := drop k (kp_free_pages t) \<rparr>"
  using assms by (cases "kp_need_sort s \<and> n div kp_page_size s > length (kp_free_pages s)") (auto simp: paged_alloc_def Let_def not_less split: if_splits)

lemma paged_alloc_indices:
  assumes "paged_alloc s n = (Some idx, s')"
  shows "\<exists>pgs. length pgs = n div kp_page_size s \<and> idx = page_indices (kp_page_size s) pgs"
  using paged_alloc_Some [OF assms]
proof (elim exE conjE)
  fix t k assume "k = n div kp_page_size s" "k \<le> length (kp_free_pages t)" "idx = page_indices (kp_page_size s) (take k (kp_free_pages t))"
  then show ?thesis by (intro exI [of _ "take k (kp_free_pages t)"]) simp
qed

lemma paged_alloc_None: "paged_alloc s n = (None, s') \<Longrightarrow> s' = s \<or> s' = merge_and_sort_free s"
  by (auto simp: paged_alloc_def Let_def split: if_splits)

lemma pool_inv_free_pages [simp]: "pool_inv ps (s\<lparr> kp_free_pages := x \<rparr>) \<longleftrightarrow> pool_inv ps s"
  by (simp add: pool_inv_def)

interpretation token: page_pool token_alloc token_free free_group_begin "free_group_end token_free" "\<lambda>s. \<not> kp_not_in_free_group s"
    "\<lambda>idx. idx" "held_pages (\<lambda>idx. idx)" "pool_inv 1"
proof
  fix s s' n idx assume a: "pool_inv 1 s" "token_alloc s n = (Some idx, s')"
  obtain t where t: "t = s \<or> t = merge_and_sort_free s" "n \<le> length (kp_free_pages t)" "idx = take n (kp_free_pages t)"
    "s' = t\<lparr> kp_free_pages := drop n (kp_free_pages t) \<rparr>"
    using token_alloc_Some [OF a(2)] by blast
  then show "pool_inv 1 s' \<and> held_pages (\<lambda>idx. idx) s = mset idx + held_pages (\<lambda>idx. idx) s'"
    using a(1) take_drop_held [of "\<lambda>idx. idx" t n] by auto
next
  fix s s' n assume "pool_inv 1 s" "token_alloc s n = (None, s')"
  then show "pool_inv 1 s' \<and> held_pages (\<lambda>idx. idx) s' = held_pages (\<lambda>idx. idx) s"
    using token_alloc_None [of s n s'] by auto
next
  fix s idx assume "pool_inv 1 s"
  then show "pool_inv 1 (token_free s idx) \<and> held_pages (\<lambda>idx. idx) (token_free s idx) = held_pages (\<lambda>idx. idx) s + mset idx"
    by (auto simp: token_free_def held_pages_def pool_inv_def)
next
  fix s assume "pool_inv 1 s" "\<not> \<not> kp_not_in_free_group s"
  then show "pool_inv 1 (free_group_begin s) \<and> held_pages (\<lambda>idx. idx) (free_group_begin s) = held_pages (\<lambda>idx. idx) s"
    by (simp add: free_group_begin_def held_pages_def pool_inv_def)
next
  fix s assume "pool_inv 1 s" "\<not> kp_not_in_free_group s"
  then show "pool_inv 1 (free_group_end token_free s) \<and> held_pages (\<lambda>idx. idx) (free_group_end token_free s) = held_pages (\<lambda>idx. idx) s"
    by (auto simp: free_group_end_def token_free_def held_pages_def pool_inv_def Let_def)
qed

interpretation paged: page_pool paged_alloc paged_free free_group_begin "free_group_end paged_free" "\<lambda>s. \<not> kp_not_in_free_group s"
    "unique_pages (Suc ps)" "held_pages (unique_pages (Suc ps))" "pool_inv (Suc ps)" for ps
proof
  let ?P = "unique_pages (Suc ps)"
  fix s s' n idx assume a: "pool_inv (Suc ps) s" "no_dup (held_pages ?P s)" "paged_alloc s n = (Some idx, s')"
  obtain t k where t: "t = s \<or> t = merge_and_sort_free s" "k \<le> length (kp_free_pages t)"
    "idx = page_indices (kp_page_size s) (take k (kp_free_pages t))" "s' = t\<lparr> kp_free_pages := drop k (kp_free_pages t) \<rparr>"
    using paged_alloc_Some [OF a(3)] by blast
  have h: "held_pages ?P t = held_pages ?P s" "pool_inv (Suc ps) t" "kp_page_size s = Suc ps" using t(1) a(1) by (auto simp: pool_inv_def [of _ s])
  have split: "held_pages ?P t = mset (take k (kp_free_pages t)) + held_pages ?P s'"
    using take_drop_held [of ?P t k] t(4) by simp
  then have "distinct (take k (kp_free_pages t))" using a(2) h(1) no_dup_mono [OF mset_subset_eq_add_left] by (metis no_dup_mset)
  then show "pool_inv (Suc ps) s' \<and> held_pages ?P s = mset (?P idx) + held_pages ?P s'"
    using split h t by (simp add: unique_page_indices)
next
  let ?P = "unique_pages (Suc ps)"
  fix s s' n assume "pool_inv (Suc ps) s" "paged_alloc s n = (None, s')"
  then show "pool_inv (Suc ps) s' \<and> held_pages ?P s' = held_pages ?P s" using paged_alloc_None [of s n s'] by auto
next
  let ?P = "unique_pages (Suc ps)"
  fix s idx assume a: "pool_inv (Suc ps) s" "no_dup (held_pages ?P s + mset (?P idx))"
  have "set (?P (concat (kp_free_group s))) \<inter> set (?P idx) = {}" if "\<not> kp_not_in_free_group s"
    using no_dup_disjoint [OF a(2)] that by (auto simp: held_pages_def)
  then show "pool_inv (Suc ps) (paged_free s idx) \<and> held_pages ?P (paged_free s idx) = held_pages ?P s + mset (?P idx)"
    using a(1) by (auto simp: paged_free_def held_pages_def pool_inv_def Let_def mset_unique_pages_append)
next
  let ?P = "unique_pages (Suc ps)"
  fix s assume "pool_inv (Suc ps) s" "\<not> \<not> kp_not_in_free_group s"
  then show "pool_inv (Suc ps) (free_group_begin s) \<and> held_pages ?P (free_group_begin s) = held_pages ?P s"
    by (simp add: free_group_begin_def held_pages_def pool_inv_def unique_pages_def)
next
  let ?P = "unique_pages (Suc ps)"
  fix s assume "pool_inv (Suc ps) s" "\<not> kp_not_in_free_group s"
  then show "pool_inv (Suc ps) (free_group_end paged_free s) \<and> held_pages ?P (free_group_end paged_free s) = held_pages ?P s"
    by (cases "concat (kp_free_group s) = []") (auto simp: free_group_end_def paged_free_def held_pages_def pool_inv_def Let_def simp del: concat_eq_Nil_conv)
qed

section \<open>Runs\<close>

abbreviation token_run :: "nat \<Rightarrow> bool \<Rightarrow> pool_op list \<Rightarrow> kv_pool \<Rightarrow> nat multiset \<Rightarrow> bool" where
  "token_run sz need_sort \<equiv> pool_run token_alloc token_free free_group_begin (free_group_end token_free)
     (\<lambda>s. \<not> kp_not_in_free_group s) (\<lambda>idx. idx) (token_init sz need_sort)"

lemma token_init_held: "pool_inv 1 (token_init sz b)" "held_pages (\<lambda>idx. idx) (token_init sz b) = mset [1..<sz + 1]"
  by (simp_all add: token_init_def token_clear_def pool_clear_def base_init_def pool_inv_def held_pages_def)

lemma paged_init_held: "pool_inv ps (paged_init sz ps b)" "held_pages pages (paged_init sz ps b) = mset [1..<sz div ps + 1]"
  by (simp_all add: paged_init_def paged_clear_def pool_clear_def base_init_def pool_inv_def held_pages_def)

lemma need_sort_kept: "kp_need_sort (merge_and_sort_free s) = kp_need_sort s"
  by (simp add: merge_and_sort_free_def)

text \<open>
  C27. \<open>TokenToKVPoolAllocator\<close> conserves its slots: after any sequence of allocations, frees of held
  slots and free groups, the slots it holds and those its client holds are together the slots
  1..size, each exactly once, and an allocation returns distinct slots that no client holds; the
  padded slot 0 is never handed out.
\<close>
theorem token_pool_conservation:
  assumes "token_run sz need_sort ops s used"
  shows "held_pages (\<lambda>idx. idx) s + used = mset [1..<sz + 1] \<and>
    (\<forall>n idx s'. token_alloc s n = (Some idx, s') \<longrightarrow>
       length idx = n \<and> distinct idx \<and> set idx \<inter> set_mset used = {} \<and> set idx \<subseteq> {1..sz})"
proof (intro conjI allI impI)
  have d: "no_dup (held_pages (\<lambda>idx. idx) (token_init sz need_sort))"
    unfolding token_init_held no_dup_mset by simp
  show "held_pages (\<lambda>idx. idx) s + used = mset [1..<sz + 1]"
    using token.conservation [OF assms token_init_held(1) d] unfolding token_init_held by blast
  fix n idx s' assume a: "token_alloc s n = (Some idx, s')"
  show "length idx = n" using token_alloc_Some [OF a] by auto
  show "distinct idx" "set idx \<inter> set_mset used = {}" "set idx \<subseteq> {1..sz}"
    using token.alloc_fresh [OF assms token_init_held(1) d a] unfolding token_init_held by auto
qed

text \<open>
  C28. An allocation fails only for lack of slots: in every state that satisfies the invariant of a pool,
  which all reachable states do, \<open>alloc\<close> returns slots exactly if the request does not exceed
  \<open>available_size\<close>, whether or not the pool sorts its pages, and a failed request leaves the same slots available.
\<close>
theorem token_alloc_succeeds_iff:
  assumes "token_run sz need_sort ops s used"
  shows "((\<exists>idx s'. token_alloc s n = (Some idx, s')) \<longleftrightarrow> n \<le> token_available_size s) \<and>
    (\<forall>s'. token_alloc s n = (None, s') \<longrightarrow> token_available_size s' = token_available_size s)"
proof (intro conjI allI impI)
  have inv: "pool_inv 1 s"
    using token.conservation [OF assms token_init_held(1)] unfolding token_init_held no_dup_mset by simp
  have len: "length (kp_free_pages (merge_and_sort_free s)) + length (kp_release_pages (merge_and_sort_free s)) =
      length (kp_free_pages s) + length (kp_release_pages s)"
    by (simp add: merge_and_sort_free_def)
  have rel: "kp_release_pages (merge_and_sort_free s) = []" by (simp add: merge_and_sort_free_def)
  show "(\<exists>idx s'. token_alloc s n = (Some idx, s')) \<longleftrightarrow> n \<le> token_available_size s"
    using inv len rel unfolding token_alloc_def token_available_size_def pool_inv_def Let_def
    by (cases "kp_need_sort s \<and> length (kp_free_pages s) < n") auto
  fix s' assume "token_alloc s n = (None, s')"
  then show "token_available_size s' = token_available_size s"
    using token_alloc_None [of s n s'] len by (auto simp: token_available_size_def)
qed

section \<open>Witnesses\<close>

lemma example_token_run: "\<exists>s. token_run 3 True [Alloc 2, Free [1], Alloc 2] s {#2, 3, 1#} \<and> token_alloc s 0 = (Some [], s)"
proof -
  let ?r = "pool_run token_alloc token_free free_group_begin (free_group_end token_free)
     (\<lambda>s. \<not> kp_not_in_free_group s) (\<lambda>idx. idx) (token_init 3 True)"
  define s1 where "s1 = snd (token_alloc (token_init 3 True) 2)"
  define s2 where "s2 = token_free s1 [1]"
  define s3 where "s3 = snd (token_alloc s2 2)"
  have i: "token_init 3 True = \<lparr> kp_size = 3, kp_page_size = 1, kp_need_sort = True, kp_free_pages = [1, 2, 3], kp_release_pages = [],
      kp_not_in_free_group = True, kp_free_group = [] \<rparr>"
    by (simp add: token_init_def token_clear_def pool_clear_def base_init_def upt_rec)
  have a1: "token_alloc (token_init 3 True) 2 = (Some [1, 2], s1)" unfolding s1_def i by (simp add: token_alloc_def)
  have s1: "s1 = token_init 3 True\<lparr> kp_free_pages := [3] \<rparr>" unfolding s1_def i by (simp add: token_alloc_def)
  have a2: "token_alloc s2 2 = (Some [1, 3], s3)" unfolding s3_def s2_def s1 i
    by (simp add: token_alloc_def token_free_def merge_and_sort_free_def)
  have r0: "?r [] (token_init 3 True) {#}" by (rule run_start)
  have "?r ([] @ [Alloc 2]) s1 ({#} + mset [1, 2])" by (rule run_alloc [where alloc = token_alloc, OF r0 a1])
  then have r1: "?r [Alloc 2] s1 {#1, 2#}" by simp
  have "?r ([Alloc 2] @ [Free [1]]) (token_free s1 [1]) ({#1, 2#} - mset [1])" by (rule run_free [OF r1]) simp
  then have r2: "?r [Alloc 2, Free [1]] s2 {#2#}" by (simp add: s2_def)
  have "?r ([Alloc 2, Free [1]] @ [Alloc 2]) s3 ({#2#} + mset [1, 3])" by (rule run_alloc [where alloc = token_alloc, OF r2 a2])
  then have "?r [Alloc 2, Free [1], Alloc 2] s3 {#2, 3, 1#}" by (simp add: add_mset_commute)
  moreover have "token_alloc s3 0 = (Some [], s3)" by (simp add: token_alloc_def)
  ultimately show ?thesis by blast
qed

theorem token_pool_conservation_witness: "\<exists>s. held_pages (\<lambda>idx. idx) s + {#2, 3, 1#} = mset [1..<3 + 1]"
  using example_token_run token_pool_conservation by blast

theorem token_alloc_succeeds_iff_witness: "\<exists>s. \<not> (\<exists>idx s'. token_alloc s 4 = (Some idx, s')) \<and> token_available_size s = 0"
proof -
  obtain s where r: "token_run 3 True [Alloc 2, Free [1], Alloc 2] s {#2, 3, 1#}" using example_token_run by blast
  have "held_pages (\<lambda>idx. idx) s + {#2, 3, 1#} = mset [1..<3 + 1]"
    using token.conservation [OF r token_init_held(1)] unfolding token_init_held no_dup_mset by auto
  then have "size (held_pages (\<lambda>idx. idx) s) = 0" by (metis (no_types) add_cancel_left_left size_mset size_union size_add_mset size_empty length_upt add_diff_cancel_right' numeral_3_eq_3)
  then have "token_available_size s = 0" by (simp add: held_pages_def token_available_size_def)
  then show ?thesis using token_alloc_succeeds_iff [OF r, of 4] by auto
qed

end
