(* ===== verification/Paged_Alloc.thy ===== *)
theory Paged_Alloc
  imports Kv_Pool
begin

text \<open>
  Extending the sequences of a batch in the paged allocator (\<open>sglang/srt/mem_cache/allocator.py\<close>):
  \<open>alloc_extend_naive\<close>, the Triton kernels \<open>alloc_extend_kernel\<close> and \<open>alloc_decode_kernel\<close>, and the operations
  \<open>alloc_extend\<close> and \<open>alloc_decode\<close> that launch them.

  \<^item> A kernel is the list of stores (index into \<open>out_indices\<close>, value) of each program; the programs of a
    launch run in any order, so a launch is any permutation of all their stores.
  \<^item> A lane that its mask switches off reads 0. A load past the end of \<open>free_pages\<close> reads an arbitrary value
    \<open>oob\<close>: the kernels run before the allocator compares the pages they need with those it has.
  \<^item> Lengths are natural numbers; the differences that the code may make negative are taken in \<open>int\<close>. Locations are
    natural numbers too: the code passes -1 as the last location of an empty prefix, but never reads it.
  \<^item> \<open>alloc_extend\<close> is modelled without its optional argument \<open>num_new_pages\<close>, and without the debug-mode assertions.
  \<^item> \<open>paged_run\<close> is the state machine of the allocator and its client, over all operations of the class.
\<close>

section \<open>Helpers of \<open>sglang/srt/utils\<close>\<close>

fun bit_length :: "nat \<Rightarrow> nat" where
  "bit_length n = (if n = 0 then 0 else Suc (bit_length (n div 2)))"

declare bit_length.simps [simp del]

definition next_power_of_2 :: "nat \<Rightarrow> nat" where
  "next_power_of_2 n = (if n > 0 then 2 ^ bit_length (n - 1) else 1)"

definition pages_for :: "nat \<Rightarrow> nat \<Rightarrow> nat" where
  "pages_for page_size len = (len + page_size - 1) div page_size"

definition get_num_new_pages :: "nat list \<Rightarrow> nat \<Rightarrow> nat list option \<Rightarrow> bool \<Rightarrow> int result" where
  "get_num_new_pages seq_lens page_size prefix_lens decode =
     (if prefix_lens = None \<or> decode
      then if \<not> decode then Inl (AssertionError '''')
           else Inr (int (length (filter (\<lambda>s. s mod page_size = 1) seq_lens)))
      else Inr (\<Sum>(s, p)\<leftarrow>zip seq_lens (the prefix_lens). int (pages_for page_size s) - int (pages_for page_size p)))"

section \<open>Stores\<close>

type_synonym stores = "(nat \<times> nat) list"

definition apply_stores :: "nat list \<Rightarrow> stores \<Rightarrow> nat list" where
  "apply_stores out st = foldl (\<lambda>o' (i, v). o'[i := v]) out st"

definition load :: "nat \<Rightarrow> nat list \<Rightarrow> nat \<Rightarrow> nat" where
  "load oob xs i = (if i < length xs then xs ! i else oob)"

section \<open>\<open>alloc_extend_naive\<close>\<close>

definition cumsum_upto :: "nat list \<Rightarrow> nat \<Rightarrow> nat" where
  "cumsum_upto xs i = sum_list (take (Suc i) xs)"

definition extend_lens :: "nat list \<Rightarrow> nat list \<Rightarrow> nat list" where
  "extend_lens prefix_lens seq_lens = map (\<lambda>(s, p). s - p) (zip seq_lens prefix_lens)"

definition new_pages :: "nat \<Rightarrow> nat list \<Rightarrow> nat list \<Rightarrow> nat list" where
  "new_pages page_size prefix_lens seq_lens = map (\<lambda>(s, p). pages_for page_size s - pages_for page_size p) (zip seq_lens prefix_lens)"

text \<open>The slice assignment \<open>out[a:a + len(vals)] = vals\<close>.\<close>

definition slice_stores :: "nat \<Rightarrow> nat list \<Rightarrow> stores" where
  "slice_stores a vals = map (\<lambda>(j, v). (a + j, v)) (enumerate 0 vals)"

definition naive_request :: "nat list \<Rightarrow> nat list \<Rightarrow> nat list \<Rightarrow> nat list \<Rightarrow> nat \<Rightarrow> nat \<Rightarrow> nat \<Rightarrow> stores" where
  "naive_request prefix_lens seq_lens last_loc free_pages page_size oob i =
     (let pre = prefix_lens ! i; seq = seq_lens ! i;
          extend_len = extend_lens prefix_lens seq_lens ! i;
          end_pos = cumsum_upto (extend_lens prefix_lens seq_lens) i;
          start_pos = end_pos - extend_len;
          num_new_pages = new_pages page_size prefix_lens seq_lens ! i;
          num_full_new_pages = int (seq div page_size) - int (pages_for page_size pre);
          need_page = int num_new_pages - num_full_new_pages;
          end_new_pages = cumsum_upto (new_pages page_size prefix_lens seq_lens) i;
          start_new_pages = end_new_pages - num_new_pages;
          num1 = min seq (pages_for page_size pre * page_size) - pre;
          part1 = (if num1 \<noteq> 0 then slice_stores start_pos (map (\<lambda>o'. last_loc ! i + 1 + o') [0..<num1]) else [])
      in if pre + num1 = seq then part1
         else let num2 = num_full_new_pages * int page_size;
                  part2 = (if num2 \<noteq> 0
                    then slice_stores (start_pos + num1)
                           (page_indices page_size (py_slice free_pages start_new_pages (nat (int end_new_pages - need_page))))
                    else [])
              in if int pre + int num1 + num2 = int seq then part1 @ part2
                 else let num3 = seq - seq div page_size * page_size;
                          part3 = (if num3 \<noteq> 0
                            then slice_stores (end_pos - num3) (map (\<lambda>o'. load oob free_pages (end_new_pages - 1) * page_size + o') [0..<num3])
                            else [])
                      in part1 @ part2 @ part3)"

definition alloc_extend_naive :: "nat list \<Rightarrow> nat list \<Rightarrow> nat list \<Rightarrow> nat list \<Rightarrow> nat \<Rightarrow> nat \<Rightarrow> nat list \<Rightarrow> nat list" where
  "alloc_extend_naive prefix_lens seq_lens last_loc free_pages page_size oob out_indices =
     foldl (\<lambda>out i. apply_stores out (naive_request prefix_lens seq_lens last_loc free_pages page_size oob i))
       out_indices [0..<length prefix_lens]"

section \<open>\<open>alloc_extend_kernel\<close>\<close>

definition lane_sum :: "nat \<Rightarrow> nat \<Rightarrow> (nat \<Rightarrow> nat) \<Rightarrow> nat" where
  "lane_sum bs_upper pid f = (\<Sum>j\<leftarrow>[0..<bs_upper]. if j \<le> pid then f j else 0)"

definition BLOCK_EXTEND :: nat where
  "BLOCK_EXTEND = 4096"

definition extend_block :: "nat \<Rightarrow> nat list \<Rightarrow> nat \<Rightarrow> nat \<Rightarrow> nat \<Rightarrow> nat \<Rightarrow> nat \<Rightarrow> stores" where
  "extend_block oob free_page_ptr page_size new_page_start_loc out_start num_part2 block_id =
     map (\<lambda>offset. (out_start + offset, load oob free_page_ptr (new_page_start_loc + offset div page_size) * page_size + offset mod page_size))
       (filter (\<lambda>offset. offset < num_part2) (map (\<lambda>x. block_id * BLOCK_EXTEND + x) [0..<BLOCK_EXTEND]))"

definition alloc_extend_kernel :: "nat list \<Rightarrow> nat list \<Rightarrow> nat list \<Rightarrow> nat list \<Rightarrow> nat \<Rightarrow> nat \<Rightarrow> nat \<Rightarrow> nat \<Rightarrow> stores" where
  "alloc_extend_kernel pre_lens seq_lens last_loc_ptr free_page_ptr bs_upper page_size oob pid =
     (let seq_len = seq_lens ! pid; pre_len = pre_lens ! pid;
          extend_len = seq_len - pre_len;
          sum_extend_lens = lane_sum bs_upper pid (\<lambda>j. seq_lens ! j - pre_lens ! j);
          output_start_loc = sum_extend_lens - extend_len;
          num_page_start_loc_self = pages_for page_size seq_len - pages_for page_size pre_len;
          sum_num_new_pages = lane_sum bs_upper pid (\<lambda>j. pages_for page_size (seq_lens ! j) - pages_for page_size (pre_lens ! j));
          new_page_start_loc = sum_num_new_pages - num_page_start_loc_self;
          num_part1 = min seq_len (pages_for page_size pre_len * page_size) - pre_len;
          part1 = map (\<lambda>o'. (output_start_loc + o', last_loc_ptr ! pid + 1 + o')) (filter (\<lambda>o'. o' < num_part1) [0..<page_size])
      in if pre_len + num_part1 = seq_len then part1
         else let num_part2 = seq_len div page_size * page_size - pages_for page_size pre_len * page_size;
                  num_blocks = (num_part2 + BLOCK_EXTEND - 1) div BLOCK_EXTEND;
                  part2 = concat (map (extend_block oob free_page_ptr page_size new_page_start_loc (output_start_loc + num_part1) num_part2) [0..<num_blocks])
              in if pre_len + num_part1 + num_part2 = seq_len then part1 @ part2
                 else let num_part3 = seq_len - seq_len div page_size * page_size;
                          start_loc = load oob free_page_ptr (new_page_start_loc + num_page_start_loc_self - 1);
                          part3 = map (\<lambda>o'. (output_start_loc + num_part1 + num_part2 + o', start_loc * page_size + o'))
                                    (filter (\<lambda>o'. o' < num_part3) [0..<page_size])
                      in part1 @ part2 @ part3)"

section \<open>\<open>alloc_decode_kernel\<close>\<close>

definition alloc_decode_kernel :: "nat list \<Rightarrow> nat list \<Rightarrow> nat list \<Rightarrow> nat \<Rightarrow> nat \<Rightarrow> nat \<Rightarrow> nat \<Rightarrow> stores" where
  "alloc_decode_kernel seq_lens last_loc_ptr free_page_ptr bs_upper page_size oob pid =
     (let seq_len = seq_lens ! pid; pre_len = seq_len - 1;
          num_page_start_loc_self = pages_for page_size seq_len - pages_for page_size pre_len;
          sum_num_new_pages = lane_sum bs_upper pid (\<lambda>j. pages_for page_size (seq_lens ! j) - pages_for page_size (seq_lens ! j - 1));
          new_page_start_loc = sum_num_new_pages - num_page_start_loc_self
      in if num_page_start_loc_self = 0 then [(pid, last_loc_ptr ! pid + 1)]
         else [(pid, load oob free_page_ptr new_page_start_loc * page_size)])"

section \<open>\<open>alloc_extend\<close> and \<open>alloc_decode\<close>\<close>

text \<open>
  A launch is given by the order \<open>sched\<close> in which the stores of its programs reach memory. The content of
  \<open>torch.empty\<close> is an argument.
\<close>

definition launch :: "(stores \<Rightarrow> stores) \<Rightarrow> nat \<Rightarrow> (nat \<Rightarrow> stores) \<Rightarrow> nat list \<Rightarrow> nat list" where
  "launch sched bs program out = apply_stores out (sched (concat (map program [0..<bs])))"

definition alloc_extend ::
  "(stores \<Rightarrow> stores) \<Rightarrow> nat \<Rightarrow> nat list \<Rightarrow> kv_pool \<Rightarrow> nat list \<Rightarrow> nat list \<Rightarrow> nat list \<Rightarrow> nat \<Rightarrow> (nat list option \<times> kv_pool) result" where
  "alloc_extend sched oob uninit s prefix_lens seq_lens last_loc extend_num_tokens =
     (let bs = length prefix_lens;
          s = (if kp_need_sort s \<and> extend_num_tokens div kp_page_size s + bs + 1 > length (kp_free_pages s) then merge_and_sort_free s else s);
          out_indices = launch sched bs
            (alloc_extend_kernel prefix_lens seq_lens last_loc (kp_free_pages s) (next_power_of_2 bs) (kp_page_size s) oob) uninit
      in rbind (get_num_new_pages seq_lens (kp_page_size s) (Some prefix_lens) False) (\<lambda>num_new_pages.
         if num_new_pages > int (length (kp_free_pages s)) then Inr (None, s)
         else Inr (Some out_indices, s\<lparr> kp_free_pages := drop (nat num_new_pages) (kp_free_pages s) \<rparr>)))"


section \<open>The locations of one request\<close>

text \<open>
  Token \<open>p\<close> of a request: in the rest of the request's ll page it follows \<open>ll\<close>; in a new page it has the
  offset \<open>p mod page_size\<close> of the free page that the request's share of \<open>free_pages\<close> gives to it.
\<close>

definition extend_loc :: "nat \<Rightarrow> nat \<Rightarrow> nat list \<Rightarrow> nat \<Rightarrow> nat \<Rightarrow> nat \<Rightarrow> nat \<Rightarrow> nat" where
  "extend_loc ps oob fp pb pre ll p =
     (if p < pages_for ps pre * ps then ll + 1 + (p - pre)
      else load oob fp (pb + (p div ps - pages_for ps pre)) * ps + p mod ps)"

definition request_stores :: "nat \<Rightarrow> nat \<Rightarrow> nat list \<Rightarrow> nat \<Rightarrow> nat \<Rightarrow> nat \<Rightarrow> nat \<Rightarrow> nat \<Rightarrow> stores" where
  "request_stores ps oob fp base pb pre seq ll = map (\<lambda>p. (base + (p - pre), extend_loc ps oob fp pb pre ll p)) [pre..<seq]"

lemma pages_for_split:
  assumes "r < ps"
  shows "pages_for ps (k * ps + r) = k + (if r = 0 then 0 else 1)"
proof (cases "r = 0")
  case True
  have "(k * ps + ps - 1) div ps = k" by (rule div_nat_eqI) (use assms in \<open>auto simp: mult.commute\<close>)
  then show ?thesis using True by (simp add: pages_for_def)
next
  case False
  then have "(k * ps + r + ps - 1) div ps = Suc k" by (intro div_nat_eqI) (use assms in \<open>auto simp: mult.commute\<close>)
  then show ?thesis using False by (simp add: pages_for_def)
qed

lemma pages_for_eq: "0 < ps \<Longrightarrow> pages_for ps n = n div ps + (if n mod ps = 0 then 0 else 1)"
  using pages_for_split [of "n mod ps" ps "n div ps"] by simp

lemma pages_for_bounds:
  assumes "0 < ps"
  shows "n \<le> pages_for ps n * ps" "pages_for ps n * ps < n + ps" "n div ps \<le> pages_for ps n"
proof -
  obtain k r where n: "n = k * ps + r" "r < ps" using assms by (metis div_mult_mod_eq mod_less_divisor)
  show "n \<le> pages_for ps n * ps" "pages_for ps n * ps < n + ps" "n div ps \<le> pages_for ps n"
    using n(2) unfolding n(1) by (auto simp: pages_for_split)
qed

lemma map_upt_shift: "a \<le> b \<Longrightarrow> map f [a..<b] = map (\<lambda>x. f (a + x)) [0..<b - a]"
  by (rule nth_equalityI) auto

lemma upt_append_le: "a \<le> b \<Longrightarrow> b \<le> c \<Longrightarrow> [a..<b] @ [b..<c] = [a..<c]"
  using upt_add_eq_append [of a b "c - b"] by simp

lemma filter_lt_upt: "filter (\<lambda>x. x < n) [0..<m] = [0..<min n m]"
  by (induction m) (auto simp: min_def less_Suc_eq le_Suc_eq)

lemma blocks_upt:
  assumes "0 < B"
  shows "concat (map (\<lambda>b. filter (\<lambda>x. x < n) (map (\<lambda>x. b * B + x) [0..<B])) [0..<k]) = [0..<min n (k * B)]"
proof (induction k)
  case (Suc k)
  have "filter (\<lambda>x. x < n) (map (\<lambda>x. k * B + x) [0..<B]) = [min n (k * B)..<min n (Suc k * B)]"
  proof -
    have "map (\<lambda>x. k * B + x) [0..<B] = [k * B..<Suc k * B]"
      by (rule nth_equalityI) auto
    moreover have "filter (\<lambda>x. x < n) [a..<b] = [min n a..<min n b]" if "a \<le> b" for a b
      using that by (induction b) (auto simp: min_def le_Suc_eq)
    ultimately show ?thesis by simp
  qed
  moreover have "min n (k * B) \<le> min n (Suc k * B)" by simp
  ultimately show ?case using Suc upt_append_le [of 0 "min n (k * B)" "min n (Suc k * B)"] by simp
qed simp

lemma extend_blocks:
  "concat (map (extend_block oob fp ps np out n) [0..<(n + BLOCK_EXTEND - 1) div BLOCK_EXTEND]) =
   map (\<lambda>x. (out + x, load oob fp (np + x div ps) * ps + x mod ps)) [0..<n]"
proof -
  let ?B = BLOCK_EXTEND
  let ?g = "\<lambda>x. (out + x, load oob fp (np + x div ps) * ps + x mod ps)"
  let ?k = "(n + ?B - 1) div ?B"
  have B: "0 < ?B" by (simp add: BLOCK_EXTEND_def)
  have "n \<le> ?k * ?B" using pages_for_bounds(1) [OF B, of n] by (simp add: pages_for_def)
  then have "concat (map (\<lambda>b. filter (\<lambda>x. x < n) (map (\<lambda>x. b * ?B + x) [0..<?B])) [0..<?k]) = [0..<n]"
    using blocks_upt [OF B, of n ?k] by (simp add: min_def)
  moreover have "concat (map (extend_block oob fp ps np out n) [0..<?k]) =
    map ?g (concat (map (\<lambda>b. filter (\<lambda>x. x < n) (map (\<lambda>x. b * ?B + x) [0..<?B])) [0..<?k]))"
    by (simp add: map_concat extend_block_def [abs_def] comp_def)
  ultimately show ?thesis by simp
qed

text \<open>The three parts of an extension, as ranges of token positions.\<close>

lemma extend_parts:
  assumes ps: "0 < ps" and c: "c = pages_for ps pre" and q: "q = seq div ps" and gt: "c * ps < seq"
  shows "request_stores ps oob fp base pb pre seq ll =
    map (\<lambda>x. (base + x, ll + 1 + x)) [0..<c * ps - pre] @
    map (\<lambda>x. (base + (c * ps - pre) + x, load oob fp (pb + x div ps) * ps + x mod ps)) [0..<q * ps - c * ps] @
    map (\<lambda>x. (base + (c * ps - pre) + (q * ps - c * ps) + x, load oob fp (pb + (q - c)) * ps + x)) [0..<seq - q * ps]"
proof -
  let ?f = "\<lambda>p. (base + (p - pre), extend_loc ps oob fp pb pre ll p)"
  have b: "pre \<le> c * ps" using pages_for_bounds(1) [OF ps, of pre] c by simp
  have cq: "c \<le> q" using gt ps q by (metis div_le_mono div_mult_self_is_m less_imp_le)
  have qs: "q * ps \<le> seq" "seq - q * ps < ps" using q ps by (simp_all add: minus_div_mult_eq_mod)
  have cqps: "c * ps \<le> q * ps" using cq by simp
  have e1: "map ?f [pre..<c * ps] = map (\<lambda>x. (base + x, ll + 1 + x)) [0..<c * ps - pre]"
    using b c by (subst map_upt_shift) (auto simp: extend_loc_def)
  have e2: "map ?f [c * ps..<q * ps] = map (\<lambda>x. (base + (c * ps - pre) + x, load oob fp (pb + x div ps) * ps + x mod ps)) [0..<q * ps - c * ps]"
  proof -
    have "?f (c * ps + x) = (base + (c * ps - pre) + x, load oob fp (pb + x div ps) * ps + x mod ps)" for x
      using b c ps by (simp add: extend_loc_def)
    then show ?thesis using cqps by (subst map_upt_shift) auto
  qed
  have e3: "map ?f [q * ps..<seq] = map (\<lambda>x. (base + (c * ps - pre) + (q * ps - c * ps) + x, load oob fp (pb + (q - c)) * ps + x)) [0..<seq - q * ps]"
  proof -
    have "?f (q * ps + x) = (base + (c * ps - pre) + (q * ps - c * ps) + x, load oob fp (pb + (q - c)) * ps + x)" if "x < seq - q * ps" for x
    proof -
      have "x < ps" using that qs by linarith
      then have "(q * ps + x) div ps = q" "(q * ps + x) mod ps = x" by simp_all
      moreover have "\<not> q * ps + x < pages_for ps pre * ps" using cqps unfolding c by linarith
      ultimately have "extend_loc ps oob fp pb pre ll (q * ps + x) = load oob fp (pb + (q - c)) * ps + x" using c by (simp add: extend_loc_def)
      moreover have "base + (q * ps + x - pre) = base + (c * ps - pre) + (q * ps - c * ps) + x" using b cqps by linarith
      ultimately show ?thesis by simp
    qed
    then show ?thesis using qs by (subst map_upt_shift) auto
  qed
  have "[pre..<seq] = [pre..<c * ps] @ [c * ps..<q * ps] @ [q * ps..<seq]"
    using upt_append_le [of "c * ps" "q * ps" seq] upt_append_le [of pre "c * ps" seq] b cqps qs gt by simp
  then show ?thesis unfolding request_stores_def using e1 e2 e3 by simp
qed

lemma extend_within_page:
  assumes "0 < ps" "pre \<le> seq" "seq \<le> pages_for ps pre * ps"
  shows "request_stores ps oob fp base pb pre seq ll = map (\<lambda>x. (base + x, ll + 1 + x)) [0..<seq - pre]"
  unfolding request_stores_def using assms by (subst map_upt_shift) (auto simp: extend_loc_def)

section \<open>Kernel and loop, one request\<close>

definition before :: "(nat \<Rightarrow> nat) \<Rightarrow> nat \<Rightarrow> nat" where
  "before f i = (\<Sum>j\<leftarrow>[0..<i]. f j)"

lemma before_Suc: "before f (Suc i) = before f i + f i"
  by (simp add: before_def)

lemma before_less: "i < j \<Longrightarrow> before f i + f i \<le> before f j"
  by (induction j) (auto simp: before_Suc less_Suc_eq)

lemma lane_sum_eq: "pid < bs \<Longrightarrow> lane_sum bs pid f = before f (Suc pid)"
proof -
  assume "pid < bs"
  then have "[0..<bs] = [0..<Suc pid] @ [Suc pid..<bs]" by (simp add: upt_append_le del: upt_Suc)
  moreover have "map (\<lambda>j. if j \<le> pid then f j else 0) [0..<Suc pid] = map f [0..<Suc pid]" by (rule map_cong) auto
  moreover have "map (\<lambda>j. if j \<le> pid then f j else 0) [Suc pid..<bs] = map (\<lambda>_. 0) [Suc pid..<bs]" by (rule map_cong) auto
  ultimately have "lane_sum bs pid f = sum_list (map f [0..<Suc pid]) + sum_list (map (\<lambda>_. 0) [Suc pid..<bs])"
    unfolding lane_sum_def by (simp only: map_append sum_list_append)
  then show ?thesis by (simp add: before_def del: upt_Suc)
qed

lemma cumsum_upto_eq: "i < length xs \<Longrightarrow> cumsum_upto xs i = before ((!) xs) (Suc i)"
proof -
  assume "i < length xs"
  then have "take (Suc i) xs = map ((!) xs) [0..<Suc i]" by (intro nth_equalityI) (auto simp del: upt_Suc)
  then show ?thesis by (simp only: cumsum_upto_def before_def)
qed

abbreviation ext :: "nat list \<Rightarrow> nat list \<Rightarrow> nat \<Rightarrow> nat" where
  "ext P S j \<equiv> S ! j - P ! j"

abbreviation newp :: "nat \<Rightarrow> nat list \<Rightarrow> nat list \<Rightarrow> nat \<Rightarrow> nat" where
  "newp ps P S j \<equiv> pages_for ps (S ! j) - pages_for ps (P ! j)"

definition spec_request :: "nat \<Rightarrow> nat \<Rightarrow> nat list \<Rightarrow> nat list \<Rightarrow> nat list \<Rightarrow> nat list \<Rightarrow> nat \<Rightarrow> stores" where
  "spec_request ps oob fp P S L i =
     request_stores ps oob fp (before (ext P S) i) (before (newp ps P S) i) (P ! i) (S ! i) (L ! i)"

lemma kernel_request:
  assumes ps: "0 < ps" and i: "i < bs_upper" "P ! i \<le> S ! i"
  shows "alloc_extend_kernel P S L fp bs_upper ps oob i = spec_request ps oob fp P S L i"
proof -
  let ?pre = "P ! i" and ?seq = "S ! i"
  let ?c = "pages_for ps ?pre" and ?q = "?seq div ps"
  have base: "lane_sum bs_upper i (ext P S) - (?seq - ?pre) = before (ext P S) i"
    "lane_sum bs_upper i (newp ps P S) - (pages_for ps ?seq - ?c) = before (newp ps P S) i"
    using lane_sum_eq [OF i(1)] by (simp_all add: before_Suc)
  have c: "?pre \<le> ?c * ps" "?c * ps < ?pre + ps" using pages_for_bounds [OF ps, of ?pre] by simp_all
  show ?thesis
  proof (cases "?seq \<le> ?c * ps")
    case True
    have "filter (\<lambda>o'. o' < ?seq - ?pre) [0..<ps] = [0..<?seq - ?pre]" using True c i(2) by (simp add: filter_lt_upt min_def)
    then show ?thesis using True i(2) extend_within_page [OF ps i(2) True]
      by (simp add: alloc_extend_kernel_def spec_request_def Let_def base)
  next
    case False
    have gt: "?c * ps < ?seq" using False by simp
    have n1: "min ?seq (?c * ps) - ?pre = ?c * ps - ?pre" "?pre + (?c * ps - ?pre) \<noteq> ?seq" using False c by simp_all
    have f1: "filter (\<lambda>o'. o' < ?c * ps - ?pre) [0..<ps] = [0..<?c * ps - ?pre]" using c by (simp add: filter_lt_upt min_def)
    have cq: "?c \<le> ?q" using gt ps by (metis div_le_mono div_mult_self_is_m less_imp_le)
    have q: "?q * ps \<le> ?seq" "?seq - ?q * ps < ps" using ps by (simp_all add: minus_div_mult_eq_mod)
    have f3: "filter (\<lambda>o'. o' < ?seq - ?q * ps) [0..<ps] = [0..<?seq - ?q * ps]" using q by (simp add: filter_lt_upt min_def)
    have last_page: "before (newp ps P S) i + (pages_for ps ?seq - ?c) - 1 = before (newp ps P S) i + (?q - ?c)" if "?q * ps \<noteq> ?seq"
    proof -
      have "?seq mod ps \<noteq> 0" using that ps by (metis add.right_neutral div_mult_mod_eq)
      then show ?thesis using cq ps by (simp add: pages_for_eq)
    qed
    have done2: "?pre + (?c * ps - ?pre) + (?q * ps - ?c * ps) = ?seq \<longleftrightarrow> ?q * ps = ?seq"
      using c cq mult_le_mono1 [OF cq, of ps] by linarith
    show ?thesis
      unfolding alloc_extend_kernel_def spec_request_def Let_def base n1(1) f1 f3 extend_blocks extend_parts [OF ps refl refl gt] done2
      using n1(2) last_page by (cases "?q * ps = ?seq") simp_all
  qed
qed

lemma before_cong: "(\<And>j. j < i \<Longrightarrow> f j = g j) \<Longrightarrow> before f i = before g i"
  unfolding before_def by (metis (no_types, lifting) atLeastLessThan_iff map_cong set_upt)

lemma slice_stores_map: "slice_stores a (map f [0..<n]) = map (\<lambda>x. (a + x, f x)) [0..<n]"
  by (rule nth_equalityI) (auto simp: slice_stores_def nth_enumerate_eq)

lemma page_indices_map:
  assumes "0 < ps"
  shows "page_indices ps xs = map (\<lambda>x. xs ! (x div ps) * ps + x mod ps) [0..<length xs * ps]"
proof -
  let ?rs = "map (\<lambda>p. map (\<lambda>j. p * ps + j) [0..<ps]) xs"
  have r: "length r = ps" if "r \<in> set ?rs" for r using that by auto
  have len: "length (page_indices ps xs) = length xs * ps" unfolding page_indices_def using length_concat_rect [of ?rs ps, OF r] by simp
  show ?thesis
  proof (rule nth_equalityI)
    fix x assume "x < length (page_indices ps xs)"
    then have x: "x < length xs * ps" "x div ps < length xs" using len by (simp_all add: less_mult_imp_div_less)
    then show "page_indices ps xs ! x = map (\<lambda>x. xs ! (x div ps) * ps + x mod ps) [0..<length xs * ps] ! x"
      unfolding page_indices_def using nth_concat_rect [of ?rs ps x, OF r] assms x by simp
  qed (use len in simp)
qed

lemma naive_request_eq:
  assumes ps: "0 < ps" and len: "length P = length S" "i < length S" and le: "P ! i \<le> S ! i"
    and pages: "before (newp ps P S) (Suc i) \<le> length fp"
  shows "naive_request P S L fp ps oob i = spec_request ps oob fp P S L i"
proof -
  let ?pre = "P ! i" and ?seq = "S ! i"
  let ?c = "pages_for ps ?pre" and ?q = "?seq div ps"
  let ?b = "before (ext P S) i" and ?pb = "before (newp ps P S) i"
  have e: "extend_lens P S ! j = ext P S j" "new_pages ps P S ! j = newp ps P S j" if "j < length S" for j
    using that len by (simp_all add: extend_lens_def new_pages_def)
  have l: "length (extend_lens P S) = length S" "length (new_pages ps P S) = length S" using len by (simp_all add: extend_lens_def new_pages_def)
  have cum: "cumsum_upto (extend_lens P S) i = ?b + (?seq - ?pre)" "cumsum_upto (new_pages ps P S) i = ?pb + (pages_for ps ?seq - ?c)"
    using cumsum_upto_eq [of i "extend_lens P S"] cumsum_upto_eq [of i "new_pages ps P S"] l len e
      before_cong [of i "(!) (extend_lens P S)" "ext P S"] before_cong [of i "(!) (new_pages ps P S)" "newp ps P S"]
    by (simp_all add: before_Suc)
  note defs = naive_request_def spec_request_def Let_def cum e [OF len(2)]
  have c: "?pre \<le> ?c * ps" "?c * ps < ?pre + ps" using pages_for_bounds [OF ps, of ?pre] by simp_all
  show ?thesis
  proof (cases "?seq \<le> ?c * ps")
    case True
    then show ?thesis using le extend_within_page [OF ps le True]
      by (simp add: defs slice_stores_map)
  next
    case False
    have gt: "?c * ps < ?seq" using False by simp
    have n1: "min ?seq (?c * ps) - ?pre = ?c * ps - ?pre" "?pre + (?c * ps - ?pre) \<noteq> ?seq" using False c by simp_all
    have cq: "?c \<le> ?q" using gt ps by (metis div_le_mono div_mult_self_is_m less_imp_le)
    have cqps: "?c * ps \<le> ?q * ps" using cq by simp
    have q: "?q * ps \<le> ?seq" "?seq - ?q * ps < ps" using ps by (simp_all add: minus_div_mult_eq_mod)
    have np: "pages_for ps ?seq = ?q + (if ?q * ps = ?seq then 0 else 1)"
    proof -
      have "?seq mod ps = 0 \<longleftrightarrow> ?q * ps = ?seq" using div_mult_mod_eq [of ?seq ps] by linarith
      then show ?thesis using ps by (simp add: pages_for_eq)
    qed
    have fit: "?pb + (?q - ?c) \<le> length fp" using pages np by (simp add: before_Suc split: if_splits)
    have stop: "nat (int (?pb + (pages_for ps ?seq - ?c)) - (int (pages_for ps ?seq - ?c) - (int ?q - int ?c))) = ?pb + (?q - ?c)"
      using cq np by (simp add: nat_eq_iff split: if_splits)
    have part2: "page_indices ps (py_slice fp ?pb (?pb + (?q - ?c))) = map (\<lambda>x. load oob fp (?pb + x div ps) * ps + x mod ps) [0..<?q * ps - ?c * ps]"
    proof -
      have "length (py_slice fp ?pb (?pb + (?q - ?c))) = ?q - ?c" using fit by simp
      moreover have "py_slice fp ?pb (?pb + (?q - ?c)) ! (x div ps) = load oob fp (?pb + x div ps)" if "x < ?q * ps - ?c * ps" for x
      proof -
        have "x div ps < ?q - ?c" using that by (simp add: less_mult_imp_div_less diff_mult_distrib)
        moreover then have "?pb + x div ps < length fp" using fit by linarith
        ultimately show ?thesis by (simp add: nth_py_slice load_def)
      qed
      ultimately show ?thesis unfolding page_indices_map [OF ps] by (simp add: diff_mult_distrib)
    qed
    have num2: "(int ?q - int ?c) * int ps = int (?q * ps - ?c * ps)" using cqps by (simp add: of_nat_diff left_diff_distrib)
    have done2: "int ?pre + int (?c * ps - ?pre) + int (?q * ps - ?c * ps) = int ?seq \<longleftrightarrow> ?q * ps = ?seq"
      unfolding of_nat_add [symmetric] of_nat_eq_iff using c cqps by linarith
    have end3: "?b + (?seq - ?pre) - (?seq - ?q * ps) = ?b + (?c * ps - ?pre) + (?q * ps - ?c * ps)" using c cqps q by linarith
    have last3: "?pb + (pages_for ps ?seq - ?c) - 1 = ?pb + (?q - ?c)" if "?q * ps \<noteq> ?seq" using that np cq by simp
    have p2: "(if int (?q * ps - ?c * ps) \<noteq> 0 then slice_stores a (map f [0..<?q * ps - ?c * ps]) else []) = map (\<lambda>x. (a + x, f x)) [0..<?q * ps - ?c * ps]" for a f
      by (simp add: slice_stores_map)
    have p1: "(if ?c * ps - ?pre \<noteq> 0 then slice_stores a (map f [0..<?c * ps - ?pre]) else []) = map (\<lambda>x. (a + x, f x)) [0..<?c * ps - ?pre]" for a f
      by (simp add: slice_stores_map)
    have s0: "?b + (?seq - ?pre) - (?seq - ?pre) = ?b" "?pb + (pages_for ps ?seq - ?c) - (pages_for ps ?seq - ?c) = ?pb" by simp_all
    show ?thesis
      unfolding defs extend_parts [OF ps refl refl gt] n1(1) num2 stop s0 part2 p1 p2 done2 end3
      using n1(2) last3 q by (cases "?q * ps = ?seq") (simp_all add: slice_stores_map)
  qed
qed

section \<open>Whole launches\<close>

lemma length_apply_stores [simp]: "length (apply_stores out st) = length out"
  unfolding apply_stores_def by (induction st arbitrary: out) auto

lemma apply_stores_nth:
  "distinct (map fst st) \<Longrightarrow> i < length out \<Longrightarrow> apply_stores out st ! i = (case map_of st i of Some v \<Rightarrow> v | None \<Rightarrow> out ! i)"
proof (induction st arbitrary: out)
  case (Cons x st)
  obtain j v where x: "x = (j, v)" by (cases x) blast
  have "apply_stores out (x # st) = apply_stores (out[j := v]) st" by (simp add: apply_stores_def x)
  moreover have "map_of st j = None" using Cons.prems(1) x by (simp add: map_of_eq_None_iff)
  ultimately show ?case using Cons.IH [of "out[j := v]"] Cons.prems x by (cases "i = j") (auto split: option.split)
qed (simp add: apply_stores_def)

text \<open>Stores that write every index once give the same list in every order.\<close>

lemma apply_stores_perm:
  assumes "map fst st = [0..<length out]" "mset st' = mset st"
  shows "apply_stores out st' = map snd st"
proof -
  have d: "distinct (map fst st)" using assms(1) by simp
  have "mset (map fst st') = mset (map fst st)" using assms(2) by (simp only: mset_map)
  then have d': "distinct (map fst st')" using d by (metis mset_eq_imp_distinct_iff)
  have m: "map_of st' = map_of st" using map_of_inject_set [OF d' d] assms(2) by (metis set_mset_mset)
  have l: "length st = length out" using assms(1) by (metis length_map length_upt diff_zero)
  show ?thesis
  proof (rule nth_equalityI)
    fix i assume "i < length (apply_stores out st')"
    then have i: "i < length st" using l by simp
    have "fst (st ! i) = i" using assms(1) i l by (metis add_0 nth_map nth_upt)
    then have "map_of st i = Some (snd (st ! i))" using d i by (metis map_of_is_SomeI nth_mem prod.collapse)
    then show "apply_stores out st' ! i = map snd st ! i" using apply_stores_nth [OF d', of i out] m i l by simp
  qed (use l in simp)
qed

definition spec_stores :: "nat \<Rightarrow> nat \<Rightarrow> nat list \<Rightarrow> nat list \<Rightarrow> nat list \<Rightarrow> nat list \<Rightarrow> stores" where
  "spec_stores ps oob fp P S L = concat (map (spec_request ps oob fp P S L) [0..<length S])"

lemma fst_spec_stores: "map fst (concat (map (spec_request ps oob fp P S L) [0..<n])) = [0..<before (ext P S) n]"
proof (induction n)
  case (Suc n)
  have "map fst (spec_request ps oob fp P S L n) = [before (ext P S) n..<before (ext P S) n + ext P S n]"
  proof (cases "P ! n \<le> S ! n")
    case True
    then show ?thesis unfolding spec_request_def request_stores_def
      by (subst map_upt_shift) (auto simp: comp_def intro!: nth_equalityI)
  qed (simp add: spec_request_def request_stores_def)
  then show ?case using Suc upt_append_le [of 0 "before (ext P S) n" "before (ext P S) n + ext P S n"] by (simp add: before_Suc)
qed (simp add: before_def)

lemma bit_length_bound: "n < 2 ^ bit_length n"
proof (induction n rule: bit_length.induct)
  case (1 n)
  show ?case
  proof (cases "n = 0")
    case False
    then have "n div 2 < 2 ^ bit_length (n div 2)" using 1 by simp
    then have "n < 2 * 2 ^ bit_length (n div 2)" by linarith
    then show ?thesis using False by (simp add: bit_length.simps [of n])
  qed simp
qed

lemma next_power_of_2_bound: "n \<le> next_power_of_2 n"
  using bit_length_bound [of "n - 1"] by (auto simp: next_power_of_2_def)

lemma foldl_apply_stores: "foldl (\<lambda>out i. apply_stores out (f i)) out is = apply_stores out (concat (map f is))"
  by (induction "is" arbitrary: out) (auto simp: apply_stores_def)

lemma launch_extend:
  assumes ps: "0 < ps" and len: "length P = length S" and le: "\<And>i. i < length S \<Longrightarrow> P ! i \<le> S ! i"
    and out: "length out = before (ext P S) (length S)" and sched: "\<And>st. mset (sched st) = mset st"
  shows "launch sched (length P) (alloc_extend_kernel P S L fp (next_power_of_2 (length P)) ps oob) out = map snd (spec_stores ps oob fp P S L)"
proof -
  let ?K = "alloc_extend_kernel P S L fp (next_power_of_2 (length P)) ps oob"
  have "map ?K [0..<length P] = map (spec_request ps oob fp P S L) [0..<length S]"
    unfolding len by (rule map_cong) (use kernel_request [OF ps] le next_power_of_2_bound [of "length S"] in auto)
  then have k: "concat (map ?K [0..<length P]) = spec_stores ps oob fp P S L" by (simp add: spec_stores_def)
  show ?thesis unfolding launch_def k
    by (rule apply_stores_perm) (use fst_spec_stores out sched in \<open>simp_all add: spec_stores_def\<close>)
qed

section \<open>Distinct locations\<close>

text \<open>The page of token \<open>p\<close> of a request and its offset in it.\<close>

lemma extend_loc_page:
  assumes ps: "0 < ps" and al: "pre mod ps \<noteq> 0 \<Longrightarrow> (ll + 1) mod ps = pre mod ps" and p: "pre \<le> p"
  shows "extend_loc ps oob fp pb pre ll p mod ps = p mod ps \<and>
    extend_loc ps oob fp pb pre ll p div ps =
      (if p < pages_for ps pre * ps then ll div ps else load oob fp (pb + (p div ps - pages_for ps pre)))"
proof (cases "p < pages_for ps pre * ps")
  case True
  obtain k r where pre: "pre = k * ps + r" "r < ps" using ps by (metis div_mult_mod_eq mod_less_divisor)
  have r: "r \<noteq> 0" using True p pre by (auto simp: pages_for_split split: if_splits)
  then have top: "p < (k + 1) * ps" using True pre by (simp add: pages_for_split)
  obtain k' where l: "ll + 1 = k' * ps + r" using al pre r by (metis div_mult_mod_eq mod_less mod_mult_self3)
  define x where "x = r + (p - pre)"
  have d: "x < ps" using top p pre by (simp add: x_def algebra_simps)
  have e: "ll + 1 + (p - pre) = k' * ps + x" using l by (simp add: x_def)
  have a: "(ll + 1 + (p - pre)) mod ps = x" "(ll + 1 + (p - pre)) div ps = k'" unfolding e using d by simp_all
  have b: "p = k * ps + x" using p pre by (simp add: x_def)
  have b': "p mod ps = x" unfolding b using d by simp
  have "ll = k' * ps + (r - 1)" using l r by linarith
  then have c: "ll div ps = k'" using pre(2) by simp
  show ?thesis using True a b' c by (simp add: extend_loc_def)
qed (use ps in \<open>simp add: extend_loc_def\<close>)

text \<open>
  What an extension relies on: the requests whose last page has room continue where they stopped, hold that
  page alone, and it is not a free page. The last location of a request that starts a page (the code passes -1
  for an empty prefix) is not constrained: it is never used.
\<close>

definition extendable :: "nat \<Rightarrow> nat list \<Rightarrow> nat list \<Rightarrow> nat list \<Rightarrow> nat list \<Rightarrow> bool" where
  "extendable ps fp P S L \<longleftrightarrow> length P = length S \<and> (\<forall>i<length S. P ! i \<le> S ! i \<and> (P ! i mod ps \<noteq> 0 \<longrightarrow> (L ! i + 1) mod ps = P ! i mod ps)) \<and>
     distinct fp \<and>
     (\<forall>i<length S. P ! i mod ps \<noteq> 0 \<longrightarrow> L ! i div ps \<notin> set fp) \<and>
     (\<forall>i<length S. \<forall>j<length S. P ! i mod ps \<noteq> 0 \<longrightarrow> P ! j mod ps \<noteq> 0 \<longrightarrow> L ! i div ps = L ! j div ps \<longrightarrow> i = j)"

lemma room_in_page: "0 < ps \<Longrightarrow> pre \<le> p \<Longrightarrow> p < pages_for ps pre * ps \<Longrightarrow> pre mod ps \<noteq> 0 \<and> p div ps = pre div ps"
proof -
  assume a: "0 < ps" "pre \<le> p" "p < pages_for ps pre * ps"
  obtain k r where pre: "pre = k * ps + r" "r < ps" using a(1) by (metis div_mult_mod_eq mod_less_divisor)
  have top: "p < (k + (if r = 0 then 0 else 1)) * ps" using a(3) pre by (simp add: pages_for_split)
  then have r: "r \<noteq> 0" using a(2) pre by (cases "r = 0") auto
  then have "p < ps * Suc k" using top by (simp add: mult.commute)
  note r = r this
  have "ps * k \<le> p" using a(2) pre by (simp add: algebra_simps)
  then have "p div ps = k" using r(2) by (rule div_nat_eqI)
  then show ?thesis using r(1) pre by simp
qed

lemma page_index:
  assumes ps: "0 < ps" and p: "p < seq" "\<not> p < pages_for ps pre * ps"
  shows "pages_for ps pre \<le> p div ps \<and> p div ps - pages_for ps pre < pages_for ps seq - pages_for ps pre"
proof -
  have "pages_for ps pre \<le> p div ps" using p(2) ps by (simp add: less_eq_div_iff_mult_less_eq)
  moreover have "p < pages_for ps seq * ps" using p(1) pages_for_bounds(1) [OF ps, of seq] by simp
  then have "p div ps < pages_for ps seq" using ps by (simp add: div_less_iff_less_mult)
  ultimately show ?thesis by simp
qed

lemma before_unique:
  assumes "before f i + a = before f j + b" "a < f i" "b < f j"
  shows "i = j \<and> a = b"
proof (cases i j rule: linorder_cases)
  case less
  then show ?thesis using before_less [of i j f] assms by simp
next
  case greater
  then show ?thesis using before_less [of j i f] assms by simp
qed (use assms in simp)

lemma extend_loc_inj:
  assumes ps: "0 < ps" and ok: "extendable ps fp P S L" and fit: "before (newp ps P S) (length S) \<le> length fp"
    and i: "i < length S" "P ! i \<le> p" "p < S ! i" and j: "j < length S" "P ! j \<le> q" "q < S ! j"
    and eq: "extend_loc ps oob fp (before (newp ps P S) i) (P ! i) (L ! i) p = extend_loc ps oob fp (before (newp ps P S) j) (P ! j) (L ! j) q"
  shows "i = j \<and> p = q"
proof -
  let ?pb = "before (newp ps P S)" and ?c = "\<lambda>i. pages_for ps (P ! i)"
  have al: "P ! i mod ps \<noteq> 0 \<Longrightarrow> (L ! i + 1) mod ps = P ! i mod ps" "P ! j mod ps \<noteq> 0 \<Longrightarrow> (L ! j + 1) mod ps = P ! j mod ps" and d: "distinct fp"
    using ok i(1) j(1) by (simp_all add: extendable_def)
  note pi = extend_loc_page [OF ps al(1) i(2), of oob fp "?pb i"] and pj = extend_loc_page [OF ps al(2) j(2), of oob fp "?pb j"]
  have m: "p mod ps = q mod ps" using pi pj eq by simp
  have "i = j \<and> p div ps = q div ps"
  proof (cases "p < ?c i * ps"; cases "q < ?c j * ps")
    assume h: "p < ?c i * ps" "q < ?c j * ps"
    have r: "P ! i mod ps \<noteq> 0" "P ! j mod ps \<noteq> 0" "p div ps = P ! i div ps" "q div ps = P ! j div ps"
      using room_in_page [OF ps i(2) h(1)] room_in_page [OF ps j(2) h(2)] by simp_all
    have "L ! i div ps = L ! j div ps" using pi pj eq h by simp
    then have "i = j" using ok r(1,2) i(1) j(1) by (simp add: extendable_def)
    then show ?thesis using r by simp
  next
    assume h: "p < ?c i * ps" "\<not> q < ?c j * ps"
    have "?pb j + (q div ps - ?c j) < length fp" using page_index [OF ps j(3) h(2)] before_less [OF j(1), of "newp ps P S"] fit by linarith
    moreover then have "L ! i div ps = fp ! (?pb j + (q div ps - ?c j))" using pi pj eq h by (simp add: load_def)
    ultimately have "L ! i div ps \<in> set fp" by simp
    then show ?thesis using ok i(1) room_in_page [OF ps i(2) h(1)] by (simp add: extendable_def)
  next
    assume h: "\<not> p < ?c i * ps" "q < ?c j * ps"
    have "?pb i + (p div ps - ?c i) < length fp" using page_index [OF ps i(3) h(1)] before_less [OF i(1), of "newp ps P S"] fit by linarith
    moreover then have "L ! j div ps = fp ! (?pb i + (p div ps - ?c i))" using pi pj eq h by (simp add: load_def)
    ultimately have "L ! j div ps \<in> set fp" by simp
    then show ?thesis using ok j(1) room_in_page [OF ps j(2) h(2)] by (simp add: extendable_def)
  next
    assume h: "\<not> p < ?c i * ps" "\<not> q < ?c j * ps"
    note qi = page_index [OF ps i(3) h(1)] and qj = page_index [OF ps j(3) h(2)]
    have b: "?pb i + (p div ps - ?c i) < length fp" "?pb j + (q div ps - ?c j) < length fp"
      using qi qj before_less [OF i(1), of "newp ps P S"] before_less [OF j(1), of "newp ps P S"] fit by linarith+
    then have "fp ! (?pb i + (p div ps - ?c i)) = fp ! (?pb j + (q div ps - ?c j))" using pi pj eq h by (simp add: load_def)
    then have "?pb i + (p div ps - ?c i) = ?pb j + (q div ps - ?c j)" using d b by (simp add: nth_eq_iff_index_eq)
    from before_unique [OF this] qi qj have ij: "i = j" "p div ps - ?c i = q div ps - ?c j" by blast+
    from ij(2) have "p div ps = q div ps" using qi qj unfolding ij(1) by linarith
    then show ?thesis using ij(1) by simp
  qed
  then show ?thesis using m by (metis div_mult_mod_eq)
qed

text \<open>The locations a batch is given are distinct, and in pages the requests held or that were taken.\<close>

lemma spec_locations:
  assumes ps: "0 < ps" and ok: "extendable ps fp P S L" and fit: "before (newp ps P S) (length S) \<le> length fp"
  shows "distinct (map snd (spec_stores ps oob fp P S L))"
    and "loc \<in> set (map snd (spec_stores ps oob fp P S L)) \<Longrightarrow>
      loc div ps \<in> set (take (before (newp ps P S) (length S)) fp) \<or> (\<exists>i<length S. P ! i mod ps \<noteq> 0 \<and> loc div ps = L ! i div ps \<and> L ! i < loc)"
proof -
  let ?pb = "before (newp ps P S)"
  let ?loc = "\<lambda>(i, p). extend_loc ps oob fp (?pb i) (P ! i) (L ! i) p"
  let ?T = "concat (map (\<lambda>i. map (Pair i) [P ! i..<S ! i]) [0..<length S])"
  have e: "map snd (spec_stores ps oob fp P S L) = map ?loc ?T"
    by (simp add: spec_stores_def spec_request_def request_stores_def map_concat comp_def)
  have T: "(i, p) \<in> set ?T \<longleftrightarrow> i < length S \<and> P ! i \<le> p \<and> p < S ! i" for i p by (auto simp: image_iff)
  have "distinct (concat (map (\<lambda>i. map (Pair i) [P ! i..<S ! i]) [0..<n]))" for n
    by (induction n) (auto simp: distinct_map inj_on_def)
  moreover have "inj_on ?loc (set ?T)"
  proof (rule inj_onI)
    fix x y assume xy: "x \<in> set ?T" "y \<in> set ?T" "?loc x = ?loc y"
    obtain i p j q where s: "x = (i, p)" "y = (j, q)" by (cases x, cases y) blast
    from extend_loc_inj [OF ps ok fit, of i p j q oob] xy show "x = y" unfolding s T by auto
  qed
  ultimately show "distinct (map snd (spec_stores ps oob fp P S L))" unfolding e distinct_map by blast
  assume "loc \<in> set (map snd (spec_stores ps oob fp P S L))"
  then obtain i p where ip: "i < length S" "P ! i \<le> p" "p < S ! i" "loc = ?loc (i, p)" unfolding e set_map using T by fastforce
  have al: "P ! i mod ps \<noteq> 0 \<Longrightarrow> (L ! i + 1) mod ps = P ! i mod ps" using ok ip(1) by (simp add: extendable_def)
  have page: "loc div ps = (if p < pages_for ps (P ! i) * ps then L ! i div ps else load oob fp (?pb i + (p div ps - pages_for ps (P ! i))))"
    using extend_loc_page [OF ps al ip(2), of oob fp "?pb i"] ip(4) by simp
  show "loc div ps \<in> set (take (?pb (length S)) fp) \<or> (\<exists>i<length S. P ! i mod ps \<noteq> 0 \<and> loc div ps = L ! i div ps \<and> L ! i < loc)"
  proof (cases "p < pages_for ps (P ! i) * ps")
    case True
    then have "L ! i < loc" using ip(4) by (simp add: extend_loc_def)
    then show ?thesis using True page room_in_page [OF ps ip(2) True] ip(1) by auto
  next
    case False
    have lt: "?pb i + (p div ps - pages_for ps (P ! i)) < ?pb (length S)"
      using page_index [OF ps ip(3) False] before_less [OF ip(1), of "newp ps P S"] by linarith
    then have "loc div ps \<in> set (take (?pb (length S)) fp)"
      using page False fit by (auto simp: load_def in_set_conv_nth intro!: exI [of _ "?pb i + (p div ps - pages_for ps (P ! i))"])
    then show ?thesis ..
  qed
qed

text \<open>A sublist of the free pages of an extendable batch.\<close>

lemma extendable_sub: "extendable ps fp P S L \<Longrightarrow> mset fp = mset (xs @ ys) \<Longrightarrow> extendable ps xs P S L \<and> distinct (xs @ ys)"
proof -
  assume a: "extendable ps fp P S L" "mset fp = mset (xs @ ys)"
  have d: "distinct (xs @ ys)" using a mset_eq_imp_distinct_iff [OF a(2)] by (simp add: extendable_def)
  have "set fp = set (xs @ ys)" using a(2) by (metis set_mset_mset)
  then have "set xs \<subseteq> set fp" by auto
  then show ?thesis using a(1) d by (auto simp: extendable_def)
qed

lemma sum_list_int: "(\<Sum>i\<leftarrow>xs. int (f i)) = int (\<Sum>i\<leftarrow>xs. f i)"
  by (induction xs) auto

lemma num_new_pages_before:
  assumes "length P = length S" "\<And>i. i < length S \<Longrightarrow> P ! i \<le> S ! i" "0 < ps"
  shows "get_num_new_pages S ps (Some P) False = Inr (int (before (newp ps P S) (length S)))"
proof -
  have mono: "pages_for ps (P ! i) \<le> pages_for ps (S ! i)" if "i < length S" for i
    using assms(2) [OF that] by (simp add: pages_for_def div_le_mono)
  have "zip S P = map (\<lambda>i. (S ! i, P ! i)) [0..<length S]" using assms(1) by (intro nth_equalityI) auto
  then have "(\<Sum>(s, p)\<leftarrow>zip S P. int (pages_for ps s) - int (pages_for ps p)) = (\<Sum>i\<leftarrow>[0..<length S]. int (newp ps P S i))"
    using mono by (simp add: comp_def) (rule arg_cong [of _ _ sum_list], rule map_cong, auto simp: of_nat_diff)
  also have "\<dots> = int (before (newp ps P S) (length S))"
    unfolding before_def by (rule sum_list_int)
  finally show ?thesis by (simp add: get_num_new_pages_def)
qed

lemma batch_sums:
  assumes "length P = length S"
  shows "sum_list (new_pages ps P S) = before (newp ps P S) (length S)" "sum_list (extend_lens P S) = before (ext P S) (length S)"
proof -
  have z: "zip S P = map (\<lambda>i. (S ! i, P ! i)) [0..<length S]" using assms by (intro nth_equalityI) auto
  show "sum_list (new_pages ps P S) = before (newp ps P S) (length S)" "sum_list (extend_lens P S) = before (ext P S) (length S)"
    unfolding new_pages_def extend_lens_def z before_def by (simp_all add: comp_def)
qed

section \<open>Properties\<close>

text \<open>
  C29. The extension kernel is race-free and equals the sequential loop: whatever the order in which the
  stores of its programs take effect, the launch leaves in \<open>out_indices\<close> exactly what
  \<open>alloc_extend_naive\<close> computes, when there are enough free pages.
\<close>
theorem alloc_extend_kernel_equals_naive:
  assumes "0 < page_size" "length prefix_lens = length seq_lens" "\<forall>i<length seq_lens. prefix_lens ! i \<le> seq_lens ! i"
    and "sum_list (new_pages page_size prefix_lens seq_lens) \<le> length free_pages"
    and "length out = sum_list (extend_lens prefix_lens seq_lens)" "\<forall>st. mset (sched st) = mset st"
  shows "launch sched (length prefix_lens)
      (alloc_extend_kernel prefix_lens seq_lens last_loc free_pages (next_power_of_2 (length prefix_lens)) page_size oob) out =
    alloc_extend_naive prefix_lens seq_lens last_loc free_pages page_size oob out"
proof -
  let ?n = "length seq_lens"
  note sums = batch_sums [OF assms(2)]
  have fit: "before (newp page_size prefix_lens seq_lens) (Suc i) \<le> length free_pages" if "i < ?n" for i
    using before_less [OF that, of "newp page_size prefix_lens seq_lens"] assms(4) sums(1) by (simp add: before_Suc)
  have "map (naive_request prefix_lens seq_lens last_loc free_pages page_size oob) [0..<length prefix_lens] =
      map (spec_request page_size oob free_pages prefix_lens seq_lens last_loc) [0..<?n]"
    unfolding assms(2) by (rule map_cong) (use naive_request_eq [OF assms(1,2)] assms(3) fit in auto)
  then have "alloc_extend_naive prefix_lens seq_lens last_loc free_pages page_size oob out =
      apply_stores out (spec_stores page_size oob free_pages prefix_lens seq_lens last_loc)"
    by (simp add: alloc_extend_naive_def foldl_apply_stores spec_stores_def)
  also have "\<dots> = map snd (spec_stores page_size oob free_pages prefix_lens seq_lens last_loc)"
    by (rule apply_stores_perm) (use fst_spec_stores assms(5) sums(2) in \<open>simp_all add: spec_stores_def\<close>)
  finally show ?thesis using launch_extend [OF assms(1,2)] assms(3,5,6) sums(2) by simp
qed

lemma merged_pages: "mset (kp_free_pages (merge_and_sort_free s) @ kp_release_pages (merge_and_sort_free s)) = mset (kp_free_pages s @ kp_release_pages s)"
  by (simp add: merge_and_sort_free_def)

text \<open>
  What \<open>alloc_extend\<close> and \<open>alloc_decode\<close> hand out once the free pages are in place: nothing if there are too
  few, otherwise the specified locations, and the pages they need leave the pool.
\<close>

definition grant :: "nat \<Rightarrow> kv_pool \<Rightarrow> nat list \<Rightarrow> nat list \<Rightarrow> nat list \<Rightarrow> nat list option \<times> kv_pool" where
  "grant oob t P S L =
     (let N = before (newp (kp_page_size t) P S) (length S) in
      if length (kp_free_pages t) < N then (None, t)
      else (Some (map snd (spec_stores (kp_page_size t) oob (kp_free_pages t) P S L)), t\<lparr> kp_free_pages := drop N (kp_free_pages t) \<rparr>))"

lemma alloc_extend_run:
  assumes "0 < kp_page_size s" "length P = length S" "\<forall>i<length S. P ! i \<le> S ! i"
    and "length uninit = sum_list (extend_lens P S)" "\<forall>st. mset (sched st) = mset st"
  shows "\<exists>t. (t = s \<or> t = merge_and_sort_free s) \<and> alloc_extend sched oob uninit s P S L n = Inr (grant oob t P S L)"
proof -
  define t where "t = (if kp_need_sort s \<and> n div kp_page_size s + length P + 1 > length (kp_free_pages s) then merge_and_sort_free s else s)"
  have ps: "kp_page_size t = kp_page_size s" by (simp add: t_def)
  have out: "launch sched (length P) (alloc_extend_kernel P S L (kp_free_pages t) (next_power_of_2 (length P)) (kp_page_size s) oob) uninit =
      map snd (spec_stores (kp_page_size s) oob (kp_free_pages t) P S L)"
    by (rule launch_extend) (use assms batch_sums(2) [OF assms(2)] in auto)
  have num: "get_num_new_pages S (kp_page_size s) (Some P) False = Inr (int (before (newp (kp_page_size s) P S) (length S)))"
    by (rule num_new_pages_before) (use assms(1-3) in auto)
  have "alloc_extend sched oob uninit s P S L n = Inr (grant oob t P S L)"
    unfolding alloc_extend_def Let_def t_def [symmetric] ps out num rbind_Inr by (simp add: grant_def ps Let_def)
  then show ?thesis by (intro exI [of _ t]) (auto simp: t_def)
qed

text \<open>
  C30. \<open>alloc_extend\<close> is safe. When it returns locations, they are as many as the new tokens and distinct, none
  lies in a page the allocator still holds, and exactly the pages the batch needs have left it; when
  it returns None, it holds the pages it held before.
\<close>
theorem alloc_extend_safe:
  assumes "alloc_extend sched oob uninit s P S L n = Inr (r, s')" "0 < kp_page_size s"
    and "extendable (kp_page_size s) (kp_free_pages s @ kp_release_pages s) P S L"
    and "length uninit = sum_list (extend_lens P S)" "\<forall>st. mset (sched st) = mset st"
  shows "case r of
      None \<Rightarrow> mset (kp_free_pages s' @ kp_release_pages s') = mset (kp_free_pages s @ kp_release_pages s)
    | Some out \<Rightarrow> length out = length uninit \<and> distinct out \<and>
        (\<forall>loc\<in>set out. loc div kp_page_size s \<notin> set (kp_free_pages s' @ kp_release_pages s')) \<and>
        (\<exists>taken. length taken = sum_list (new_pages (kp_page_size s) P S) \<and>
           mset (kp_free_pages s @ kp_release_pages s) = mset taken + mset (kp_free_pages s' @ kp_release_pages s'))"
proof -
  have len: "length P = length S" "\<forall>i<length S. P ! i \<le> S ! i" using assms(3) by (auto simp: extendable_def)
  obtain t where t0: "t = s \<or> t = merge_and_sort_free s" "alloc_extend sched oob uninit s P S L n = Inr (grant oob t P S L)"
    using alloc_extend_run [OF assms(2) len assms(4,5)] by blast
  let ?ps = "kp_page_size s" and ?fp = "kp_free_pages t" and ?N = "before (newp (kp_page_size s) P S) (length S)"
  have t: "kp_page_size t = ?ps" "mset (kp_free_pages t @ kp_release_pages t) = mset (kp_free_pages s @ kp_release_pages s)"
    using merged_pages [of s] t0(1) by auto
  have ok: "extendable ?ps ?fp P S L" and d: "distinct (?fp @ kp_release_pages t)" using extendable_sub [OF assms(3) t(2) [symmetric]] by auto
  have run: "(r, s') = (if length ?fp < ?N then (None, t) else (Some (map snd (spec_stores ?ps oob ?fp P S L)), t\<lparr> kp_free_pages := drop ?N ?fp \<rparr>))"
    using assms(1) t0(2) unfolding grant_def t(1) Let_def by (auto split: if_splits)
  show ?thesis
  proof (cases "length ?fp < ?N")
    case True
    then show ?thesis using run t(2) by auto
  next
    case False
    then have res: "r = Some (map snd (spec_stores ?ps oob ?fp P S L))" "s' = t\<lparr> kp_free_pages := drop ?N ?fp \<rparr>" using run by auto
    have fit: "?N \<le> length ?fp" using False by simp
    have "length (map fst (spec_stores ?ps oob ?fp P S L)) = before (ext P S) (length S)" unfolding spec_stores_def fst_spec_stores by simp
    then have l: "length (map snd (spec_stores ?ps oob ?fp P S L)) = length uninit" using assms(4) batch_sums(2) [OF len(1)] by simp
    have fresh: "loc div ?ps \<notin> set (drop ?N ?fp @ kp_release_pages t)" if loc: "loc \<in> set (map snd (spec_stores ?ps oob ?fp P S L))" for loc
      using spec_locations(2) [OF assms(2) ok fit loc]
    proof
      assume "loc div ?ps \<in> set (take ?N ?fp)"
      then show ?thesis using d set_take_disj_set_drop_if_distinct [of ?fp ?N ?N] by (auto dest: in_set_takeD)
    next
      assume "\<exists>i<length S. P ! i mod ?ps \<noteq> 0 \<and> loc div ?ps = L ! i div ?ps \<and> L ! i < loc"
      then have "loc div ?ps \<notin> set (kp_free_pages s @ kp_release_pages s)" using assms(3) by (auto simp: extendable_def)
      then have "loc div ?ps \<notin> set (?fp @ kp_release_pages t)" using t(2) by (metis set_mset_mset)
      then show ?thesis by (auto dest: in_set_dropD)
    qed
    have taken: "mset (kp_free_pages s @ kp_release_pages s) = mset (take ?N ?fp) + mset (drop ?N ?fp @ kp_release_pages t)"
      unfolding t(2) [symmetric] by (metis append_assoc append_take_drop_id mset_append)
    show ?thesis unfolding res option.case
      using l fresh taken fit spec_locations(1) [OF assms(2) ok fit, of oob] batch_sums(1) [OF len(1)]
      by (auto intro!: exI [of _ "take ?N ?fp"])
  qed
qed

lemma before_const: "before (\<lambda>_. 1) i = i"
  by (induction i) (auto simp: before_Suc, simp add: before_def)

lemma before_ext_decode:
  assumes "\<And>j. j < n \<Longrightarrow> j < length S \<and> 0 < S ! j"
  shows "before (ext (map (\<lambda>x. x - 1) S) S) n = n"
proof -
  have "before (ext (map (\<lambda>x. x - 1) S) S) n = before (\<lambda>_. 1) n" by (rule before_cong) (use assms in \<open>force simp: Suc_le_eq\<close>)
  then show ?thesis by (simp only: before_const)
qed

lemma decode_page_count: "2 \<le> ps \<Longrightarrow> 0 < n \<Longrightarrow> pages_for ps n - pages_for ps (n - 1) = (if n mod ps = 1 then 1 else 0)"
proof -
  assume a: "2 \<le> ps" "0 < n"
  obtain k r where n: "n - 1 = k * ps + r" "r < ps" using a(1) by (metis div_mult_mod_eq mod_less_divisor not_numeral_le_zero gr0I)
  show ?thesis
  proof (cases "Suc r < ps")
    case True
    have e: "n = k * ps + Suc r" using n(1) a(2) by simp
    have m: "n mod ps = Suc r" unfolding e using True by simp
    show ?thesis unfolding n(1) m unfolding e pages_for_split [OF True] pages_for_split [OF n(2)] by simp
  next
    case False
    then have "Suc r = ps" using n(2) by simp
    then have e: "n = Suc k * ps + 0" using n(1) a(2) by simp
    have m: "n mod ps = 0" unfolding e by simp
    have "0 < ps" "r \<noteq> 0" using \<open>Suc r = ps\<close> a(1) by auto
    then show ?thesis unfolding n(1) m unfolding e pages_for_split [OF \<open>0 < ps\<close>] pages_for_split [OF n(2)] by simp
  qed
qed

lemma decode_request:
  assumes ps: "0 < ps" and i: "i < bs_upper" "i < length S" "\<And>j. j < length S \<Longrightarrow> 0 < S ! j"
  shows "alloc_decode_kernel S L fp bs_upper ps oob i = spec_request ps oob fp (map (\<lambda>x. x - 1) S) S L i"
proof -
  let ?P = "map (\<lambda>x. x - 1) S" and ?pre = "S ! i - 1"
  have pos: "0 < S ! i" using i by simp
  have e: "before (ext ?P S) i = i"
    by (rule before_ext_decode) (use i in simp)
  have nb: "before (\<lambda>j. pages_for ps (S ! j) - pages_for ps (S ! j - 1)) i = before (newp ps ?P S) i" using i by (intro before_cong) simp
  have ls: "lane_sum bs_upper i (\<lambda>j. pages_for ps (S ! j) - pages_for ps (S ! j - 1)) - (pages_for ps (S ! i) - pages_for ps ?pre) = before (newp ps ?P S) i"
    using lane_sum_eq [OF i(1)] nb by (simp add: before_Suc)
  have up: "[?pre..<S ! i] = [?pre]" using pos by (cases "S ! i") simp_all
  have c: "pages_for ps (S ! i) - pages_for ps ?pre = 0 \<longleftrightarrow> ?pre < pages_for ps ?pre * ps"
  proof -
    obtain k r where n: "?pre = k * ps + r" "r < ps" using ps by (metis div_mult_mod_eq mod_less_divisor)
    have S: "S ! i = k * ps + Suc r" using n(1) pos by simp
    have "pages_for ps (S ! i) = k + 1"
    proof (cases "Suc r < ps")
      case False
      then have "S ! i = Suc k * ps + 0" using S n(2) by simp
      then show ?thesis using pages_for_split [of 0 ps "Suc k"] ps by simp
    next
      case True
      show ?thesis unfolding S pages_for_split [OF True] by simp
    qed
    then show ?thesis unfolding n(1) pages_for_split [OF n(2)] using n(2) by (cases "r = 0") auto
  qed
  have new: "?pre div ps - pages_for ps ?pre = 0 \<and> ?pre mod ps = 0" if "\<not> ?pre < pages_for ps ?pre * ps"
  proof -
    have "?pre = pages_for ps ?pre * ps" using that pages_for_bounds(1) [OF ps, of ?pre] by simp
    then have "?pre mod ps = 0" by (metis mod_mult_self2_is_0)
    then show ?thesis using pages_for_bounds(3) [OF ps, of ?pre] by simp
  qed
  show ?thesis
    unfolding alloc_decode_kernel_def spec_request_def request_stores_def Let_def e ls nth_map [OF i(2)] up c
    using new by (simp add: extend_loc_def)
qed

lemma launch_decode:
  assumes "0 < page_size" "\<forall>i<length seq_lens. 0 < seq_lens ! i" "length out = length seq_lens" "\<forall>st. mset (sched st) = mset st"
  shows "launch sched (length seq_lens)
      (alloc_decode_kernel seq_lens last_loc free_pages (next_power_of_2 (length seq_lens)) page_size oob) out =
    map snd (spec_stores page_size oob free_pages (map (\<lambda>x. x - 1) seq_lens) seq_lens last_loc)"
proof -
  let ?P = "map (\<lambda>x. x - 1) seq_lens" and ?n = "length seq_lens"
  have ext1: "before (ext ?P seq_lens) ?n = ?n"
    by (rule before_ext_decode) (use assms(2) in simp)
  have "map (alloc_decode_kernel seq_lens last_loc free_pages (next_power_of_2 ?n) page_size oob) [0..<?n] =
      map (spec_request page_size oob free_pages ?P seq_lens last_loc) [0..<?n]"
    by (rule map_cong) (use decode_request [OF assms(1)] assms(2) next_power_of_2_bound [of ?n] in auto)
  then have "launch sched ?n (alloc_decode_kernel seq_lens last_loc free_pages (next_power_of_2 ?n) page_size oob) out =
      apply_stores out (sched (spec_stores page_size oob free_pages ?P seq_lens last_loc))"
    by (simp only: launch_def spec_stores_def)
  also have "\<dots> = map snd (spec_stores page_size oob free_pages ?P seq_lens last_loc)"
    by (rule apply_stores_perm) (use fst_spec_stores assms(3,4) ext1 in \<open>simp_all add: spec_stores_def\<close>)
  finally show ?thesis .
qed

lemma decode_num_new_pages:
  assumes "2 \<le> page_size" "\<forall>i<length seq_lens. 0 < seq_lens ! i"
  shows "get_num_new_pages seq_lens page_size None True =
    Inr (int (before (newp page_size (map (\<lambda>x. x - 1) seq_lens) seq_lens) (length seq_lens)))"
proof -
  let ?P = "map (\<lambda>x. x - 1) seq_lens" and ?n = "length seq_lens"
  have "before (newp page_size ?P seq_lens) ?n = before (\<lambda>i. if seq_lens ! i mod page_size = 1 then 1 else 0) ?n"
    by (rule before_cong) (use decode_page_count [OF assms(1)] assms(2) in simp)
  also have "\<dots> = (\<Sum>x\<leftarrow>seq_lens. if x mod page_size = 1 then 1 else 0)"
  proof -
    have "map (\<lambda>i. if seq_lens ! i mod page_size = 1 then 1 else 0 :: nat) [0..<?n] = map (\<lambda>x. if x mod page_size = 1 then 1 else 0) seq_lens"
      by (rule nth_equalityI) auto
    then show ?thesis by (simp only: before_def)
  qed
  also have "\<dots> = length (filter (\<lambda>x. x mod page_size = 1) seq_lens)" by (induction seq_lens) auto
  finally show ?thesis by (simp add: get_num_new_pages_def)
qed


text \<open>
  C31. Decoding is extension by one token: for pages of at least two tokens, the decode kernel stores the
  locations the extension kernel gives to prefixes one token shorter, and its shortcut for the number of new
  pages, counting the lengths that are 1 modulo the page size, is the general count.
\<close>
theorem alloc_decode_equals_extend:
  assumes "2 \<le> page_size" "\<forall>i<length seq_lens. 0 < seq_lens ! i" "length out = length seq_lens" "\<forall>st. mset (sched st) = mset st"
  shows "launch sched (length seq_lens)
      (alloc_decode_kernel seq_lens last_loc free_pages (next_power_of_2 (length seq_lens)) page_size oob) out =
    launch sched (length seq_lens) (alloc_extend_kernel (map (\<lambda>x. x - 1) seq_lens) seq_lens last_loc free_pages
      (next_power_of_2 (length seq_lens)) page_size oob) out \<and>
    get_num_new_pages seq_lens page_size None True = get_num_new_pages seq_lens page_size (Some (map (\<lambda>x. x - 1) seq_lens)) False"
proof -
  let ?P = "map (\<lambda>x. x - 1) seq_lens" and ?n = "length seq_lens"
  have ps: "0 < page_size" using assms(1) by simp
  have le: "?P ! i \<le> seq_lens ! i" if "i < ?n" for i using that by simp
  have ext1: "before (ext ?P seq_lens) ?n = ?n" by (rule before_ext_decode) (use assms(2) in simp)
  have "map snd (spec_stores page_size oob free_pages ?P seq_lens last_loc) =
      launch sched ?n (alloc_extend_kernel ?P seq_lens last_loc free_pages (next_power_of_2 ?n) page_size oob) out"
    using launch_extend [OF ps, of ?P seq_lens out sched last_loc free_pages oob] le assms(3,4) ext1 by simp
  then show ?thesis
    using launch_decode [OF ps assms(2-4)] decode_num_new_pages [OF assms(1,2)] num_new_pages_before [OF _ le ps] by simp
qed

text \<open>With pages of one token the shortcut counts no page, while decoding takes one per request.\<close>

lemma decode_count_page_size_one:
  "get_num_new_pages [5] 1 None True = Inr 0 \<and> get_num_new_pages [5] 1 (Some [4]) False = Inr 1"
  by (simp add: get_num_new_pages_def pages_for_def)

section \<open>Runs of the paged allocator\<close>























section \<open>Witnesses\<close>

lemma example_extendable: "extendable 4 [3, 7, 2, 9] [2, 4] [7, 5] [5, 19]"
  by (simp add: extendable_def All_less_Suc numeral_2_eq_2)

theorem alloc_extend_kernel_equals_naive_witness:
  "launch rev (length [2, 4 :: nat]) (alloc_extend_kernel [2, 4] [7, 5] [5, 19] [3, 7, 2] (next_power_of_2 (length [2, 4 :: nat])) 4 0) [0, 0, 0, 0, 0, 0] =
   alloc_extend_naive [2, 4] [7, 5] [5, 19] [3, 7, 2] 4 0 [0, 0, 0, 0, 0, 0]"
  by (rule alloc_extend_kernel_equals_naive)
    (simp_all add: new_pages_def extend_lens_def pages_for_def All_less_Suc numeral_2_eq_2)

definition example_pool :: kv_pool where
  "example_pool = \<lparr> kp_size = 40, kp_page_size = 4, kp_need_sort = False, kp_free_pages = [3, 7, 2, 9], kp_release_pages = [],
     kp_not_in_free_group = True, kp_free_group = [] \<rparr>"

theorem alloc_extend_safe_witness:
  "\<exists>out s'. alloc_extend id 0 [0, 0, 0, 0, 0, 0] example_pool [2, 4] [7, 5] [5, 19] 6 = Inr (Some out, s') \<and> distinct out \<and>
     (\<forall>loc\<in>set out. loc div 4 \<notin> set (kp_free_pages s' @ kp_release_pages s'))"
proof -
  have n: "get_num_new_pages [7, 5] 4 (Some [2, 4]) False = Inr 2" by (simp add: get_num_new_pages_def pages_for_def)
  obtain out s' where r: "alloc_extend id 0 [0, 0, 0, 0, 0, 0] example_pool [2, 4] [7, 5] [5, 19] 6 = Inr (Some out, s')"
    by (simp add: alloc_extend_def example_pool_def n Let_def)
  have e: "extendable (kp_page_size example_pool) (kp_free_pages example_pool @ kp_release_pages example_pool) [2, 4] [7, 5] [5, 19]"
    using example_extendable by (simp add: example_pool_def)
  have "case Some out of
      None \<Rightarrow> mset (kp_free_pages s' @ kp_release_pages s') = mset (kp_free_pages example_pool @ kp_release_pages example_pool)
    | Some out \<Rightarrow> length out = length [0, 0, 0, 0, 0, 0 :: nat] \<and> distinct out \<and>
        (\<forall>loc\<in>set out. loc div kp_page_size example_pool \<notin> set (kp_free_pages s' @ kp_release_pages s')) \<and>
        (\<exists>taken. length taken = sum_list (new_pages (kp_page_size example_pool) [2, 4] [7, 5]) \<and>
           mset (kp_free_pages example_pool @ kp_release_pages example_pool) = mset taken + mset (kp_free_pages s' @ kp_release_pages s'))"
    by (rule alloc_extend_safe [OF r _ e]) (simp_all add: example_pool_def extend_lens_def)
  then show ?thesis using r by (auto simp: example_pool_def)
qed

theorem alloc_decode_equals_extend_witness:
  "launch rev (length [5, 8 :: nat]) (alloc_decode_kernel [5, 8] [19, 30] [3, 7] (next_power_of_2 (length [5, 8 :: nat])) 4 0) [0, 0] =
   launch rev (length [5, 8 :: nat]) (alloc_extend_kernel (map (\<lambda>x. x - 1) [5, 8]) [5, 8] [19, 30] [3, 7] (next_power_of_2 (length [5, 8 :: nat])) 4 0) [0, 0] \<and>
   get_num_new_pages [5, 8] 4 None True = get_num_new_pages [5, 8] 4 (Some (map (\<lambda>x. x - 1) [5, 8])) False"
  by (rule alloc_decode_equals_extend) (simp_all add: All_less_Suc numeral_2_eq_2)



end
