(* ===== verification/Radix_Key.thy ===== *)
theory Radix_Key
  imports Prelude "HOL-Library.Sublist"
begin

text \<open>
  The keys of the prefix cache (\<open>RadixKey\<close> of \<open>sglang/srt/mem_cache/radix_cache.py\<close>).

  \<^item> \<open>radix_key\<close> is the class. A key stands for a list of logical units, its \<open>units\<close>: the tokens, or for a
    bigram key the pairs of neighbouring tokens, with one token more than units.
  \<^item> The operations work on the raw tokens, as the code does. The lemmas restate them on units, and the
    theories of the tree use only these lemmas.
  \<^item> \<open>maybe_to_bigram_view\<close> sets the flag of the key object in place and returns it; the model returns the changed key.
    A caller that uses the object again passes the bigram view, on which a second conversion does nothing.
  \<^item> A page size is positive; with page size 0 the loop of \<open>match\<close> would not end.
  \<^item> \<open>child_key\<close> returns a plain token, a tuple or a pair with the extra key; \<open>ckey\<close> is the pair of the extra key
    and the units of the first page in every case. For one page size this is the same up to renaming.
\<close>

section \<open>\<open>RadixKey\<close>\<close>

record radix_key =
  rk_tokens :: "int list"
  rk_extra :: "string option"
  rk_bigram :: bool

datatype lunit = Tok int | Bigram int int

type_synonym ckey = "string option \<times> lunit list"

text \<open>\<open>__len__\<close> and \<open>__iter__\<close>.\<close>

definition rk_len :: "radix_key \<Rightarrow> nat" where
  "rk_len k = (if rk_bigram k then let n = length (rk_tokens k) in if n > 0 then n - 1 else 0 else length (rk_tokens k))"

definition units :: "radix_key \<Rightarrow> lunit list" where
  "units k = (let t = rk_tokens k in
     if rk_bigram k then map (\<lambda>i. Bigram (t ! i) (t ! Suc i)) [0..<length t - 1] else map Tok t)"

text \<open>\<open>__getitem__\<close> on a slice with nonnegative bounds, and on an index.\<close>

definition rk_slice :: "radix_key \<Rightarrow> nat \<Rightarrow> nat \<Rightarrow> radix_key" where
  "rk_slice k i j =
     (let start = min i (rk_len k); stop = min j (rk_len k) in
      if rk_bigram k
      then k\<lparr> rk_tokens := (if stop > start then take (stop + 1 - start) (drop start (rk_tokens k)) else []) \<rparr>
      else k\<lparr> rk_tokens := take (stop - start) (drop start (rk_tokens k)) \<rparr>)"

definition rk_get :: "radix_key \<Rightarrow> int \<Rightarrow> radix_key result" where
  "rk_get k idx =
     (let i = (if idx < 0 then idx + int (rk_len k) else idx) in
      if i < 0 \<or> i \<ge> int (rk_len k) then Inl IndexError else Inr (rk_slice k (nat i) (nat i + 1)))"

definition rk_from :: "radix_key \<Rightarrow> nat \<Rightarrow> radix_key" where
  "rk_from k i = rk_slice k i (rk_len k)"

definition page_aligned :: "nat \<Rightarrow> radix_key \<Rightarrow> radix_key" where
  "page_aligned page_size k =
     (if page_size = 1 then k else rk_slice k 0 (rk_len k div page_size * page_size))"

definition maybe_to_bigram_view :: "bool \<Rightarrow> radix_key \<Rightarrow> nat list option \<Rightarrow> radix_key \<times> nat list option" where
  "maybe_to_bigram_view is_eagle k val =
     (if is_eagle \<and> \<not> rk_bigram k
      then let k = k\<lparr> rk_bigram := True \<rparr> in (k, map_option (take (rk_len k)) val) else (k, val))"

definition check_compatible :: "radix_key \<Rightarrow> radix_key \<Rightarrow> unit result" where
  "check_compatible k other =
     (if rk_extra k \<noteq> rk_extra other then Inl (ValueError ''RadixKey operations require matching extra_key'') else Inr ())"

text \<open>\<open>match\<close>: the number of leading equal items, and the loop over pages.\<close>

fun common :: "'a list \<Rightarrow> 'a list \<Rightarrow> nat" where
  "common (x # xs) (y # ys) = (if x \<noteq> y then 0 else Suc (common xs ys))"
| "common _ _ = 0"

function match_pages :: "int list \<Rightarrow> int list \<Rightarrow> nat \<Rightarrow> nat \<Rightarrow> nat \<Rightarrow> nat" where
  "match_pages t0 t1 page_size min_len i =
     (if i < min_len \<and> 0 < page_size then
        if take page_size (drop i t0) \<noteq> take page_size (drop i t1) then i
        else match_pages t0 t1 page_size min_len (i + page_size)
      else i)"
  by pat_completeness auto
termination by (relation "measure (\<lambda>(t0, t1, p, m, i). m - i)") auto

declare match_pages.simps [simp del]

definition rk_match :: "radix_key \<Rightarrow> radix_key \<Rightarrow> nat \<Rightarrow> nat result" where
  "rk_match k other page_size =
     rbind (check_compatible k other) (\<lambda>_.
       let t0 = rk_tokens k; t1 = rk_tokens other in
       if rk_bigram k
       then let matched = nat (max 0 (min (int (common t0 t1) - 1) (min (int (rk_len k)) (int (rk_len other))))) in
            Inr (if page_size > 1 then matched div page_size * page_size else matched)
       else if page_size = 1 then Inr (common t0 t1)
       else Inr (match_pages t0 t1 page_size (min (rk_len k) (rk_len other)) 0))"

definition child_key :: "radix_key \<Rightarrow> nat \<Rightarrow> ckey result" where
  "child_key k page_size =
     (let t = rk_tokens k in
      if rk_bigram k
      then if length t \<le> page_size then Inl IndexError
           else Inr (rk_extra k, map (\<lambda>j. Bigram (t ! j) (t ! Suc j)) [0..<page_size])
      else if page_size = 1 then if t = [] then Inl IndexError else Inr (rk_extra k, [Tok (t ! 0)])
      else Inr (rk_extra k, map Tok (take page_size t)))"

section \<open>The operations on units\<close>

lemma length_units [simp]: "length (units k) = rk_len k"
  by (simp add: units_def rk_len_def Let_def)

lemma units_nth: "i < rk_len k \<Longrightarrow> units k ! i = (if rk_bigram k then Bigram (rk_tokens k ! i) (rk_tokens k ! Suc i) else Tok (rk_tokens k ! i))"
  by (auto simp: units_def rk_len_def Let_def split: if_splits)

lemma rk_slice_fields [simp]: "rk_extra (rk_slice k i j) = rk_extra k" "rk_bigram (rk_slice k i j) = rk_bigram k"
  by (simp_all add: rk_slice_def Let_def)

lemma tokens_slice:
  assumes "a = min i (rk_len k)" "b = min j (rk_len k)"
  shows "rk_tokens (rk_slice k i j) =
    (if rk_bigram k \<and> b \<le> a then [] else take (b + of_bool (rk_bigram k) - a) (drop a (rk_tokens k)))"
  unfolding rk_slice_def Let_def assms [symmetric] by (cases "b \<le> a") simp_all

lemma length_tokens: "rk_bigram k \<Longrightarrow> 0 < rk_len k \<Longrightarrow> length (rk_tokens k) = Suc (rk_len k)" "\<not> rk_bigram k \<Longrightarrow> length (rk_tokens k) = rk_len k"
  by (auto simp: rk_len_def Let_def split: if_splits)

lemma rk_len_slice [simp]: "rk_len (rk_slice k i j) = min j (rk_len k) - min i (rk_len k)"
proof -
  define a b where ab: "a = min i (rk_len k)" "b = min j (rk_len k)"
  have le: "a \<le> rk_len k" "b \<le> rk_len k" by (simp_all add: ab)
  have "rk_len (rk_slice k i j) = b - a"
  proof (cases "rk_bigram k \<and> a < b")
    case True
    then have "length (rk_tokens k) = Suc (rk_len k)" using length_tokens(1) [of k] le by simp
    then have "length (rk_tokens (rk_slice k i j)) = Suc (b - a)" using True le
      unfolding tokens_slice [OF ab] by (simp add: Suc_diff_le)
    then show ?thesis using True unfolding rk_len_def [of "rk_slice k i j"] by simp
  next
    case False
    then show ?thesis using length_tokens(2) [of k] le unfolding rk_len_def [of "rk_slice k i j"] tokens_slice [OF ab]
      by (cases "rk_bigram k") simp_all
  qed
  then show ?thesis by (simp add: ab)
qed

lemma units_slice: "units (rk_slice k i j) = take (j - i) (drop i (units k))"
proof (rule nth_equalityI)
  show "length (units (rk_slice k i j)) = length (take (j - i) (drop i (units k)))" by simp
  fix n assume "n < length (units (rk_slice k i j))"
  then have n: "n < min j (rk_len k) - min i (rk_len k)" by simp
  then have i: "min i (rk_len k) = i" "i + n < rk_len k" "n < j - i" by linarith+
  define b where b: "b = min j (rk_len k)"
  have lt: "i + n < b" "b \<le> rk_len k" using n i b by linarith+
  note tok = tokens_slice [OF i(1) [symmetric] b]
  have "rk_tokens (rk_slice k i j) ! n = rk_tokens k ! (i + n)"
    using lt length_tokens [of k] unfolding tok by (cases "rk_bigram k") simp_all
  moreover have "rk_tokens (rk_slice k i j) ! Suc n = rk_tokens k ! Suc (i + n)" if "rk_bigram k"
    using lt length_tokens [of k] that unfolding tok by simp
  ultimately show "units (rk_slice k i j) ! n = take (j - i) (drop i (units k)) ! n" using n i
    by (simp add: units_nth)
qed

lemma rk_from_simps [simp]:
  "rk_extra (rk_from k i) = rk_extra k" "rk_bigram (rk_from k i) = rk_bigram k" "units (rk_from k i) = drop i (units k)"
  "rk_len (rk_from k i) = rk_len k - i"
  by (simp_all add: rk_from_def units_slice)

lemma page_aligned_simps [simp]:
  "rk_extra (page_aligned p k) = rk_extra k" "rk_bigram (page_aligned p k) = rk_bigram k"
  "units (page_aligned p k) = take (rk_len k div p * p) (units k)" "rk_len (page_aligned p k) = rk_len k div p * p"
proof -
  have "p = 0 \<or> rk_len k div p * p \<le> rk_len k" by simp
  then show "rk_len (page_aligned p k) = rk_len k div p * p" by (auto simp: page_aligned_def)
qed (auto simp: page_aligned_def units_slice)

lemma child_key_units:
  assumes "0 < p" "p \<le> rk_len k"
  shows "child_key k p = Inr (rk_extra k, take p (units k))"
proof (cases "rk_bigram k")
  case True
  have "map (\<lambda>j. Bigram (rk_tokens k ! j) (rk_tokens k ! Suc j)) [0..<p] = take p (units k)"
    using assms True by (intro nth_equalityI) (auto simp: units_nth)
  then show ?thesis using assms True by (auto simp: child_key_def rk_len_def Let_def split: if_splits)
next
  case False
  then have u: "units k = map Tok (rk_tokens k)" by (simp add: units_def)
  then show ?thesis using assms False
    by (cases "p = 1") (auto simp: child_key_def rk_len_def Let_def take_map take_Suc_conv_app_nth)
qed

section \<open>Matching\<close>

lemma common_le: "common xs ys \<le> length xs" "common xs ys \<le> length ys"
  by (induction xs ys rule: common.induct) auto

lemma common_take: "i \<le> common xs ys \<longleftrightarrow> i \<le> length xs \<and> i \<le> length ys \<and> take i xs = take i ys"
proof (induction xs ys arbitrary: i rule: common.induct)
  case (1 x xs y ys)
  show ?case by (cases i) (auto simp: 1)
qed auto

lemma common_nth: "i < common xs ys \<Longrightarrow> xs ! i = ys ! i"
  using common_take [of "Suc i" xs ys] by (metis Suc_leI lessI nth_take)

lemma common_eqI:
  assumes "\<And>i. i \<le> m \<longleftrightarrow> i \<le> length xs \<and> i \<le> length ys \<and> take i xs = take i ys"
  shows "common xs ys = m"
  using assms common_take [of _ xs ys] by (metis order_antisym order_refl)

lemma common_map_Tok: "common (map Tok xs) (map Tok ys) = common xs ys"
  by (induction xs ys rule: common.induct) auto

lemma common_bigram_list:
  "common (map (\<lambda>i. Bigram (xs ! i) (xs ! Suc i)) [0..<length xs - 1]) (map (\<lambda>i. Bigram (ys ! i) (ys ! Suc i)) [0..<length ys - 1])
    = common xs ys - 1" (is "common ?u ?v = _")
proof (rule common_eqI)
  fix i
  have "take i ?u = take i ?v \<longleftrightarrow> take (Suc i) xs = take (Suc i) ys"
    if len: "i \<le> length xs - 1" "i \<le> length ys - 1" and pos: "0 < i"
  proof
    assume eq: "take i ?u = take i ?v"
    have unit: "xs ! j = ys ! j \<and> xs ! Suc j = ys ! Suc j" if "j < i" for j
      using arg_cong [OF eq, of "\<lambda>l. l ! j"] that len by simp
    have "xs ! j = ys ! j" if "j < Suc i" for j
      using unit [of j] unit [of "j - 1"] that pos by (cases "j < i") (auto simp: less_Suc_eq)
    then show "take (Suc i) xs = take (Suc i) ys" using len pos by (intro nth_equalityI) auto
  next
    assume eq: "take (Suc i) xs = take (Suc i) ys"
    have "xs ! j = ys ! j" if "j < Suc i" for j using arg_cong [OF eq, of "\<lambda>l. l ! j"] that by simp
    then show "take i ?u = take i ?v" using len by (intro nth_equalityI) auto
  qed
  moreover have "i \<le> common xs ys - 1 \<longleftrightarrow> i = 0 \<or> Suc i \<le> length xs \<and> Suc i \<le> length ys \<and> take (Suc i) xs = take (Suc i) ys"
    using common_take [of "Suc i" xs ys] by auto
  ultimately show "i \<le> common xs ys - 1 \<longleftrightarrow> i \<le> length ?u \<and> i \<le> length ?v \<and> take i ?u = take i ?v"
    by (cases "i = 0") auto
qed

lemma common_units_bigram:
  assumes "rk_bigram k" "rk_bigram l"
  shows "common (units k) (units l) = common (rk_tokens k) (rk_tokens l) - 1"
  using assms common_bigram_list by (simp add: units_def Let_def)

lemma match_pages_spec:
  assumes "0 < p" "p dvd i" "p dvd m" "m \<le> length t0" "m \<le> length t1" "take i t0 = take i t1" "i \<le> m" "m = min (length t0) (length t1)"
  shows "match_pages t0 t1 p m i = common t0 t1 div p * p"
  using assms
proof (induction t0 t1 p m i rule: match_pages.induct)
  case (1 t0 t1 p m i)
  have ic: "i \<le> common t0 t1" using "1.prems" common_take [of i t0 t1] by simp
  show ?case
  proof (cases "i < m")
    case False
    then have "i = m" using "1.prems"(7) by linarith
    moreover have "common t0 t1 \<le> m" using common_le [of t0 t1] "1.prems" by simp
    ultimately have "common t0 t1 = m" using ic by simp
    then show ?thesis using False \<open>i = m\<close> "1.prems" by (simp add: match_pages.simps)
  next
    case True
    obtain a where a: "i = p * a" using "1.prems" by blast
    obtain b where b: "m = p * b" using "1.prems" by blast
    have ip: "i + p \<le> m" using True a b "1.prems"(1)
      by (metis Suc_leI add.commute mult_Suc_right mult_le_mono2 nat_mult_less_cancel1)
    have split: "take (i + p) t0 = take (i + p) t1 \<longleftrightarrow> take p (drop i t0) = take p (drop i t1)"
      using "1.prems" by (simp add: take_add)
    show ?thesis
    proof (cases "take p (drop i t0) = take p (drop i t1)")
      case True
      have "match_pages t0 t1 p m (i + p) = common t0 t1 div p * p"
        using "1.IH" "1.prems" \<open>i < m\<close> True split ip by simp
      then show ?thesis using True \<open>i < m\<close> "1.prems" by (subst match_pages.simps) simp
    next
      case False
      then have "\<not> i + p \<le> common t0 t1" using common_take [of "i + p" t0 t1] split by simp
      then have "common t0 t1 div p = a" using ic a "1.prems"(1)
        by (intro div_nat_eqI) (simp_all add: mult.commute)
      then show ?thesis using False \<open>i < m\<close> "1.prems" a by (subst match_pages.simps) (simp add: mult.commute)
    qed
  qed
qed

text \<open>On aligned keys of one namespace and one kind, \<open>match\<close> is the common prefix of the units in whole pages.\<close>

lemma rk_match_units:
  assumes "rk_extra k = rk_extra l" "rk_bigram k = rk_bigram l" "0 < p" "p dvd rk_len k" "p dvd rk_len l"
  shows "rk_match k l p = Inr (common (units k) (units l) div p * p)"
proof (cases "rk_bigram k")
  case True
  have "nat (max 0 (min (int (common (rk_tokens k) (rk_tokens l)) - 1) (min (int (rk_len k)) (int (rk_len l))))) = common (units k) (units l)"
    using common_units_bigram [of k l] True assms(2) common_le [of "units k" "units l"] by simp
  then show ?thesis using True assms by (cases "p = 1") (simp_all add: rk_match_def check_compatible_def Let_def)
next
  case False
  then have u: "units k = map Tok (rk_tokens k)" "units l = map Tok (rk_tokens l)" using assms(2) by (simp_all add: units_def)
  have len: "rk_len k = length (rk_tokens k)" "rk_len l = length (rk_tokens l)" using False assms(2) by (simp_all add: rk_len_def)
  have "p dvd min (rk_len k) (rk_len l)" using assms(4,5) by (simp add: min_def)
  then have "match_pages (rk_tokens k) (rk_tokens l) p (min (rk_len k) (rk_len l)) 0 = common (rk_tokens k) (rk_tokens l) div p * p"
    using assms(3) len by (intro match_pages_spec) simp_all
  then show ?thesis using False assms u by (auto simp: rk_match_def check_compatible_def common_map_Tok Let_def)
qed

text \<open>
  On keys that are not aligned, \<open>match\<close> does not round down: the loop over pages steps over the end when
  the last partial pages agree.
\<close>

lemma match_unaligned_exceeds:
  "rk_match \<lparr> rk_tokens = [1, 2, 3], rk_extra = None, rk_bigram = False \<rparr> \<lparr> rk_tokens = [1, 2, 3], rk_extra = None, rk_bigram = False \<rparr> 2 = Inr 4"
  by (simp add: rk_match_def check_compatible_def rk_len_def match_pages.simps)

end
