(* ===== verification/Radix_Tree.thy ===== *)
theory Radix_Tree
  imports Radix_Key Heapq Kv_Pool "HOL-Library.AList"
begin

text \<open>
  The prefix cache (\<open>RadixCache\<close> of \<open>sglang/srt/mem_cache/radix_cache.py\<close>): a radix tree of token sequences with the
  KV cache slots of every segment, reference counts that protect the prefixes of running requests, and eviction.

  \<^item> The tree is a heap of \<open>tree_node\<close> objects that point to each other: \<open>rc_nodes\<close> maps the identity of a node to its
    fields, and \<open>rc_next\<close> is the class variable \<open>TreeNode.counter\<close>. A node that was deleted keeps its fields, as an object that a
    caller may still hold does.
  \<^item> \<open>children\<close> is a Python dict: an association list in insertion order (\<open>AList.update\<close>, \<open>AList.delete\<close>).
  \<^item> \<open>time.monotonic()\<close> reads \<open>rc_clock\<close> at the number of earlier readings; any clock with integer
    readings is allowed, and the order of the readings is all that matters.
  \<^item> The set \<open>evictable_leaves\<close> is a list without duplicates; its order stands for the order in which Python iterates over the
    set, and every theorem holds for every order.
  \<^item> A loop is a \<open>partial_function\<close>: \<open>None\<close> means that it does not end, \<open>Inl\<close> that it raises.
  \<^item> In \<open>RadixCache\<close> a node has a value from its construction on, so \<open>evicted\<close> is always false here; the host copies, the
    hash values and the events of the hierarchical cache, the metrics and the printing functions are not modelled, nor are
    the two functions that cache a whole request (\<open>cache_finished_req\<close>, \<open>cache_unfinished_req\<close>), which work on the scheduler's requests.
\<close>

section \<open>State\<close>

record tree_node =
  tn_children :: "(ckey \<times> nat) list"
  tn_parent :: "nat option"
  tn_key :: radix_key
  tn_value :: "nat list"
  tn_lock_ref :: int
  tn_last_access_time :: int
  tn_creation_time :: int
  tn_hit_count :: nat
  tn_priority :: int

datatype eviction_strategy = LRU | LFU | FIFO | MRU | FILO | Priority | SLRU nat

record radix_cache =
  rc_disable :: bool
  rc_page_size :: nat
  rc_is_eagle :: bool
  rc_disable_finished_insert :: bool
  rc_strategy :: eviction_strategy
  rc_nodes :: "nat \<Rightarrow> tree_node"
  rc_next :: nat
  rc_root :: nat
  rc_evictable_size :: int
  rc_protected_size :: int
  rc_evictable_leaves :: "nat list"
  rc_clock :: "nat \<Rightarrow> int"
  rc_ticks :: nat
  rc_pool :: kv_pool

abbreviation nd :: "radix_cache \<Rightarrow> nat \<Rightarrow> tree_node" where
  "nd s n \<equiv> rc_nodes s n"

definition upd_node :: "nat \<Rightarrow> (tree_node \<Rightarrow> tree_node) \<Rightarrow> radix_cache \<Rightarrow> radix_cache" where
  "upd_node n f s = s\<lparr> rc_nodes := (rc_nodes s)(n := f (rc_nodes s n)) \<rparr>"

definition monotonic :: "radix_cache \<Rightarrow> int \<times> radix_cache" where
  "monotonic s = (rc_clock s (rc_ticks s), s\<lparr> rc_ticks := Suc (rc_ticks s) \<rparr>)"

definition empty_key :: radix_key where
  "empty_key = \<lparr> rk_tokens = [], rk_extra = None, rk_bigram = False \<rparr>"

text \<open>\<open>TreeNode(priority=\<dots>)\<close>.\<close>

definition new_tree_node :: "int \<Rightarrow> radix_cache \<Rightarrow> nat \<times> radix_cache" where
  "new_tree_node priority s =
     (let (last_access_time, s) = monotonic s; (creation_time, s) = monotonic s; i = rc_next s
      in (i, s\<lparr> rc_nodes := (rc_nodes s)(i := \<lparr> tn_children = [], tn_parent = None, tn_key = empty_key, tn_value = [], tn_lock_ref = 0,
                tn_last_access_time = last_access_time, tn_creation_time = creation_time, tn_hit_count = 0, tn_priority = priority \<rparr>),
             rc_next := Suc i \<rparr>))"

definition find_strategy :: "string \<Rightarrow> eviction_strategy result" where
  "find_strategy policy =
     (case map_of [(''lru'', LRU), (''lfu'', LFU), (''fifo'', FIFO), (''mru'', MRU), (''filo'', FILO), (''priority'', Priority), (''slru'', SLRU 2)] policy of
        None \<Rightarrow> Inl (ValueError ''Unknown eviction policy'') | Some st \<Rightarrow> Inr st)"

definition maxsize :: int where
  "maxsize = 2 ^ 63 - 1"

definition reset :: "radix_cache \<Rightarrow> radix_cache" where
  "reset s =
     (let (r, s) = new_tree_node (- maxsize) s; s = upd_node r (\<lambda>n. n\<lparr> tn_key := empty_key, tn_value := [], tn_lock_ref := 1 \<rparr>) s
      in s\<lparr> rc_root := r, rc_evictable_size := 0, rc_protected_size := 0, rc_evictable_leaves := [] \<rparr>)"

section \<open>Leaves, splitting, lookup\<close>

definition add_leaf :: "nat \<Rightarrow> radix_cache \<Rightarrow> radix_cache" where
  "add_leaf n s = (if n \<in> set (rc_evictable_leaves s) then s else s\<lparr> rc_evictable_leaves := rc_evictable_leaves s @ [n] \<rparr>)"

definition remove_leaf :: "nat \<Rightarrow> radix_cache \<Rightarrow> radix_cache" where
  "remove_leaf n s = s\<lparr> rc_evictable_leaves := filter (\<lambda>m. m \<noteq> n) (rc_evictable_leaves s) \<rparr>"

definition update_leaf_status :: "nat \<Rightarrow> radix_cache \<Rightarrow> radix_cache" where
  "update_leaf_status n s =
     (if tn_lock_ref (nd s n) > 0 then remove_leaf n s
      else if tn_children (nd s n) \<noteq> [] then remove_leaf n s else add_leaf n s)"

definition split_node :: "radix_key \<Rightarrow> nat \<Rightarrow> nat \<Rightarrow> radix_cache \<Rightarrow> (nat \<times> radix_cache) result" where
  "split_node key child split_len s =
     (let c = nd s child; page_size = rc_page_size s; (new, s) = new_tree_node (tn_priority c) s in
      rbind (child_key (rk_from key split_len) page_size) (\<lambda>rest_key.
      let s = upd_node new (\<lambda>n. n\<lparr> tn_hit_count := tn_hit_count c, tn_children := [(rest_key, child)], tn_parent := tn_parent c,
                tn_lock_ref := tn_lock_ref c, tn_key := rk_slice (tn_key c) 0 split_len, tn_value := take split_len (tn_value c) \<rparr>) s;
          s = upd_node child (\<lambda>n. n\<lparr> tn_parent := Some new, tn_key := rk_from (tn_key c) split_len, tn_value := drop split_len (tn_value c) \<rparr>) s
      in case tn_parent c of None \<Rightarrow> Inl (RuntimeError ''AttributeError'')
         | Some p \<Rightarrow> rbind (child_key key page_size) (\<lambda>first_key.
             Inr (new, upd_node p (\<lambda>n. n\<lparr> tn_children := AList.update first_key new (tn_children n) \<rparr>) s))))"

definition touch :: "int \<Rightarrow> nat \<Rightarrow> radix_cache \<Rightarrow> radix_cache" where
  "touch now n = upd_node n (\<lambda>m. m\<lparr> tn_last_access_time := now \<rparr>)"

partial_function (option) match_loop ::
  "radix_cache \<Rightarrow> nat \<Rightarrow> radix_key \<Rightarrow> ckey \<Rightarrow> int \<Rightarrow> nat list list \<Rightarrow> (nat list list \<times> nat \<times> radix_cache) result option" where
  "match_loop s node key ck now val =
     (if rk_len key = 0 then Some (Inr (val, node, s))
      else case map_of (tn_children (nd s node)) ck of None \<Rightarrow> Some (Inr (val, node, s))
      | Some child \<Rightarrow>
        let s = touch now child s in
        case rk_match (tn_key (nd s child)) key (rc_page_size s) of Inl e \<Rightarrow> Some (Inl e)
        | Inr prefix_len \<Rightarrow>
          if prefix_len < rk_len (tn_key (nd s child))
          then Some (rbind (split_node (tn_key (nd s child)) child prefix_len s) (\<lambda>(new, s). Inr (val @ [tn_value (nd s new)], new, s)))
          else let val = val @ [tn_value (nd s child)]; key = rk_from key prefix_len in
               if rk_len key = 0 then Some (Inr (val, child, s))
               else case child_key key (rc_page_size s) of Inl e \<Rightarrow> Some (Inl e) | Inr ck \<Rightarrow> match_loop s child key ck now val)"

definition match_prefix_helper :: "radix_cache \<Rightarrow> nat \<Rightarrow> radix_key \<Rightarrow> (nat list list \<times> nat \<times> radix_cache) result option" where
  "match_prefix_helper s node key =
     (let (now, s) = monotonic s; s = touch now node s in
      case child_key key (rc_page_size s) of Inl e \<Rightarrow> Some (Inl e) | Inr ck \<Rightarrow> match_loop s node key ck now [])"

text \<open>The result: the slots of the longest cached prefix and its node.\<close>

definition match_prefix :: "radix_cache \<Rightarrow> radix_key \<Rightarrow> (nat list \<times> nat \<times> radix_cache) result option" where
  "match_prefix s key =
     (let key = fst (maybe_to_bigram_view (rc_is_eagle s) key None) in
      if rc_disable s \<or> rk_len key = 0 then Some (Inr ([], rc_root s, s))
      else let key = page_aligned (rc_page_size s) key in
        if rk_len key = 0 then Some (Inr ([], rc_root s, s))
        else map_option (\<lambda>r. rbind r (\<lambda>(val, last_node, s). Inr (concat val, last_node, s))) (match_prefix_helper s (rc_root s) key))"

section \<open>Insertion\<close>

definition inc_hit_count :: "bool \<Rightarrow> nat \<Rightarrow> radix_cache \<Rightarrow> radix_cache" where
  "inc_hit_count chunked n s = (if chunked then s else upd_node n (\<lambda>m. m\<lparr> tn_hit_count := Suc (tn_hit_count m) \<rparr>) s)"

definition raise_priority :: "int \<Rightarrow> nat \<Rightarrow> radix_cache \<Rightarrow> radix_cache" where
  "raise_priority priority n = upd_node n (\<lambda>m. m\<lparr> tn_priority := max (tn_priority m) priority \<rparr>)"

partial_function (option) insert_loop ::
  "radix_cache \<Rightarrow> nat \<Rightarrow> radix_key \<Rightarrow> nat list \<Rightarrow> ckey \<Rightarrow> int \<Rightarrow> int \<Rightarrow> bool \<Rightarrow> nat \<Rightarrow>
   (nat \<times> radix_key \<times> nat list \<times> ckey \<times> nat \<times> radix_cache) result option" where
  "insert_loop s node key val ck now priority chunked total_len =
     (if rk_len key = 0 then Some (Inr (node, key, val, ck, total_len, s))
      else case map_of (tn_children (nd s node)) ck of None \<Rightarrow> Some (Inr (node, key, val, ck, total_len, s))
      | Some child \<Rightarrow>
        let s = touch now child s in
        case rk_match (tn_key (nd s child)) key (rc_page_size s) of Inl e \<Rightarrow> Some (Inl e)
        | Inr prefix_len \<Rightarrow>
          let total_len = total_len + prefix_len; key = rk_from key prefix_len; val = drop prefix_len val in
          case (if prefix_len < rk_len (tn_key (nd s child))
                then rbind (split_node (tn_key (nd s child)) child prefix_len s) (\<lambda>(new, s). Inr (new, inc_hit_count chunked new (raise_priority priority new s)))
                else Inr (child, inc_hit_count chunked child (raise_priority priority child s))) of Inl e \<Rightarrow> Some (Inl e)
          | Inr (node, s) \<Rightarrow>
            case (if rk_len key \<noteq> 0 then child_key key (rc_page_size s) else Inr ck) of Inl e \<Rightarrow> Some (Inl e)
            | Inr ck \<Rightarrow> insert_loop s node key val ck now priority chunked total_len)"

definition insert_leaf :: "radix_cache \<Rightarrow> nat \<Rightarrow> radix_key \<Rightarrow> nat list \<Rightarrow> ckey \<Rightarrow> int \<Rightarrow> bool \<Rightarrow> radix_cache" where
  "insert_leaf s node key val ck priority chunked =
     (let (new, s) = new_tree_node priority s;
          s = upd_node new (\<lambda>n. n\<lparr> tn_parent := Some node, tn_key := key, tn_value := val \<rparr>) s;
          s = inc_hit_count chunked new s;
          s = upd_node node (\<lambda>n. n\<lparr> tn_children := AList.update ck new (tn_children n) \<rparr>) s;
          s = s\<lparr> rc_evictable_size := rc_evictable_size s + int (rk_len key) \<rparr>
      in update_leaf_status new (update_leaf_status node s))"

definition insert_helper :: "radix_cache \<Rightarrow> nat \<Rightarrow> radix_key \<Rightarrow> nat list \<Rightarrow> int option \<Rightarrow> bool \<Rightarrow> (nat \<times> radix_cache) result option" where
  "insert_helper s node key val priority chunked =
     (let priority = (case priority of None \<Rightarrow> 0 | Some p \<Rightarrow> p);
          (now, s) = monotonic s;
          s = raise_priority priority node (touch now node s)
      in if rk_len key = 0 then Some (Inr (0, s))
         else case child_key key (rc_page_size s) of Inl e \<Rightarrow> Some (Inl e)
         | Inr ck \<Rightarrow> map_option (\<lambda>r. rbind r (\<lambda>(node, key, val, ck, total_len, s).
             Inr (total_len, if rk_len key \<noteq> 0 then insert_leaf s node key val ck priority chunked else s)))
             (insert_loop s node key val ck now priority chunked 0))"

definition insert_prefix :: "radix_cache \<Rightarrow> radix_key \<Rightarrow> nat list option \<Rightarrow> int option \<Rightarrow> bool \<Rightarrow> (nat \<times> radix_cache) result option" where
  "insert_prefix s key val priority chunked =
     (if rc_disable s then Some (Inr (0, s))
      else let (key, val) = maybe_to_bigram_view (rc_is_eagle s) key val;
               key = page_aligned (rc_page_size s) key;
               val = (case val of Some v \<Rightarrow> take (rk_len key) v | None \<Rightarrow> map nat (take (rk_len key) (rk_tokens key)))
           in insert_helper s (rc_root s) key val priority chunked)"

section \<open>Reference counts\<close>

partial_function (option) inc_lock_ref :: "radix_cache \<Rightarrow> nat \<Rightarrow> int \<Rightarrow> (int \<times> radix_cache) result option" where
  "inc_lock_ref s node delta =
     (if node = rc_root s then Some (Inr (delta, s))
      else let n = nd s node; l = int (rk_len (tn_key n));
               (delta, s) = (if tn_lock_ref n = 0
                 then (delta - l, s\<lparr> rc_evictable_size := rc_evictable_size s - l, rc_protected_size := rc_protected_size s + l \<rparr>) else (delta, s));
               s = update_leaf_status node (upd_node node (\<lambda>n. n\<lparr> tn_lock_ref := tn_lock_ref n + 1 \<rparr>) s)
           in case tn_parent n of None \<Rightarrow> Some (Inl (RuntimeError ''AttributeError''))
              | Some p \<Rightarrow> inc_lock_ref s p delta)"

partial_function (option) dec_lock_ref :: "radix_cache \<Rightarrow> nat \<Rightarrow> int \<Rightarrow> (int \<times> radix_cache) result option" where
  "dec_lock_ref s node delta =
     (if node = rc_root s then Some (Inr (delta, s))
      else let n = nd s node; l = int (rk_len (tn_key n));
               (delta, s) = (if tn_lock_ref n = 1
                 then (delta + l, s\<lparr> rc_evictable_size := rc_evictable_size s + l, rc_protected_size := rc_protected_size s - l \<rparr>) else (delta, s));
               s = update_leaf_status node (upd_node node (\<lambda>n. n\<lparr> tn_lock_ref := tn_lock_ref n - 1 \<rparr>) s)
           in case tn_parent n of None \<Rightarrow> Some (Inl (AssertionError ''This request holds the node from another tree''))
              | Some p \<Rightarrow> dec_lock_ref s p delta)"

definition inc_ref :: "radix_cache \<Rightarrow> nat \<Rightarrow> (int \<times> radix_cache) result option" where
  "inc_ref s node = (if rc_disable s then Some (Inr (0, s)) else inc_lock_ref s node 0)"

definition dec_ref :: "radix_cache \<Rightarrow> nat \<Rightarrow> (int \<times> radix_cache) result option" where
  "dec_ref s node = (if rc_disable s then Some (Inr (0, s)) else dec_lock_ref s node 0)"

section \<open>Eviction\<close>

fun get_priority :: "eviction_strategy \<Rightarrow> tree_node \<Rightarrow> int list" where
  "get_priority LRU n = [tn_last_access_time n]"
| "get_priority LFU n = [int (tn_hit_count n), tn_last_access_time n]"
| "get_priority FIFO n = [tn_creation_time n]"
| "get_priority MRU n = [- tn_last_access_time n]"
| "get_priority FILO n = [- tn_creation_time n]"
| "get_priority Priority n = [tn_priority n, tn_last_access_time n]"
| "get_priority (SLRU threshold) n = [if tn_hit_count n \<ge> threshold then 1 else 0, tn_last_access_time n]"

text \<open>The order of the pairs on the heap: priorities as tuples, then \<open>TreeNode.__lt__\<close>.\<close>

fun tuple_lt :: "int list \<Rightarrow> int list \<Rightarrow> bool" where
  "tuple_lt (x # xs) (y # ys) = (x < y \<or> x = y \<and> tuple_lt xs ys)"
| "tuple_lt [] (y # ys) = True"
| "tuple_lt _ [] = False"

definition entry_lt :: "radix_cache \<Rightarrow> int list \<times> nat \<Rightarrow> int list \<times> nat \<Rightarrow> bool" where
  "entry_lt s x y = (if fst x \<noteq> fst y then tuple_lt (fst x) (fst y)
     else tn_last_access_time (nd s (snd x)) < tn_last_access_time (nd s (snd y)))"

definition pool_free :: "nat \<Rightarrow> kv_pool \<Rightarrow> nat list \<Rightarrow> kv_pool" where
  "pool_free page_size pool free_index = (if page_size = 1 then token_free pool free_index else paged_free pool free_index)"

definition cache_free :: "nat list \<Rightarrow> radix_cache \<Rightarrow> radix_cache" where
  "cache_free free_index s = s\<lparr> rc_pool := pool_free (rc_page_size s) (rc_pool s) free_index \<rparr>"

definition delete_leaf :: "nat \<Rightarrow> radix_cache \<Rightarrow> radix_cache result" where
  "delete_leaf node s =
     rbind (child_key (tn_key (nd s node)) (rc_page_size s)) (\<lambda>key.
       case tn_parent (nd s node) of None \<Rightarrow> Inl (RuntimeError ''AttributeError'')
       | Some p \<Rightarrow>
         if map_of (tn_children (nd s p)) key \<noteq> Some node then Inl (AssertionError ''parent does not have child key'')
         else let s = upd_node p (\<lambda>n. n\<lparr> tn_children := AList.delete key (tn_children n) \<rparr>) s;
                  s = s\<lparr> rc_evictable_size := rc_evictable_size s - int (rk_len (tn_key (nd s node))) \<rparr>
              in Inr (update_leaf_status p (remove_leaf node s)))"

partial_function (option) evict_loop ::
  "radix_cache \<Rightarrow> (int list \<times> nat) list \<Rightarrow> nat \<Rightarrow> int \<Rightarrow> (nat \<times> radix_cache) result option" where
  "evict_loop s heap num_evicted num_tokens =
     (if \<not> (int num_evicted < num_tokens \<and> heap \<noteq> []) then Some (Inr (num_evicted, s))
      else case heappop (entry_lt s) heap of Inl e \<Rightarrow> Some (Inl e)
      | Inr ((_, x), heap) \<Rightarrow>
        let val = tn_value (nd s x); num_evicted = num_evicted + length val in
        case delete_leaf x (cache_free val s) of Inl e \<Rightarrow> Some (Inl e)
        | Inr s \<Rightarrow>
          (case tn_parent (nd s x) of None \<Rightarrow> Some (Inl (RuntimeError ''AttributeError''))
           | Some p \<Rightarrow>
             evict_loop s (if tn_children (nd s p) = [] \<and> tn_lock_ref (nd s p) = 0
                           then heappush (entry_lt s) heap (get_priority (rc_strategy s) (nd s p), p) else heap) num_evicted num_tokens))"

definition evict :: "radix_cache \<Rightarrow> int \<Rightarrow> (nat \<times> radix_cache) result option" where
  "evict s num_tokens =
     (if rc_disable s then Some (Inr (0, s))
      else evict_loop s (heapify (entry_lt s) (map (\<lambda>n. (get_priority (rc_strategy s) (nd s n), n)) (rc_evictable_leaves s))) 0 num_tokens)"

end
