(* ===== verification/Radix_Inv.thy ===== *)
theory Radix_Inv
  imports Radix_Tree
begin

text \<open>
  The invariant of the prefix cache.

  \<^item> \<open>tags k\<close>: the units of a key, each with the namespace (the extra key).
  \<^item> \<open>view\<close> is the abstraction of the heap: the live nodes, and for every one the units and the slots on the way from the
    root to its end. \<open>tree_ok s W\<close>: the heap is a radix tree and \<open>W\<close> is its view.
  \<^item> \<open>locks_ok s W f\<close>: the reference counts are \<open>f\<close>, and the sizes and the set of evictable leaves agree with them.
  \<^item> \<open>cache_ok s W H\<close>: the reference count of a node is the number of held nodes (\<open>H\<close>) below it.
\<close>

section \<open>The shape of the tree\<close>

type_synonym tag = "string option \<times> lunit"

record view =
  vw_live :: "nat set"
  vw_path :: "nat \<Rightarrow> tag list"
  vw_slots :: "nat \<Rightarrow> nat list"

definition tags :: "radix_key \<Rightarrow> tag list" where
  "tags k = map (Pair (rk_extra k)) (units k)"

lemma length_tags [simp]: "length (tags k) = rk_len k"
  by (simp add: tags_def)

lemma tags_simps [simp]:
  "tags (rk_from k i) = drop i (tags k)" "tags (rk_slice k 0 i) = take i (tags k)"
  "tags (page_aligned p k) = take (rk_len k div p * p) (tags k)"
  by (simp_all add: tags_def drop_map take_map units_slice)

lemma tags_Nil [simp]: "tags k = [] \<longleftrightarrow> rk_len k = 0"
  by (metis length_0_conv length_tags)

lemma common_tags: "rk_extra k = rk_extra l \<Longrightarrow> common (tags k) (tags l) = common (units k) (units l)"
proof -
  have "common (map (Pair e) xs) (map (Pair e) ys) = common xs ys" for e :: "string option" and xs ys :: "lunit list"
    by (induction xs ys rule: common.induct) auto
  then show "rk_extra k = rk_extra l \<Longrightarrow> ?thesis" by (simp add: tags_def)
qed

definition first_page :: "tag list \<Rightarrow> nat \<Rightarrow> ckey" where
  "first_page ts p = (fst (hd ts), map snd (take p ts))"

lemma child_key_first:
  assumes "0 < p" "p \<le> rk_len k"
  shows "child_key k p = Inr (first_page (tags k) p)"
proof -
  have "units k \<noteq> []" using assms by (metis length_units list.size(3) not_le)
  then have "hd (tags k) = (rk_extra k, hd (units k))" by (simp add: tags_def hd_map)
  then show ?thesis using assms by (simp add: child_key_units first_page_def tags_def take_map comp_def)
qed

lemma first_page_inj:
  assumes "first_page ts p = first_page us p" "0 < p" "p \<le> length ts" "p \<le> length us"
    "\<And>t. t \<in> set ts \<Longrightarrow> fst t = fst (hd ts)" "\<And>t. t \<in> set us \<Longrightarrow> fst t = fst (hd us)"
  shows "take p ts = take p us"
proof (rule nth_equalityI)
  show "length (take p ts) = length (take p us)" using assms by simp
  fix i assume i: "i < length (take p ts)"
  then have "snd (ts ! i) = snd (us ! i)" using assms(1,3,4) arg_cong [of _ _ "\<lambda>l. l ! i"]
    unfolding first_page_def by (metis (no_types, lifting) length_take length_map min.absorb2 nth_map nth_take prod.inject)
  moreover have "fst (ts ! i) = fst (us ! i)" using i assms(1,3,4) assms(5) [of "ts ! i"] assms(6) [of "us ! i"]
    by (simp add: first_page_def)
  ultimately show "take p ts ! i = take p us ! i" using i by (simp add: prod_eq_iff)
qed

lemma first_page_take: "0 < p \<Longrightarrow> p \<le> i \<Longrightarrow> first_page (take i ts) p = first_page ts p"
  by (cases "ts = []") (simp_all add: first_page_def hd_take min_absorb1)

lemma first_page_eq: "0 < p \<Longrightarrow> take p ts = take p us \<Longrightarrow> first_page ts p = first_page us p"
  by (cases ts; cases us; cases p) (auto simp: first_page_def)

lemma tags_fst: "t \<in> set (tags k) \<Longrightarrow> fst t = rk_extra k"
  by (auto simp: tags_def)

lemma tags_hd: "0 < rk_len k \<Longrightarrow> fst (hd (tags k)) = rk_extra k"
  by (metis hd_in_set length_greater_0_conv length_tags tags_fst)

text \<open>The segment of a node that hangs below \<open>q\<close>.\<close>

definition linked :: "radix_cache \<Rightarrow> view \<Rightarrow> nat \<Rightarrow> nat \<Rightarrow> bool" where
  "linked s W q n \<longleftrightarrow> tn_parent (nd s n) = Some q \<and>
     map_of (tn_children (nd s q)) (first_page (tags (tn_key (nd s n))) (rc_page_size s)) = Some n \<and>
     vw_path W n = vw_path W q @ tags (tn_key (nd s n)) \<and> vw_slots W n = vw_slots W q @ tn_value (nd s n) \<and>
     0 < rk_len (tn_key (nd s n)) \<and> rc_page_size s dvd rk_len (tn_key (nd s n)) \<and>
     length (tn_value (nd s n)) = rk_len (tn_key (nd s n)) \<and> rk_bigram (tn_key (nd s n)) = rc_is_eagle s \<and>
     (\<forall>t\<in>set (vw_path W q). fst t = rk_extra (tn_key (nd s n)))"

definition tree_ok :: "radix_cache \<Rightarrow> view \<Rightarrow> bool" where
  "tree_ok s W \<longleftrightarrow> 0 < rc_page_size s \<and> rc_root s \<in> vw_live W \<and> vw_path W (rc_root s) = [] \<and> vw_slots W (rc_root s) = [] \<and>
     vw_live W \<subseteq> {..<rc_next s} \<and>
     (\<forall>q\<in>vw_live W. \<forall>ck c. map_of (tn_children (nd s q)) ck = Some c \<longrightarrow>
        c \<in> vw_live W \<and> c \<noteq> rc_root s \<and> tn_parent (nd s c) = Some q \<and> ck = first_page (tags (tn_key (nd s c))) (rc_page_size s)) \<and>
     (\<forall>n\<in>vw_live W. n \<noteq> rc_root s \<longrightarrow> (\<exists>q\<in>vw_live W. linked s W q n))"

lemma tree_ok_root: "tree_ok s W \<Longrightarrow> 0 < rc_page_size s" "tree_ok s W \<Longrightarrow> rc_root s \<in> vw_live W"
  "tree_ok s W \<Longrightarrow> vw_path W (rc_root s) = []" "tree_ok s W \<Longrightarrow> vw_slots W (rc_root s) = []"
  "tree_ok s W \<Longrightarrow> n \<in> vw_live W \<Longrightarrow> n < rc_next s" "tree_ok s W \<Longrightarrow> finite (vw_live W)"
  by (auto simp: tree_ok_def intro: finite_subset)

lemma tree_ok_parent:
  assumes "tree_ok s W" "n \<in> vw_live W" "n \<noteq> rc_root s"
  obtains q where "q \<in> vw_live W" "linked s W q n"
  using assms unfolding tree_ok_def by blast

lemma tree_ok_child:
  assumes "tree_ok s W" "q \<in> vw_live W" "map_of (tn_children (nd s q)) ck = Some c"
  shows "c \<in> vw_live W" "c \<noteq> rc_root s" "linked s W q c" "ck = first_page (tags (tn_key (nd s c))) (rc_page_size s)"
proof -
  show c: "c \<in> vw_live W" "c \<noteq> rc_root s" and "ck = first_page (tags (tn_key (nd s c))) (rc_page_size s)"
    using assms unfolding tree_ok_def by blast+
  obtain r where r: "linked s W r c" using tree_ok_parent [OF assms(1) c] by blast
  have "tn_parent (nd s c) = Some q" using assms unfolding tree_ok_def by blast
  then show "linked s W q c" using r by (simp add: linked_def)
qed

lemma linkedD:
  assumes "linked s W q n"
  shows "tn_parent (nd s n) = Some q" "vw_path W n = vw_path W q @ tags (tn_key (nd s n))"
    "vw_slots W n = vw_slots W q @ tn_value (nd s n)" "0 < rk_len (tn_key (nd s n))" "rc_page_size s dvd rk_len (tn_key (nd s n))"
    "length (tn_value (nd s n)) = rk_len (tn_key (nd s n))" "rk_bigram (tn_key (nd s n)) = rc_is_eagle s"
    "map_of (tn_children (nd s q)) (first_page (tags (tn_key (nd s n))) (rc_page_size s)) = Some n"
    "t \<in> set (vw_path W q) \<Longrightarrow> fst t = rk_extra (tn_key (nd s n))"
  using assms by (simp_all add: linked_def)

lemma linked_page: "linked s W q n \<Longrightarrow> rc_page_size s \<le> rk_len (tn_key (nd s n))"
  unfolding linked_def by (meson dvd_imp_le)

lemma linked_longer: "linked s W q n \<Longrightarrow> length (vw_path W q) < length (vw_path W n)"
  by (simp add: linked_def)

lemma linked_prefix: "linked s W q n \<Longrightarrow> strict_prefix (vw_path W q) (vw_path W n)"
  by (auto simp: linked_def strict_prefix_def)

lemma path_Nil:
  assumes "tree_ok s W" "n \<in> vw_live W"
  shows "vw_path W n = [] \<longleftrightarrow> n = rc_root s"
  using tree_ok_parent [OF assms] linked_longer tree_ok_root(3) [OF assms(1)] by (metis list.size(3) not_less_zero)

lemma path_space: "linked s W q n \<Longrightarrow> t \<in> set (vw_path W n) \<Longrightarrow> fst t = rk_extra (tn_key (nd s n))"
  by (auto simp: linkedD(2) linkedD(9) tags_fst)

lemma path_aligned:
  assumes "tree_ok s W" "n \<in> vw_live W"
  shows "rc_page_size s dvd length (vw_path W n) \<and> length (vw_slots W n) = length (vw_path W n)"
  using assms(2)
proof (induction "length (vw_path W n)" arbitrary: n rule: less_induct)
  case less
  show ?case
  proof (cases "n = rc_root s")
    case True
    then show ?thesis using tree_ok_root [OF assms(1)] by simp
  next
    case False
    obtain q where q: "q \<in> vw_live W" "linked s W q n" using tree_ok_parent [OF assms(1) less.prems False] .
    then show ?thesis using less.hyps [OF linked_longer [OF q(2)] q(1)] linkedD(5,6) [OF q(2)]
      by (simp add: linkedD(2,3) [OF q(2)])
  qed
qed

lemma same_child:
  assumes ok: "tree_ok s W" and c: "linked s W q c" and d: "linked s W q d"
    and l: "prefix (vw_path W c) l" "prefix (vw_path W d) l"
  shows "c = d"
proof -
  let ?p = "rc_page_size s" let ?k = "drop (length (vw_path W q)) l"
  have page: "take ?p (tags (tn_key (nd s n))) = take ?p ?k" if n: "linked s W q n" "prefix (vw_path W n) l" for n
  proof -
    obtain zs where "l = vw_path W q @ tags (tn_key (nd s n)) @ zs" using n linkedD(2) unfolding prefix_def by fastforce
    then show ?thesis using linked_page [OF n(1)] by simp
  qed
  have "first_page (tags (tn_key (nd s c))) ?p = first_page (tags (tn_key (nd s d))) ?p"
    using page [OF c l(1)] page [OF d l(2)] by (intro first_page_eq tree_ok_root(1) [OF ok]) (simp only:)
  then show ?thesis using linkedD(8) [OF c] linkedD(8) [OF d] by (metis option.inject)
qed

lemma same_page:
  assumes "linked s W q c" "linked s W q d" "0 < rc_page_size s"
    "take (rc_page_size s) (tags (tn_key (nd s c))) = take (rc_page_size s) (tags (tn_key (nd s d)))"
  shows "c = d"
  using linkedD(8) [OF assms(1)] linkedD(8) [OF assms(2)] first_page_eq [OF assms(3,4)] by (metis option.inject)

text \<open>The nodes are determined by their paths, and a node with a longer path is below a child.\<close>

lemma path_step:
  assumes ok: "tree_ok s W" and n: "n \<in> vw_live W" and m: "m \<in> vw_live W" and le: "prefix (vw_path W n) (vw_path W m)"
  shows "n = m \<or> (\<exists>c\<in>vw_live W. linked s W n c \<and> prefix (vw_path W c) (vw_path W m))"
  using n m le
proof (induction "length (vw_path W m)" arbitrary: n m rule: less_induct)
  case less
  note step = less.hyps [OF _ _ _ _]
  show ?case
  proof (cases "m = rc_root s")
    case True
    then show ?thesis using less.prems path_Nil [OF ok] tree_ok_root(3) [OF ok] by simp
  next
    case False
    obtain q where q: "q \<in> vw_live W" "linked s W q m" using tree_ok_parent [OF ok less.prems(2) False] .
    note qm = linked_longer [OF q(2)] linked_prefix [OF q(2)]
    consider "prefix (vw_path W n) (vw_path W q)" | "strict_prefix (vw_path W q) (vw_path W n)"
      using qm(2) less.prems(3) by (metis prefix_order.le_less prefix_same_cases)
    then show ?thesis
    proof cases
      case 1
      then show ?thesis using less.hyps [OF qm(1) less.prems(1) q(1) 1] q less.prems(2) qm(2)
        by (meson prefix_order.less_imp_le prefix_order.trans prefix_order.order_refl)
    next
      case 2
      have nr: "n \<noteq> rc_root s" using 2 tree_ok_root(3) [OF ok] by auto
      obtain r where r: "r \<in> vw_live W" "linked s W r n" using tree_ok_parent [OF ok less.prems(1) nr] .
      note rn = linked_longer [OF r(2)] linked_prefix [OF r(2)]
      have lens: "length (vw_path W r) < length (vw_path W m)" using rn(1) less.prems(3) by (meson leD le_less_trans not_le prefix_length_le)
      consider "prefix (vw_path W r) (vw_path W q)" | "prefix (vw_path W q) (vw_path W r)"
        using rn(2) 2 by (metis prefix_order.less_imp_le prefix_same_cases)
      then show ?thesis
      proof cases
        case 1
        from less.hyps [OF qm(1) r(1) q(1) 1] consider "r = q" | c where "c \<in> vw_live W" "linked s W r c" "prefix (vw_path W c) (vw_path W q)" by blast
        then show ?thesis
        proof cases
          case 1
          then show ?thesis using same_child [OF ok _ q(2), of n "vw_path W m"] r less.prems(3) by auto
        next
          case c: 2
          have "c = n" using same_child [OF ok c(2) r(2), of "vw_path W n"] c(3) 2 by auto
          then show ?thesis using c(3) 2 by auto
        qed
      next
        case 2
        from less.hyps [OF lens q(1) r(1) 2] consider "q = r" | c where "c \<in> vw_live W" "linked s W q c" "prefix (vw_path W c) (vw_path W r)" by blast
        then show ?thesis
        proof cases
          case 1
          then show ?thesis using same_child [OF ok _ q(2), of n "vw_path W m"] r less.prems(3) by auto
        next
          case c: 2
          have cm: "prefix (vw_path W c) (vw_path W m)" using c(3) rn(2) less.prems(3) by (meson prefix_order.less_imp_le prefix_order.trans)
          have "c = m" using same_child [OF ok c(2) q(2) cm] by simp
          then show ?thesis using c(3) rn(1) less.prems(3) by (meson leD le_less_trans prefix_length_le)
        qed
      qed
    qed
  qed
qed

lemma child_below:
  assumes ok: "tree_ok s W" and live: "q \<in> vw_live W" "h \<in> vw_live W"
    and le: "prefix (vw_path W q @ us) (vw_path W h)" and us: "rc_page_size s \<le> length us"
  obtains d where "d \<in> vw_live W" "linked s W q d" "prefix (vw_path W d) (vw_path W h)"
    "take (rc_page_size s) (tags (tn_key (nd s d))) = take (rc_page_size s) us"
proof -
  have "prefix (vw_path W q) (vw_path W h)" "q \<noteq> h" using le us tree_ok_root(1) [OF ok] by (auto dest: append_prefixD prefix_length_le)
  then obtain d where d: "d \<in> vw_live W" "linked s W q d" "prefix (vw_path W d) (vw_path W h)"
    using path_step [OF ok live] by blast
  obtain zs ys where "vw_path W h = vw_path W q @ us @ zs" "vw_path W h = vw_path W q @ tags (tn_key (nd s d)) @ ys"
    using le d(3) linkedD(2) [OF d(2)] unfolding prefix_def by auto
  then have "us @ zs = tags (tn_key (nd s d)) @ ys" by simp
  then have "take (rc_page_size s) (us @ zs) = take (rc_page_size s) (tags (tn_key (nd s d)) @ ys)" by simp
  then show thesis using d us linked_page [OF d(2)] that by simp
qed

lemma path_inj:
  assumes "tree_ok s W" "n \<in> vw_live W" "m \<in> vw_live W" "vw_path W n = vw_path W m"
  shows "n = m"
  using path_step [OF assms(1-3)] assms(4) linked_longer by (metis leD prefix_length_le prefix_order.order_refl)

section \<open>Reference counts\<close>

definition seg_len :: "radix_cache \<Rightarrow> nat \<Rightarrow> nat" where
  "seg_len s n = rk_len (tn_key (nd s n))"

definition locks_ok :: "radix_cache \<Rightarrow> view \<Rightarrow> (nat \<Rightarrow> nat) \<Rightarrow> bool" where
  "locks_ok s W f \<longleftrightarrow> (\<forall>n\<in>vw_live W. n \<noteq> rc_root s \<longrightarrow> tn_lock_ref (nd s n) = int (f n)) \<and> 0 < tn_lock_ref (nd s (rc_root s)) \<and>
     rc_evictable_size s = int (\<Sum>n | n \<in> vw_live W - {rc_root s} \<and> f n = 0. seg_len s n) \<and>
     rc_protected_size s = int (\<Sum>n | n \<in> vw_live W - {rc_root s} \<and> 0 < f n. seg_len s n) \<and>
     distinct (rc_evictable_leaves s) \<and>
     set (rc_evictable_leaves s) = {n \<in> vw_live W - {rc_root s}. f n = 0 \<and> tn_children (nd s n) = []}"

definition held :: "view \<Rightarrow> nat multiset \<Rightarrow> nat \<Rightarrow> nat" where
  "held W H n = size (filter_mset (\<lambda>h. prefix (vw_path W n) (vw_path W h)) H)"

definition cache_ok :: "radix_cache \<Rightarrow> view \<Rightarrow> nat multiset \<Rightarrow> bool" where
  "cache_ok s W H \<longleftrightarrow> tree_ok s W \<and> set_mset H \<subseteq> vw_live W \<and> locks_ok s W (held W H)"

section \<open>Updates of metadata\<close>

definition node_core :: "tree_node \<Rightarrow> (ckey \<times> nat) list \<times> nat option \<times> radix_key \<times> nat list \<times> int" where
  "node_core n = (tn_children n, tn_parent n, tn_key n, tn_value n, tn_lock_ref n)"

definition cache_config :: "radix_cache \<Rightarrow> bool \<times> nat \<times> bool \<times> bool \<times> eviction_strategy \<times> nat" where
  "cache_config s = (rc_disable s, rc_page_size s, rc_is_eagle s, rc_disable_finished_insert s, rc_strategy s, rc_root s)"

lemma cache_config_upd [simp]:
  "cache_config (s\<lparr> rc_nodes := f \<rparr>) = cache_config s" "cache_config (s\<lparr> rc_evictable_size := i \<rparr>) = cache_config s"
  "cache_config (s\<lparr> rc_protected_size := i \<rparr>) = cache_config s" "cache_config (s\<lparr> rc_pool := p \<rparr>) = cache_config s"
  "cache_config (s\<lparr> rc_evictable_leaves := l \<rparr>) = cache_config s"
  by (simp_all add: cache_config_def)

definition meta_eq :: "radix_cache \<Rightarrow> radix_cache \<Rightarrow> bool" where
  "meta_eq s s' \<longleftrightarrow> (\<forall>n. node_core (nd s' n) = node_core (nd s n)) \<and> cache_config s' = cache_config s \<and> rc_next s' = rc_next s \<and>
     rc_evictable_size s' = rc_evictable_size s \<and> rc_protected_size s' = rc_protected_size s \<and>
     rc_evictable_leaves s' = rc_evictable_leaves s \<and> rc_pool s' = rc_pool s"

lemma meta_eq_refl [simp]: "meta_eq s s"
  by (simp add: meta_eq_def)

lemma meta_eq_trans: "meta_eq s s' \<Longrightarrow> meta_eq s' s'' \<Longrightarrow> meta_eq s s''"
  by (simp add: meta_eq_def)

lemma meta_eqD:
  assumes "meta_eq s s'"
  shows "tn_children (nd s' n) = tn_children (nd s n)" "tn_parent (nd s' n) = tn_parent (nd s n)"
    "tn_key (nd s' n) = tn_key (nd s n)" "tn_value (nd s' n) = tn_value (nd s n)" "tn_lock_ref (nd s' n) = tn_lock_ref (nd s n)"
    "rc_page_size s' = rc_page_size s" "rc_is_eagle s' = rc_is_eagle s" "rc_root s' = rc_root s" "rc_next s' = rc_next s"
    "rc_evictable_size s' = rc_evictable_size s" "rc_protected_size s' = rc_protected_size s"
    "rc_evictable_leaves s' = rc_evictable_leaves s" "rc_pool s' = rc_pool s" "rc_disable s' = rc_disable s"
  using assms by (simp_all add: meta_eq_def node_core_def cache_config_def)

lemma meta_ops [simp]:
  "meta_eq s (touch now n s)" "meta_eq s (raise_priority pr n s)" "meta_eq s (inc_hit_count chunked n s)" "meta_eq s (snd (monotonic s))"
  by (simp_all add: meta_eq_def node_core_def cache_config_def touch_def raise_priority_def inc_hit_count_def monotonic_def upd_node_def)

lemma meta_linked: "meta_eq s s' \<Longrightarrow> linked s' W q n = linked s W q n"
  by (simp add: linked_def meta_eqD)

lemma meta_tree_ok: "meta_eq s s' \<Longrightarrow> tree_ok s' W = tree_ok s W"
  by (simp add: tree_ok_def meta_linked meta_eqD)

lemma meta_locks_ok: "meta_eq s s' \<Longrightarrow> locks_ok s' W f = locks_ok s W f"
  by (simp add: locks_ok_def seg_len_def meta_eqD)

lemma meta_cache_ok: "meta_eq s s' \<Longrightarrow> cache_ok s' W H = cache_ok s W H"
  by (simp add: cache_ok_def meta_tree_ok meta_locks_ok)

section \<open>Splitting a node\<close>

definition extend_view :: "nat \<Rightarrow> tag list \<Rightarrow> nat list \<Rightarrow> view \<Rightarrow> view" where
  "extend_view n us vs W = W\<lparr> vw_live := insert n (vw_live W), vw_path := (vw_path W)(n := us), vw_slots := (vw_slots W)(n := vs) \<rparr>"

lemma extend_view_simps [simp]:
  "vw_live (extend_view n us vs W) = insert n (vw_live W)"
  "vw_path (extend_view n us vs W) m = (if m = n then us else vw_path W m)"
  "vw_slots (extend_view n us vs W) m = (if m = n then vs else vw_slots W m)"
  by (simp_all add: extend_view_def)

definition split_at :: "radix_cache \<Rightarrow> nat \<Rightarrow> nat \<Rightarrow> nat \<Rightarrow> radix_cache \<Rightarrow> bool" where
  "split_at s q c L s' \<longleftrightarrow> cache_config s' = cache_config s \<and> rc_next s' = Suc (rc_next s) \<and> rc_pool s' = rc_pool s \<and>
    rc_evictable_size s' = rc_evictable_size s \<and> rc_protected_size s' = rc_protected_size s \<and> rc_evictable_leaves s' = rc_evictable_leaves s \<and>
    node_core (nd s' (rc_next s)) = ([(first_page (drop L (tags (tn_key (nd s c)))) (rc_page_size s), c)], Some q,
       rk_slice (tn_key (nd s c)) 0 L, take L (tn_value (nd s c)), tn_lock_ref (nd s c)) \<and>
    node_core (nd s' c) = (tn_children (nd s c), Some (rc_next s), rk_from (tn_key (nd s c)) L, drop L (tn_value (nd s c)), tn_lock_ref (nd s c)) \<and>
    node_core (nd s' q) = (AList.update (first_page (tags (tn_key (nd s c))) (rc_page_size s)) (rc_next s) (tn_children (nd s q)),
       tn_parent (nd s q), tn_key (nd s q), tn_value (nd s q), tn_lock_ref (nd s q)) \<and>
    (\<forall>n. n \<noteq> rc_next s \<and> n \<noteq> c \<and> n \<noteq> q \<longrightarrow> node_core (nd s' n) = node_core (nd s n))"

lemma split_node_at:
  assumes ok: "tree_ok s W" and c: "c \<in> vw_live W" "linked s W q c" and q: "q \<in> vw_live W"
    and L: "0 < L" "L < seg_len s c" "rc_page_size s dvd L"
  shows "\<exists>s'. split_node (tn_key (nd s c)) c L s = Inr (rc_next s, s') \<and> split_at s q c L s'"
proof -
  let ?p = "rc_page_size s" let ?k = "tn_key (nd s c)"
  have p: "0 < ?p" "?p \<le> seg_len s c - L" "?p \<le> rk_len ?k"
    using ok L linkedD(5) [OF c(2)] linked_page [OF c(2)] by (auto simp: tree_ok_def seg_len_def intro: dvd_imp_le dvd_diff_nat)
  have ck: "child_key (rk_from ?k L) ?p = Inr (first_page (drop L (tags ?k)) ?p)" "child_key ?k ?p = Inr (first_page (tags ?k) ?p)"
    using p by (simp_all add: child_key_first seg_len_def)
  have neq: "c \<noteq> rc_next s" "q \<noteq> rc_next s" "c \<noteq> q"
    using tree_ok_root(5) [OF ok] c(1) q linked_longer [OF c(2)] by force+
  show ?thesis
    by (simp add: split_node_def new_tree_node_def monotonic_def Let_def ck linkedD(1) [OF c(2)] upd_node_def neq neq [symmetric]
        split_at_def cache_config_def node_core_def)
qed

lemma node_core_eqD:
  assumes "node_core n = (cs, p, k, v, l)"
  shows "tn_children n = cs" "tn_parent n = p" "tn_key n = k" "tn_value n = v" "tn_lock_ref n = l"
  using assms by (simp_all add: node_core_def)

lemma config_eqD:
  assumes "cache_config s' = cache_config s"
  shows "rc_page_size s' = rc_page_size s" "rc_is_eagle s' = rc_is_eagle s" "rc_root s' = rc_root s" "rc_disable s' = rc_disable s"
  using assms by (simp_all add: cache_config_def)

lemma children_update: "map_of (AList.update k v xs) = (map_of xs)(k \<mapsto> v)"
  by (simp add: update_conv')

lemma update_not_Nil [simp]: "AList.update k v xs \<noteq> []" "[] \<noteq> AList.update k v xs"
  by (cases xs; simp)+

text \<open>The view after a split: one more live node, in the middle of the segment.\<close>

definition split_view :: "radix_cache \<Rightarrow> nat \<Rightarrow> nat \<Rightarrow> nat \<Rightarrow> view \<Rightarrow> view" where
  "split_view s q c L W = extend_view (rc_next s) (vw_path W q @ take L (tags (tn_key (nd s c)))) (vw_slots W q @ take L (tn_value (nd s c))) W"

lemma split_tree_ok:
  assumes ok: "tree_ok s W" and c: "c \<in> vw_live W" "linked s W q c" and q: "q \<in> vw_live W"
    and L: "0 < L" "L < seg_len s c" "rc_page_size s dvd L" and s': "split_at s q c L s'"
  shows "tree_ok s' (split_view s q c L W)" (is "tree_ok s' ?W")
proof -
  let ?p = "rc_page_size s" let ?k = "tn_key (nd s c)" let ?new = "rc_next s" let ?fk = "first_page (tags ?k) ?p"
  note cfg = config_eqD [OF s' [unfolded split_at_def, THEN conjunct1]]
  have core: "node_core (nd s' ?new) = ([(first_page (drop L (tags ?k)) ?p, c)], Some q, rk_slice ?k 0 L, take L (tn_value (nd s c)), tn_lock_ref (nd s c))"
    "node_core (nd s' c) = (tn_children (nd s c), Some ?new, rk_from ?k L, drop L (tn_value (nd s c)), tn_lock_ref (nd s c))"
    "node_core (nd s' q) = (AList.update ?fk ?new (tn_children (nd s q)), tn_parent (nd s q), tn_key (nd s q), tn_value (nd s q), tn_lock_ref (nd s q))"
    using s' by (simp_all add: split_at_def)
  note new = node_core_eqD [OF core(1)] and cc = node_core_eqD [OF core(2)] and qq = node_core_eqD [OF core(3)]
  have other: "tn_children (nd s' n) = tn_children (nd s n)" "tn_parent (nd s' n) = tn_parent (nd s n)"
    "tn_key (nd s' n) = tn_key (nd s n)" "tn_value (nd s' n) = tn_value (nd s n)" if "n \<noteq> ?new" "n \<noteq> c" "n \<noteq> q" for n
    using s' that by (simp_all add: split_at_def node_core_def)
  have fresh: "n \<noteq> ?new" if "n \<in> vw_live W" for n using tree_ok_root(5) [OF ok that] by simp
  have neq: "c \<noteq> q" "c \<noteq> ?new" "q \<noteq> ?new" "rc_root s \<noteq> ?new"
    using linked_longer [OF c(2)] fresh c(1) q tree_ok_root(2) [OF ok] by auto
  have p: "0 < ?p" "?p \<le> L" "L \<le> rk_len ?k" using ok L by (auto simp: tree_ok_def seg_len_def intro: dvd_imp_le)
  have croot: "c \<noteq> rc_root s" using tree_ok_root(3) [OF ok] linked_longer [OF c(2)] by auto
  have keys: "tn_key (nd s' n) = tn_key (nd s n)" "tn_parent (nd s' n) = tn_parent (nd s n)" "tn_value (nd s' n) = tn_value (nd s n)"
    if "n \<noteq> ?new" "n \<noteq> c" for n
    using other [of n] qq that by (cases "n = q"; simp)+
  have kids: "d \<in> vw_live ?W \<and> d \<noteq> rc_root s \<and> tn_parent (nd s' d) = Some x \<and> ck = first_page (tags (tn_key (nd s' d))) ?p"
    if x: "x \<in> vw_live ?W" and d: "map_of (tn_children (nd s' x)) ck = Some d" for x ck d
  proof -
    have old: ?thesis if "x \<in> vw_live W" "map_of (tn_children (nd s x)) ck = Some d" "d \<noteq> c"
      using tree_ok_child [OF ok that(1,2)] that(3) keys [of d] fresh linkedD(1) by (simp add: split_view_def)
    consider "x = ?new" | "x = q" "ck = ?fk" | "x = q" "ck \<noteq> ?fk" | "x = c" | "x \<in> vw_live W" "x \<noteq> ?new" "x \<noteq> q" "x \<noteq> c"
      using x by (auto simp: split_view_def)
    then show ?thesis
    proof cases
      case 1
      then show ?thesis using d c(1) cc croot by (auto simp: new split_view_def split: if_splits)
    next
      case 2
      then show ?thesis using d qq new neq p by (auto simp: children_update split_view_def first_page_take)
    next
      case 3
      then have "map_of (tn_children (nd s q)) ck = Some d" using d qq by (simp add: children_update)
      moreover from this have "d \<noteq> c" using 3 tree_ok_child(4) [OF ok q, of ck d] by blast
      ultimately show ?thesis using old 3 q by blast
    next
      case 4
      then have "map_of (tn_children (nd s c)) ck = Some d" using d cc by simp
      moreover from this have "d \<noteq> c" using tree_ok_child(3) [OF ok c(1)] linked_longer by blast
      ultimately show ?thesis using old 4 c(1) by blast
    next
      case 5
      then have "map_of (tn_children (nd s x)) ck = Some d" using d other by simp
      moreover from this have "d \<noteq> c" using tree_ok_child(3) [OF ok 5(1), of ck d] linkedD(1) [of s W x d] linkedD(1) [OF c(2)] 5(3) by auto
      ultimately show ?thesis using old 5 by blast
    qed
  qed
  have links: "\<exists>r\<in>vw_live ?W. linked s' ?W r n" if n: "n \<in> vw_live ?W" "n \<noteq> rc_root s" for n
  proof -
    consider "n = ?new" | "n = c" | "n \<in> vw_live W" "n \<noteq> c" "n \<noteq> ?new" using n by (auto simp: split_view_def)
    then show ?thesis
    proof cases
      case 1
      have "linked s' ?W q ?new"
        using linkedD [OF c(2)] p neq L cfg unfolding linked_def
        by (simp add: new qq children_update first_page_take split_view_def seg_len_def)
      then show ?thesis using 1 q by (auto simp: split_view_def)
    next
      case 2
      have "tags ?k = take L (tags ?k) @ drop L (tags ?k)" "tn_value (nd s c) = take L (tn_value (nd s c)) @ drop L (tn_value (nd s c))" by simp_all
      then have "linked s' ?W ?new c"
        using linkedD [OF c(2)] p neq L cfg unfolding linked_def
        by (auto simp: new cc children_update split_view_def seg_len_def dest: in_set_takeD tags_fst)
      then show ?thesis using 2 by (auto simp: split_view_def)
    next
      case 3
      obtain r where r: "r \<in> vw_live W" "linked s W r n" using tree_ok_parent [OF ok 3(1) n(2)] .
      have "map_of (tn_children (nd s' r)) (first_page (tags (tn_key (nd s n))) ?p) = Some n"
      proof (cases "r = q")
        case True
        then have "first_page (tags (tn_key (nd s n))) ?p \<noteq> ?fk" using linkedD(8) [OF r(2)] linkedD(8) [OF c(2)] 3(2) by auto
        then show ?thesis using True qq linkedD(8) [OF r(2)] by (simp add: children_update)
      next
        case False
        then show ?thesis using linkedD(8) [OF r(2)] other [of r] cc fresh [OF r(1)] by (cases "r = c") simp_all
      qed
      then have "linked s' ?W r n"
        using r 3 fresh [OF r(1)] cfg unfolding linked_def by (simp add: keys split_view_def)
      then show ?thesis using r(1) by (auto simp: split_view_def)
    qed
  qed
  show ?thesis unfolding tree_ok_def cfg
  proof (intro conjI)
    show "vw_live ?W \<subseteq> {..<rc_next s'}" using s' tree_ok_root(5) [OF ok] by (auto simp: split_view_def split_at_def less_Suc_eq)
  qed (use kids links tree_ok_root [OF ok] neq(4) in \<open>auto simp: split_view_def\<close>)
qed

lemma split_locks_ok:
  assumes ok: "tree_ok s W" and c: "c \<in> vw_live W" "linked s W q c" and q: "q \<in> vw_live W"
    and L: "L < seg_len s c" and s': "split_at s q c L s'" and locks: "locks_ok s W f"
  shows "locks_ok s' (split_view s q c L W) (f(rc_next s := f c))" (is "locks_ok s' ?W ?f")
proof -
  let ?new = "rc_next s"
  note cfg = config_eqD [OF s' [unfolded split_at_def, THEN conjunct1]]
  have fresh: "?new \<notin> vw_live W" using tree_ok_root(5) [OF ok] by blast
  have neq: "c \<noteq> q" "c \<noteq> ?new" "q \<noteq> ?new" "rc_root s \<noteq> ?new"
    using linked_longer [OF c(2)] fresh c(1) q tree_ok_root(2) [OF ok] by auto
  have croot: "c \<noteq> rc_root s" using tree_ok_root(3) [OF ok] linked_longer [OF c(2)] by auto
  have same: "node_core (nd s' n) = node_core (nd s n)" if "n \<noteq> ?new" "n \<noteq> c" "n \<noteq> q" for n
    using s' that by (simp add: split_at_def)
  have lock: "tn_lock_ref (nd s' n) = tn_lock_ref (nd s (if n = ?new then c else n))" for n
    using s' same [of n] by (cases "n = ?new \<or> n = c \<or> n = q") (auto simp: split_at_def node_core_def)
  have seg: "seg_len s' n = (if n = ?new then L else if n = c then seg_len s c - L else seg_len s n)" for n
    using s' same [of n] neq L by (cases "n = ?new \<or> n = c \<or> n = q") (auto simp: split_at_def node_core_def seg_len_def)
  have empty: "tn_children (nd s' n) = [] \<longleftrightarrow> n \<noteq> ?new \<and> tn_children (nd s n) = []" for n
  proof (cases "n = ?new \<or> n = c \<or> n = q")
    case True
    have "tn_children (nd s q) \<noteq> []" using linkedD(8) [OF c(2)] by auto
    then show ?thesis using True s' neq by (auto simp: split_at_def node_core_def)
  next
    case False
    then show ?thesis using same [of n] by (simp add: node_core_def)
  qed
  have sum: "(\<Sum>n | n \<in> vw_live ?W - {rc_root s} \<and> P (?f n). seg_len s' n) = (\<Sum>n | n \<in> vw_live W - {rc_root s} \<and> P (f n). seg_len s n)"
    (is "sum _ ?B = sum _ ?A") for P
  proof -
    have fin: "finite ?A" using tree_ok_root(6) [OF ok] by simp
    show ?thesis
    proof (cases "P (f c)")
      case True
      have B: "?B = insert ?new ?A" using True fresh neq c(1) by (auto simp: split_view_def)
      have A: "c \<in> ?A" "?new \<notin> ?A" using True c(1) croot fresh by auto
      have "sum (seg_len s') ?B = L + (seg_len s' c + sum (seg_len s') (?A - {c}))"
        unfolding B using fin A by (simp add: seg sum.remove del: insert_Diff)
      also have "sum (seg_len s') (?A - {c}) = sum (seg_len s) (?A - {c})" using A by (intro sum.cong) (auto simp: seg)
      also have "L + (seg_len s' c + sum (seg_len s) (?A - {c})) = sum (seg_len s) ?A"
        using sum.remove [OF fin A(1), of "seg_len s"] L neq by (simp add: seg)
      finally show ?thesis .
    next
      case False
      then have "?B = ?A" using fresh by (auto simp: split_view_def)
      moreover have "sum (seg_len s') ?A = sum (seg_len s) ?A" using False fresh by (intro sum.cong) (auto simp: seg)
      ultimately show ?thesis by simp
    qed
  qed
  have "set (rc_evictable_leaves s') = {n \<in> vw_live ?W - {rc_root s}. ?f n = 0 \<and> tn_children (nd s' n) = []}"
    using locks s' fresh unfolding locks_ok_def split_at_def split_view_def by (auto simp: empty)
  moreover have "\<forall>n\<in>vw_live ?W. n \<noteq> rc_root s \<longrightarrow> tn_lock_ref (nd s' n) = int (?f n)" "0 < tn_lock_ref (nd s' (rc_root s))"
    using locks c(1) croot neq fresh by (auto simp: lock split_view_def locks_ok_def)
  ultimately show ?thesis using locks s' unfolding locks_ok_def cfg sum [of "\<lambda>k. k = 0"] sum [of "\<lambda>k. 0 < k"] split_at_def
    by (simp only: simp_thms)
qed

text \<open>The slots of the tree, as a multiset.\<close>

definition slot_bag :: "radix_cache \<Rightarrow> view \<Rightarrow> nat multiset" where
  "slot_bag s W = (\<Sum>n\<in>vw_live W - {rc_root s}. mset (tn_value (nd s n)))"

lemma split_bag:
  assumes ok: "tree_ok s W" and c: "c \<in> vw_live W" "linked s W q c" and q: "q \<in> vw_live W" and s': "split_at s q c L s'"
  shows "slot_bag s' (split_view s q c L W) = slot_bag s W"
proof -
  let ?new = "rc_next s" let ?A = "vw_live W - {rc_root s}"
  note cfg = config_eqD [OF s' [unfolded split_at_def, THEN conjunct1]]
  have fresh: "?new \<notin> vw_live W" using tree_ok_root(5) [OF ok] by blast
  have neq: "c \<noteq> q" "c \<noteq> ?new" "q \<noteq> ?new" "rc_root s \<noteq> ?new"
    using linked_longer [OF c(2)] fresh c(1) q tree_ok_root(2) [OF ok] by auto
  have cA: "c \<in> ?A" "finite ?A" using c tree_ok_root(3,6) [OF ok] linked_longer [OF c(2)] by auto
  have val: "tn_value (nd s' n) = (if n = ?new then take L (tn_value (nd s c)) else if n = c then drop L (tn_value (nd s c)) else tn_value (nd s n))" for n
    using s' neq by (cases "n = ?new"; cases "n = c"; cases "n = q"; simp add: split_at_def node_core_def)
  define B where "B = ?A - {c}"
  have B: "finite B" "c \<notin> B" "?new \<notin> B" "?A = insert c B" using cA fresh by (auto simp: B_def)
  have live: "vw_live (split_view s q c L W) - {rc_root s} = insert ?new (insert c B)" using cA(1) neq by (auto simp: split_view_def B_def)
  have rest: "(\<Sum>n\<in>B. mset (tn_value (nd s' n))) = (\<Sum>n\<in>B. mset (tn_value (nd s n)))"
    using B by (intro sum.cong) (auto simp: val)
  have "mset (take L v) + (mset (drop L v) + M) = mset v + M" for v :: "nat list" and M
    by (metis append_take_drop_id mset_append union_assoc)
  moreover have "slot_bag s' (split_view s q c L W) = mset (tn_value (nd s' ?new)) + (mset (tn_value (nd s' c)) + (\<Sum>n\<in>B. mset (tn_value (nd s' n))))"
    unfolding slot_bag_def cfg live using B neq by simp
  ultimately show ?thesis unfolding slot_bag_def B(4) rest using B neq by (simp add: val)
qed

lemma split_held:
  assumes ok: "tree_ok s W" and c: "c \<in> vw_live W" "linked s W q c" and q: "q \<in> vw_live W"
    and L: "0 < L" "L < seg_len s c" "rc_page_size s dvd L" and H: "set_mset H \<subseteq> vw_live W"
  shows "held (split_view s q c L W) H = (held W H)(rc_next s := held W H c)"
proof -
  let ?new = "rc_next s" let ?us = "take L (tags (tn_key (nd s c)))"
  have fresh: "?new \<notin> vw_live W" using tree_ok_root(5) [OF ok] by blast
  have pL: "rc_page_size s \<le> L" using L by (auto intro: dvd_imp_le)
  have iff: "prefix (vw_path W q @ ?us) (vw_path W h) \<longleftrightarrow> prefix (vw_path W c) (vw_path W h)" if h: "h \<in> vw_live W" for h
  proof
    assume le: "prefix (vw_path W q @ ?us) (vw_path W h)"
    then obtain d where d: "d \<in> vw_live W" "linked s W q d" "prefix (vw_path W d) (vw_path W h)"
      "take (rc_page_size s) (tags (tn_key (nd s d))) = take (rc_page_size s) ?us"
      using child_below [OF ok q h le] pL L by (auto simp: seg_len_def)
    then have "c = d" using same_page [OF c(2) d(2) tree_ok_root(1) [OF ok]] pL by (simp add: min_absorb1)
    then show "prefix (vw_path W c) (vw_path W h)" using d by simp
  next
    assume "prefix (vw_path W c) (vw_path W h)"
    moreover have "prefix (vw_path W q @ ?us) (vw_path W c)"
      by (simp add: linkedD(2) [OF c(2)] take_is_prefix)
    ultimately show "prefix (vw_path W q @ ?us) (vw_path W h)" by (rule prefix_order.trans [rotated])
  qed
  show ?thesis
  proof
    fix n
    have "filter_mset (\<lambda>h. prefix (vw_path (split_view s q c L W) n) (vw_path (split_view s q c L W) h)) H
      = filter_mset (\<lambda>h. prefix (vw_path W (if n = ?new then c else n)) (vw_path W h)) H"
    proof (rule filter_mset_cong [OF refl])
      fix h assume "h \<in># H"
      then have h: "h \<in> vw_live W" using H by blast
      then have "h \<noteq> ?new" using fresh by blast
      then show "prefix (vw_path (split_view s q c L W) n) (vw_path (split_view s q c L W) h)
        = prefix (vw_path W (if n = ?new then c else n)) (vw_path W h)"
        using iff [OF h] by (simp add: split_view_def)
    qed
    then show "held (split_view s q c L W) H n = ((held W H)(?new := held W H c)) n" by (simp add: held_def)
  qed
qed

lemma split_cache_ok:
  assumes ok: "cache_ok s W H" and c: "c \<in> vw_live W" "linked s W q c" and q: "q \<in> vw_live W"
    and L: "0 < L" "L < seg_len s c" "rc_page_size s dvd L" and s': "split_at s q c L s'"
  shows "cache_ok s' (split_view s q c L W) H"
proof -
  have t: "tree_ok s W" "set_mset H \<subseteq> vw_live W" "locks_ok s W (held W H)" using ok by (simp_all add: cache_ok_def)
  show ?thesis unfolding cache_ok_def
    using split_tree_ok [OF t(1) c q L s'] split_locks_ok [OF t(1) c q L(2) s' t(3)] split_held [OF t(1) c q L t(2)] t(2)
    by (auto simp: split_view_def)
qed

end
