(* ===== verification/Radix_Match.thy ===== *)
theory Radix_Match
  imports Radix_Inv
begin

text \<open>
  Lookup in the prefix cache.

  \<^item> \<open>stored p W us vs\<close> is the content of a view: the aligned prefixes of the paths with their slots.
  \<^item> \<open>same_content\<close>: a step that may add nodes but keeps the content, the sizes, the pool and the invariant.
  \<^item> \<open>descend\<close> and \<open>descend_split\<close> are one iteration of the loops of \<open>_match_prefix_helper\<close> and \<open>_insert_helper\<close>;
    \<open>match_prefix_ok\<close> is the whole lookup.
\<close>

section \<open>Content\<close>

lemma prefix_full: "prefix xs ys \<Longrightarrow> length ys \<le> length xs \<Longrightarrow> xs = ys"
  by (auto simp: prefix_def)

definition stored :: "nat \<Rightarrow> view \<Rightarrow> tag list \<Rightarrow> nat list \<Rightarrow> bool" where
  "stored p W us vs \<longleftrightarrow> p dvd length us \<and> (\<exists>n\<in>vw_live W. prefix us (vw_path W n) \<and> vs = take (length us) (vw_slots W n))"

definition view_le :: "view \<Rightarrow> view \<Rightarrow> bool" where
  "view_le W W' \<longleftrightarrow> vw_live W \<subseteq> vw_live W' \<and> (\<forall>n\<in>vw_live W. vw_path W' n = vw_path W n \<and> vw_slots W' n = vw_slots W n)"

definition same_content :: "nat multiset \<Rightarrow> radix_cache \<Rightarrow> view \<Rightarrow> radix_cache \<Rightarrow> view \<Rightarrow> bool" where
  "same_content H s W s' W' \<longleftrightarrow> cache_ok s' W' H \<and> cache_config s' = cache_config s \<and> rc_pool s' = rc_pool s \<and>
     rc_evictable_size s' = rc_evictable_size s \<and> rc_protected_size s' = rc_protected_size s \<and> slot_bag s' W' = slot_bag s W \<and>
     view_le W W' \<and> (\<forall>us vs. stored (rc_page_size s) W' us vs = stored (rc_page_size s) W us vs)"

lemma view_le_refl [simp]: "view_le W W"
  by (simp add: view_le_def)

lemma view_le_trans: "view_le W W' \<Longrightarrow> view_le W' W'' \<Longrightarrow> view_le W W''"
  by (auto simp: view_le_def)

lemma same_content_trans:
  "same_content H s W s' W' \<Longrightarrow> same_content H s' W' s'' W'' \<Longrightarrow> same_content H s W s'' W''"
  unfolding same_content_def using config_eqD(1) [of s' s] by (simp add: view_le_trans [of W W' W''])

lemma same_content_meta: "cache_ok s W H \<Longrightarrow> meta_eq s s' \<Longrightarrow> same_content H s W s' W"
  using meta_cache_ok [of s s' W H] by (auto simp: same_content_def slot_bag_def meta_eqD) (auto simp: meta_eq_def)

lemma same_contentD:
  assumes "same_content H s W s' W'"
  shows "cache_ok s' W' H" "rc_page_size s' = rc_page_size s" "rc_is_eagle s' = rc_is_eagle s" "rc_root s' = rc_root s"
    "rc_disable s' = rc_disable s" "view_le W W'" "stored (rc_page_size s) W' us vs = stored (rc_page_size s) W us vs" "tree_ok s' W'"
  using assms config_eqD [of s' s] by (simp_all add: same_content_def cache_ok_def)

lemma stored_node: "tree_ok s W \<Longrightarrow> n \<in> vw_live W \<Longrightarrow> stored (rc_page_size s) W (vw_path W n) (vw_slots W n)"
  unfolding stored_def using path_aligned [of s W n] by (auto intro: bexI [of _ n])

lemma stored_unique:
  assumes ok: "tree_ok s W" and st: "stored (rc_page_size s) W us vs" "stored (rc_page_size s) W us ws"
  shows "vs = ws"
proof -
  let ?p = "rc_page_size s"
  have "take (length us) (vw_slots W n) = take (length us) (vw_slots W m)"
    if "n \<in> vw_live W" "m \<in> vw_live W" "prefix us (vw_path W n)" "prefix us (vw_path W m)" "?p dvd length us"
      "length (vw_path W n) \<le> length (vw_path W m)" for n m us
    using that
  proof (induction "length (vw_path W n) + length (vw_path W m)" arbitrary: n m us rule: less_induct)
    case less
    note root = tree_ok_root [OF ok]
    show ?case
    proof (cases "m = rc_root s")
      case True
      then show ?thesis using less.prems root(3) path_Nil [OF ok less.prems(1)] by simp
    next
      case mr: False
      obtain q where q: "q \<in> vw_live W" "linked s W q m" using tree_ok_parent [OF ok less.prems(2) mr] .
      have al: "length (vw_slots W q) = length (vw_path W q)" using path_aligned [OF ok q(1)] by simp
      show ?thesis
      proof (cases "length us \<le> length (vw_path W q)")
        case True
        have "prefix us (vw_path W q)" using True less.prems(4) linked_prefix [OF q(2)]
          by (metis prefix_length_prefix prefix_order.less_imp_le)
        moreover have "take (length us) (vw_slots W m) = take (length us) (vw_slots W q)"
          using True linkedD(3) [OF q(2)] al by simp
        moreover have "take (length us) (vw_slots W n) = take (length us) (vw_slots W q)"
        proof (cases "length (vw_path W n) \<le> length (vw_path W q)")
          case True
          then show ?thesis using less.hyps [of n q us] less.prems calculation(1) q linked_longer [OF q(2)] by simp
        next
          case False
          then show ?thesis using less.hyps [of q n us] less.prems calculation(1) q linked_longer [OF q(2)] by simp
        qed
        ultimately show ?thesis by simp
      next
        case False
        have pre: "prefix (vw_path W q) us" using False less.prems(4) linked_prefix [OF q(2)]
          by (metis nat_le_linear prefix_length_prefix prefix_order.less_imp_le)
        then obtain ws where ws: "us = vw_path W q @ ws" by (auto simp: prefix_def)
        have "?p \<le> length ws" using False less.prems(5) path_aligned [OF ok q(1)] ws
          by (auto intro!: dvd_imp_le simp: dvd_add_right_iff)
        then obtain d where d: "d \<in> vw_live W" "linked s W q d" "prefix (vw_path W d) (vw_path W n)"
            "take ?p (tags (tn_key (nd s d))) = take ?p ws"
          using child_below [OF ok q(1) less.prems(1), of ws] less.prems(3) ws by auto
        have "take ?p (tags (tn_key (nd s m))) = take ?p ws"
          using less.prems(4) linkedD(2) [OF q(2)] ws linked_page [OF q(2)] \<open>?p \<le> length ws\<close>
          unfolding prefix_def by (auto simp: append_eq_append_conv2)
        then have "d = m" using same_page [OF d(2) q(2) root(1)] d(4) by simp
        then have "vw_path W n = vw_path W m" using d(3) less.prems(6) by (auto simp: prefix_def)
        then show ?thesis using path_inj [OF ok less.prems(1,2)] by simp
      qed
    qed
  qed
  then show ?thesis using st unfolding stored_def by (metis nat_le_linear)
qed

lemma split_stored:
  assumes ok: "tree_ok s W" and c: "c \<in> vw_live W" "linked s W q c" and q: "q \<in> vw_live W" and L: "L < seg_len s c"
  shows "stored p (split_view s q c L W) us vs = stored p W us vs" (is "stored p ?W us vs = _")
proof
  have fresh: "rc_next s \<notin> vw_live W" using tree_ok_root(5) [OF ok] by blast
  have al: "length (vw_slots W q) = length (vw_path W q)" using path_aligned [OF ok q] by simp
  have len: "L < rk_len (tn_key (nd s c))" "length (tn_value (nd s c)) = rk_len (tn_key (nd s c))"
    using L linkedD(6) [OF c(2)] by (simp_all add: seg_len_def)
  {
    assume "stored p W us vs"
    then obtain n where "p dvd length us" "n \<in> vw_live W" "prefix us (vw_path W n)" "vs = take (length us) (vw_slots W n)"
      by (auto simp: stored_def)
    moreover from this fresh have "n \<noteq> rc_next s" by auto
    ultimately show "stored p ?W us vs" unfolding stored_def by (auto simp: split_view_def)
  next
    assume "stored p ?W us vs"
    then obtain n where n: "p dvd length us" "n \<in> vw_live ?W" "prefix us (vw_path ?W n)" "vs = take (length us) (vw_slots ?W n)"
      by (auto simp: stored_def)
    show "stored p W us vs"
    proof (cases "n = rc_next s")
      case True
      have "prefix us (vw_path W c)" "length us \<le> length (vw_path W q) + L"
        using n(3) True prefix_length_le [OF n(3)] linkedD(2) [OF c(2)] take_is_prefix [of L "tags (tn_key (nd s c))"]
        by (auto simp: split_view_def intro: prefix_order.trans)
      moreover from this have "vs = take (length us) (vw_slots W c)"
        using n(4) True linkedD(3) [OF c(2)] al len by (auto simp: split_view_def min_def)
      ultimately show ?thesis using n(1) c(1) unfolding stored_def by blast
    next
      case False
      then show ?thesis using n by (auto simp: stored_def split_view_def)
    qed
  }
qed

section \<open>One iteration\<close>

text \<open>The key that is left at node \<open>n\<close>.\<close>

definition rest_ok :: "radix_cache \<Rightarrow> view \<Rightarrow> nat \<Rightarrow> radix_key \<Rightarrow> bool" where
  "rest_ok s W n key \<longleftrightarrow> n \<in> vw_live W \<and> rc_page_size s dvd rk_len key \<and> rk_bigram key = rc_is_eagle s \<and>
     (\<forall>t\<in>set (vw_path W n). fst t = rk_extra key)"

lemma rest_page: "rest_ok s W n key \<Longrightarrow> 0 < rk_len key \<Longrightarrow> rc_page_size s \<le> rk_len key"
  by (auto simp: rest_ok_def intro: dvd_imp_le)

lemma descend:
  assumes ok: "tree_ok s W" and rest: "rest_ok s W n key" "0 < rk_len key"
    and child: "map_of (tn_children (nd s n)) (first_page (tags key) (rc_page_size s)) = Some c"
  obtains L where "rk_match (tn_key (nd s c)) key (rc_page_size s) = Inr L" "rc_page_size s dvd L" "0 < L" "L \<le> seg_len s c" "L \<le> rk_len key"
    "take L (tags (tn_key (nd s c))) = take L (tags key)" "rk_extra (tn_key (nd s c)) = rk_extra key"
    "\<And>i. rc_page_size s dvd i \<Longrightarrow> i \<le> seg_len s c \<Longrightarrow> i \<le> rk_len key \<Longrightarrow> take i (tags (tn_key (nd s c))) = take i (tags key) \<Longrightarrow> i \<le> L"
proof -
  let ?p = "rc_page_size s" let ?k = "tn_key (nd s c)"
  have n: "n \<in> vw_live W" using rest by (simp add: rest_ok_def)
  note c = tree_ok_child [OF ok n child]
  have p: "0 < ?p" "?p \<le> rk_len ?k" "?p \<le> rk_len key" using tree_ok_root(1) [OF ok] linked_page [OF c(3)] rest_page [OF rest] by simp_all
  have ex: "rk_extra ?k = rk_extra key" using c(4) p tags_hd [of ?k] tags_hd [of key] by (simp add: first_page_def)
  have dv: "?p dvd rk_len ?k" "?p dvd rk_len key" using linkedD(5) [OF c(3)] rest by (simp_all add: rest_ok_def)
  define m where "m = common (tags ?k) (tags key)"
  define L where "L = m div ?p * ?p"
  have match: "rk_match ?k key ?p = Inr L"
    using rk_match_units [OF ex _ p(1) dv] linkedD(7) [OF c(3)] rest(1) ex by (simp add: rest_ok_def L_def m_def common_tags)
  have "take ?p (tags ?k) = take ?p (tags key)"
    using c(4) p by (intro first_page_inj) (auto simp: tags_fst tags_hd)
  then have pm: "?p \<le> m" using p by (simp add: m_def common_take)
  have Lm: "L \<le> m" by (simp add: L_def)
  then have le: "L \<le> rk_len ?k \<and> L \<le> rk_len key \<and> take L (tags ?k) = take L (tags key)"
    using common_take [of L "tags ?k" "tags key"] by (simp add: m_def)
  have "0 < L" using p(1) pm by (simp add: L_def div_greater_zero_iff)
  moreover have "i \<le> L" if "?p dvd i" "i \<le> seg_len s c" "i \<le> rk_len key" "take i (tags ?k) = take i (tags key)" for i
  proof -
    have "i \<le> m" using that common_take [of i "tags ?k" "tags key"] by (simp add: m_def seg_len_def)
    then show ?thesis using that(1) unfolding L_def by (metis div_le_mono dvd_div_mult_self mult_le_mono1)
  qed
  ultimately show thesis using that match le ex by (simp add: L_def seg_len_def)
qed

lemma descend_split:
  assumes ok: "cache_ok s W H" and rest: "rest_ok s W n key" "0 < rk_len key"
    and child: "map_of (tn_children (nd s n)) (first_page (tags key) (rc_page_size s)) = Some c"
    and L: "rc_page_size s dvd L" "0 < L" "L < seg_len s c" "L \<le> rk_len key"
    and eq: "take L (tags (tn_key (nd s c))) = take L (tags key)" "rk_extra (tn_key (nd s c)) = rk_extra key"
    and most: "\<And>i. rc_page_size s dvd i \<Longrightarrow> i \<le> seg_len s c \<Longrightarrow> i \<le> rk_len key \<Longrightarrow>
      take i (tags (tn_key (nd s c))) = take i (tags key) \<Longrightarrow> i \<le> L"
  obtains s' W' where "split_node (tn_key (nd s c)) c L s = Inr (rc_next s, s')" "same_content H s W s' W'"
    "rest_ok s' W' (rc_next s) (rk_from key L)" "vw_path W' (rc_next s) = vw_path W n @ take L (tags key)"
    "vw_slots W' (rc_next s) = vw_slots W n @ tn_value (nd s' (rc_next s))"
    "L < rk_len key \<longrightarrow> map_of (tn_children (nd s' (rc_next s))) (first_page (tags (rk_from key L)) (rc_page_size s')) = None"
proof -
  let ?p = "rc_page_size s" let ?new = "rc_next s" let ?W = "split_view s n c L W" let ?k = "tn_key (nd s c)"
  have t: "tree_ok s W" using ok by (simp add: cache_ok_def)
  have n: "n \<in> vw_live W" using rest by (simp add: rest_ok_def)
  note c = tree_ok_child [OF t n child]
  obtain s' where s': "split_node ?k c L s = Inr (?new, s')" "split_at s n c L s'"
    using split_node_at [OF t c(1,3) n L(2,3,1)] by blast
  have cfg: "cache_config s' = cache_config s" using s'(2) by (simp add: split_at_def)
  have sc: "same_content H s W s' ?W"
    unfolding same_content_def
  proof (intro conjI allI)
    show "cache_ok s' ?W H" by (rule split_cache_ok [OF ok c(1,3) n L(2,3,1) s'(2)])
    show "stored ?p ?W us vs = stored ?p W us vs" for us vs by (rule split_stored [OF t c(1,3) n L(3)])
    show "slot_bag s' ?W = slot_bag s W" by (rule split_bag [OF t c(1,3) n s'(2)])
    show "view_le W ?W" using tree_ok_root(5) [OF t] by (auto simp: view_le_def split_view_def)
  qed (use s'(2) in \<open>simp_all add: split_at_def\<close>)
  have dr: "?p dvd rk_len key - L" using rest(1) L by (simp add: rest_ok_def dvd_diff_nat)
  have "map_of (tn_children (nd s' ?new)) (first_page (tags (rk_from key L)) (rc_page_size s')) = None" if lt: "L < rk_len key"
  proof (rule ccontr)
    assume "\<not> ?thesis"
    then have fp: "first_page (drop L (tags ?k)) ?p = first_page (drop L (tags key)) ?p"
      using s'(2) config_eqD(1) [OF cfg] by (auto simp: split_at_def node_core_def split: if_splits)
    have le: "?p \<le> rk_len key - L" "?p \<le> seg_len s c - L" using dr lt L linkedD(5) [OF c(3)]
      by (auto intro!: dvd_imp_le dvd_diff_nat simp: seg_len_def)
    have "take ?p (drop L (tags ?k)) = take ?p (drop L (tags key))"
    proof (rule first_page_inj [OF fp tree_ok_root(1) [OF t]])
      show "fst u = fst (hd (drop L (tags ?k)))" if "u \<in> set (drop L (tags ?k))" for u
        using that tags_fst by (metis empty_iff hd_in_set in_set_dropD list.set(1))
      show "fst u = fst (hd (drop L (tags key)))" if "u \<in> set (drop L (tags key))" for u
        using that tags_fst by (metis empty_iff hd_in_set in_set_dropD list.set(1))
    qed (use le in \<open>simp_all add: seg_len_def\<close>)
    then have "take (L + ?p) (tags ?k) = take (L + ?p) (tags key)" using eq(1) by (simp add: take_add)
    moreover have "L + ?p \<le> seg_len s c" "L + ?p \<le> rk_len key" "rc_page_size s dvd L + ?p" using le lt L by simp_all
    ultimately show False using most [of "L + ?p"] tree_ok_root(1) [OF t] by simp
  qed
  moreover have "rest_ok s' ?W ?new (rk_from key L)"
    using rest(1) dr eq config_eqD [OF cfg] by (auto simp: rest_ok_def split_view_def dest: in_set_takeD tags_fst)
  moreover have "tn_value (nd s' ?new) = take L (tn_value (nd s c))" using s'(2) by (simp add: split_at_def node_core_def)
  ultimately show thesis using that [OF s'(1) sc] eq by (simp add: split_view_def)
qed

text \<open>The loop has found the longest stored prefix when it stops.\<close>

definition longest :: "nat \<Rightarrow> view \<Rightarrow> tag list \<Rightarrow> nat \<Rightarrow> bool" where
  "longest p W K l \<longleftrightarrow> (\<forall>us vs. prefix us K \<longrightarrow> stored p W us vs \<longrightarrow> length us \<le> l)"

lemma stop_longest:
  assumes ok: "tree_ok s W" and rest: "rest_ok s W n key"
    and stop: "0 < rk_len key \<Longrightarrow> map_of (tn_children (nd s n)) (first_page (tags key) (rc_page_size s)) = None"
  shows "longest (rc_page_size s) W (vw_path W n @ tags key) (length (vw_path W n))"
  unfolding longest_def
proof (intro allI impI, rule ccontr)
  let ?p = "rc_page_size s"
  fix us vs assume us: "prefix us (vw_path W n @ tags key)" "stored ?p W us vs" and gt: "\<not> length us \<le> length (vw_path W n)"
  have n: "n \<in> vw_live W" using rest by (simp add: rest_ok_def)
  obtain h where h: "?p dvd length us" "h \<in> vw_live W" "prefix us (vw_path W h)" using us(2) by (auto simp: stored_def)
  obtain ws where ws: "us = vw_path W n @ ws" "prefix ws (tags key)" "0 < length ws"
    using us(1) gt unfolding prefix_append by (auto dest: prefix_length_le)
  have "?p \<le> length ws" using ws h(1) path_aligned [OF ok n] by (auto intro!: dvd_imp_le simp: dvd_add_right_iff)
  then obtain d where d: "linked s W n d" "take ?p (tags (tn_key (nd s d))) = take ?p ws"
    using child_below [OF ok n h(2), of ws] h(3) ws(1) by auto
  have "take ?p ws = take ?p (tags key)" using ws(2) \<open>?p \<le> length ws\<close> by (auto simp: prefix_def)
  then have "first_page (tags (tn_key (nd s d))) ?p = first_page (tags key) ?p"
    using d(2) tree_ok_root(1) [OF ok] by (intro first_page_eq) simp_all
  moreover have "0 < rk_len key" using prefix_length_le [OF ws(2)] ws(3) unfolding length_tags by (rule less_le_trans [rotated])
  ultimately show False using stop linkedD(8) [OF d(1)] by simp
qed

lemma longest_same: "same_content H s W s' W' \<Longrightarrow> longest (rc_page_size s) W' K l = longest (rc_page_size s) W K l"
  by (simp add: longest_def same_content_def)

section \<open>\<open>match_prefix\<close>\<close>

definition matched :: "nat multiset \<Rightarrow> radix_cache \<Rightarrow> view \<Rightarrow> tag list \<Rightarrow> nat list \<Rightarrow> nat \<Rightarrow> radix_cache \<Rightarrow> view \<Rightarrow> bool" where
  "matched H s W K vs m s' W' \<longleftrightarrow> same_content H s W s' W' \<and> m \<in> vw_live W' \<and> prefix (vw_path W' m) K \<and>
     vs = vw_slots W' m \<and> longest (rc_page_size s) W K (length (vw_path W' m))"

lemma matched_trans: "same_content H s W s' W' \<Longrightarrow> matched H s' W' K vs m s'' W'' \<Longrightarrow> matched H s W K vs m s'' W''"
  unfolding matched_def using same_content_trans longest_same same_contentD(2) by metis

lemma matched_stop:
  assumes "cache_ok s W H" "rest_ok s W n key"
    "0 < rk_len key \<Longrightarrow> map_of (tn_children (nd s n)) (first_page (tags key) (rc_page_size s)) = None"
  shows "matched H s W (vw_path W n @ tags key) (vw_slots W n) n s W"
  using assms stop_longest [OF _ assms(2,3)] by (auto simp: matched_def cache_ok_def rest_ok_def same_content_def)

lemma rest_ok_down:
  assumes "tree_ok s W" "rest_ok s W n key" "map_of (tn_children (nd s n)) (first_page (tags key) (rc_page_size s)) = Some c"
    "take (seg_len s c) (tags (tn_key (nd s c))) = take (seg_len s c) (tags key)" "rk_extra (tn_key (nd s c)) = rk_extra key"
  shows "rest_ok s W c (rk_from key (seg_len s c))" "vw_path W c @ tags (rk_from key (seg_len s c)) = vw_path W n @ tags key"
proof -
  have n: "n \<in> vw_live W" using assms by (simp add: rest_ok_def)
  note c = tree_ok_child [OF assms(1) n assms(3)]
  have k: "tags (tn_key (nd s c)) = take (seg_len s c) (tags key)" using assms(4) by (simp add: seg_len_def)
  show "vw_path W c @ tags (rk_from key (seg_len s c)) = vw_path W n @ tags key"
    unfolding linkedD(2) [OF c(3)] k by simp
  show "rest_ok s W c (rk_from key (seg_len s c))"
    using assms(2,5) c(1) linkedD(5) [OF c(3)] path_space [OF c(3)] unfolding rest_ok_def by (auto simp: seg_len_def dvd_diff_nat)
qed

lemma match_loop_ok:
  assumes "cache_ok s W H" "rest_ok s W n key" "concat val = vw_slots W n" "0 < rk_len key \<Longrightarrow> ck = first_page (tags key) (rc_page_size s)"
  shows "\<exists>val' m s' W'. match_loop s n key ck now val = Some (Inr (val', m, s')) \<and>
    matched H s W (vw_path W n @ tags key) (concat val') m s' W'"
  using assms
proof (induction "rk_len key" arbitrary: s n key ck val rule: less_induct)
  case less
  show ?case
  proof (cases "0 < rk_len key \<and> map_of (tn_children (nd s n)) ck \<noteq> None")
    case False
    then have "match_loop s n key ck now val = Some (Inr (val, n, s))" by (auto simp: match_loop.simps)
    then show ?thesis using matched_stop [OF less.prems(1,2)] False less.prems(3,4) by auto
  next
    case True
    then obtain c where child: "map_of (tn_children (nd s n)) (first_page (tags key) (rc_page_size s)) = Some c"
      and pos: "0 < rk_len key" and ck: "ck = first_page (tags key) (rc_page_size s)" using less.prems(4) by auto
    define t where "t = touch now c s"
    have meta: "meta_eq s t" by (simp add: t_def)
    note te = meta_eqD [OF meta]
    have tc: "same_content H s W t W" by (rule same_content_meta [OF less.prems(1) meta])
    have ok: "cache_ok t W H" "tree_ok t W" using tc by (simp_all add: same_contentD)
    have rest: "rest_ok t W n key" using less.prems(2) by (simp add: rest_ok_def te)
    have child': "map_of (tn_children (nd t n)) (first_page (tags key) (rc_page_size t)) = Some c" using child by (simp add: te)
    obtain L where L: "rk_match (tn_key (nd t c)) key (rc_page_size t) = Inr L" "rc_page_size t dvd L" "0 < L" "L \<le> seg_len t c" "L \<le> rk_len key"
      "take L (tags (tn_key (nd t c))) = take L (tags key)" "rk_extra (tn_key (nd t c)) = rk_extra key"
      "\<And>i. rc_page_size t dvd i \<Longrightarrow> i \<le> seg_len t c \<Longrightarrow> i \<le> rk_len key \<Longrightarrow> take i (tags (tn_key (nd t c))) = take i (tags key) \<Longrightarrow> i \<le> L"
      using descend [OF ok(2) rest pos child'] by metis
    note unfold = match_loop.simps [of s n key "first_page (tags key) (rc_page_size s)" now val] ck child t_def [symmetric] L(1)
    show ?thesis
    proof (cases "L < seg_len t c")
      case True
      obtain s' W' where s': "split_node (tn_key (nd t c)) c L t = Inr (rc_next t, s')" "same_content H t W s' W'"
        "rest_ok s' W' (rc_next t) (rk_from key L)" "vw_path W' (rc_next t) = vw_path W n @ take L (tags key)"
        "vw_slots W' (rc_next t) = vw_slots W n @ tn_value (nd s' (rc_next t))"
        "L < rk_len key \<longrightarrow> map_of (tn_children (nd s' (rc_next t))) (first_page (tags (rk_from key L)) (rc_page_size s')) = None"
        by (rule descend_split [OF ok(1) rest pos child' L(2,3) True L(5-8)])
      have run: "match_loop s n key ck now val = Some (Inr (val @ [tn_value (nd s' (rc_next t))], rc_next t, s'))"
        using pos True by (simp add: unfold s'(1) seg_len_def)
      have "matched H s' W' (vw_path W' (rc_next t) @ tags (rk_from key L)) (vw_slots W' (rc_next t)) (rc_next t) s' W'"
        using s'(6) by (intro matched_stop [OF same_contentD(1) [OF s'(2)] s'(3)]) simp
      then have "matched H s W (vw_path W n @ tags key) (vw_slots W n @ tn_value (nd s' (rc_next t))) (rc_next t) s' W'"
        using matched_trans [OF same_content_trans [OF tc s'(2)]] s'(4,5) by simp
      then show ?thesis using run less.prems(3) by auto
    next
      case False
      then have Lc: "L = seg_len t c" using L(4) by simp
      note down = rest_ok_down [OF ok(2) rest child' L(6) [unfolded Lc] L(7), folded Lc]
      have c: "c \<in> vw_live W" "linked t W n c" using tree_ok_child [OF ok(2) _ child'] rest by (simp_all add: rest_ok_def)
      have slots: "concat (val @ [tn_value (nd t c)]) = vw_slots W c" using less.prems(3) linkedD(3) [OF c(2)] by simp
      let ?ck = "first_page (tags (rk_from key L)) (rc_page_size t)"
      have "\<exists>val' m s' W'. (if rk_len (rk_from key L) = 0 then Some (Inr (val @ [tn_value (nd t c)], c, t))
          else match_loop t c (rk_from key L) ?ck now (val @ [tn_value (nd t c)])) = Some (Inr (val', m, s'))
        \<and> matched H t W (vw_path W c @ tags (rk_from key L)) (concat val') m s' W'"
      proof (cases "rk_len (rk_from key L) = 0")
        case True
        then show ?thesis using matched_stop [OF ok(1) down(1)] slots by auto
      next
        case False
        have "rk_len (rk_from key L) < rk_len key" using pos L(3) by simp
        then show ?thesis using less.hyps [OF _ ok(1) down(1) slots] False by simp
      qed
      moreover have "child_key (rk_from key L) (rc_page_size t) = Inr ?ck" if "rk_len (rk_from key L) \<noteq> 0"
        using that rest_page [OF down(1)] tree_ok_root(1) [OF ok(2)] by (intro child_key_first) simp_all
      ultimately obtain val' m s' W' where "match_loop s n key ck now val = Some (Inr (val', m, s'))"
        and "matched H t W (vw_path W c @ tags (rk_from key L)) (concat val') m s' W'"
        using pos False by (auto simp: unfold seg_len_def Let_def split: if_splits)
      then show ?thesis using matched_trans [OF tc] down(2) by (metis (no_types))
    qed
  qed
qed

text \<open>The key that the cache works on: units of the right kind, whole pages.\<close>

definition cache_key :: "radix_cache \<Rightarrow> radix_key \<Rightarrow> radix_key" where
  "cache_key s key = page_aligned (rc_page_size s) (fst (maybe_to_bigram_view (rc_is_eagle s) key None))"

lemma bigram_view_simps [simp]:
  "rk_bigram (fst (maybe_to_bigram_view e k v)) = (rk_bigram k \<or> e)" "rk_extra (fst (maybe_to_bigram_view e k v)) = rk_extra k"
  "fst (maybe_to_bigram_view e k (Some w)) = fst (maybe_to_bigram_view e k None)"
  by (auto simp: maybe_to_bigram_view_def Let_def)

lemma rest_ok_cache_key:
  assumes "tree_ok s W" "rk_bigram key \<longrightarrow> rc_is_eagle s"
  shows "rest_ok s W (rc_root s) (cache_key s key)"
  using assms tree_ok_root [OF assms(1)] by (auto simp: rest_ok_def cache_key_def)

lemma match_prefix_ok:
  assumes ok: "cache_ok s W H" and key: "rk_bigram key \<longrightarrow> rc_is_eagle s" and on: "\<not> rc_disable s"
  shows "\<exists>vs m s' W'. match_prefix s key = Some (Inr (vs, m, s')) \<and> matched H s W (tags (cache_key s key)) vs m s' W'"
proof -
  let ?raw = "fst (maybe_to_bigram_view (rc_is_eagle s) key None)" let ?k = "cache_key s key"
  have t: "tree_ok s W" using ok by (simp add: cache_ok_def)
  note root = tree_ok_root [OF t] and rest = rest_ok_cache_key [OF t key]
  show ?thesis
  proof (cases "rk_len ?k = 0")
    case True
    then have "match_prefix s key = Some (Inr ([], rc_root s, s))"
      by (simp add: match_prefix_def Let_def cache_key_def)
    moreover have "matched H s W (tags ?k) [] (rc_root s) s W"
      using matched_stop [OF ok rest] True root by simp
    ultimately show ?thesis by blast
  next
    case False
    obtain u where u: "monotonic s = (rc_clock s (rc_ticks s), u)" "meta_eq s u"
      using meta_ops(4) [of s] by (cases "monotonic s") (simp add: monotonic_def)
    define t' where "t' = touch (rc_clock s (rc_ticks s)) (rc_root s) u"
    have meta: "meta_eq s t'" using meta_eq_trans [OF u(2) meta_ops(1)] by (simp add: t'_def)
    note te = meta_eqD [OF meta]
    have tc: "same_content H s W t' W" by (rule same_content_meta [OF ok meta])
    have rest': "rest_ok t' W (rc_root s) ?k" using rest by (simp add: rest_ok_def te)
    have ck: "child_key ?k (rc_page_size t') = Inr (first_page (tags ?k) (rc_page_size t'))"
      using False rest_page [OF rest'] root(1) by (intro child_key_first) (simp_all add: te)
    obtain val m s' W' where r: "match_loop t' (rc_root s) ?k (first_page (tags ?k) (rc_page_size t')) (rc_clock s (rc_ticks s)) [] = Some (Inr (val, m, s'))"
      "matched H t' W (vw_path W (rc_root s) @ tags ?k) (concat val) m s' W'"
      using match_loop_ok [OF same_contentD(1) [OF tc] rest', of "[]" "first_page (tags ?k) (rc_page_size t')" "rc_clock s (rc_ticks s)"] root
      by (auto simp del: tags_Nil)
    have ne: "(rk_len ?raw = 0) = False" using False by (metis cache_key_def div_0 mult_0 page_aligned_simps(4))
    have "match_prefix s key = Some (Inr (concat val, m, s'))"
      using False on r(1) ck unfolding match_prefix_def match_prefix_helper_def Let_def cache_key_def [symmetric] ne
      by (simp add: u(1) t'_def [symmetric])
    then show ?thesis using matched_trans [OF tc r(2)] root by auto
  qed
qed

end
