(* ===== verification/Radix_Insert.thy ===== *)
theory Radix_Insert
  imports Radix_Match
begin

text \<open>
  Insertion into the prefix cache: \<open>insert_loop_ok\<close> is the descent (which splits a node but keeps the content),
  \<open>leaf_tree_ok\<close> and \<open>leaf_locks_ok\<close> the new leaf, \<open>insert_prefix_ok\<close> the whole operation.
\<close>

section \<open>The set of evictable leaves\<close>

lemma update_leaf_status_simps [simp]:
  "rc_nodes (update_leaf_status n s) = rc_nodes s" "cache_config (update_leaf_status n s) = cache_config s"
  "rc_next (update_leaf_status n s) = rc_next s" "rc_evictable_size (update_leaf_status n s) = rc_evictable_size s"
  "rc_protected_size (update_leaf_status n s) = rc_protected_size s" "rc_pool (update_leaf_status n s) = rc_pool s"
  "rc_root (update_leaf_status n s) = rc_root s" "rc_page_size (update_leaf_status n s) = rc_page_size s"
  by (simp_all add: update_leaf_status_def remove_leaf_def add_leaf_def cache_config_def)

lemma update_leaf_status_leaves:
  "set (rc_evictable_leaves (update_leaf_status n s)) =
     (if tn_lock_ref (nd s n) > 0 \<or> tn_children (nd s n) \<noteq> [] then set (rc_evictable_leaves s) - {n} else insert n (set (rc_evictable_leaves s)))"
  "distinct (rc_evictable_leaves s) \<Longrightarrow> distinct (rc_evictable_leaves (update_leaf_status n s))"
  by (auto simp: update_leaf_status_def remove_leaf_def add_leaf_def)

section \<open>The new leaf\<close>

definition leaf_at :: "radix_cache \<Rightarrow> nat \<Rightarrow> radix_key \<Rightarrow> nat list \<Rightarrow> radix_cache \<Rightarrow> bool" where
  "leaf_at s n key val s' \<longleftrightarrow> cache_config s' = cache_config s \<and> rc_next s' = Suc (rc_next s) \<and> rc_pool s' = rc_pool s \<and>
    rc_evictable_size s' = rc_evictable_size s + int (rk_len key) \<and> rc_protected_size s' = rc_protected_size s \<and>
    node_core (nd s' (rc_next s)) = ([], Some n, key, val, 0) \<and>
    node_core (nd s' n) = (AList.update (first_page (tags key) (rc_page_size s)) (rc_next s) (tn_children (nd s n)),
       tn_parent (nd s n), tn_key (nd s n), tn_value (nd s n), tn_lock_ref (nd s n)) \<and>
    (\<forall>m. m \<noteq> rc_next s \<and> m \<noteq> n \<longrightarrow> node_core (nd s' m) = node_core (nd s m)) \<and>
    (distinct (rc_evictable_leaves s) \<longrightarrow> distinct (rc_evictable_leaves s')) \<and>
    set (rc_evictable_leaves s') = insert (rc_next s) (set (rc_evictable_leaves s) - {n})"

lemma insert_leaf_at:
  assumes "n < rc_next s"
  shows "leaf_at s n key val (insert_leaf s n key val (first_page (tags key) (rc_page_size s)) priority chunked)"
proof -
  let ?ck = "first_page (tags key) (rc_page_size s)" let ?new = "rc_next s"
  define t where "t = (let (new, s) = new_tree_node priority s;
          s = upd_node new (\<lambda>n'. n'\<lparr> tn_parent := Some n, tn_key := key, tn_value := val \<rparr>) s;
          s = inc_hit_count chunked new s;
          s = upd_node n (\<lambda>n. n\<lparr> tn_children := AList.update ?ck new (tn_children n) \<rparr>) s
      in s\<lparr> rc_evictable_size := rc_evictable_size s + int (rk_len key) \<rparr>)"
  have ins: "insert_leaf s n key val ?ck priority chunked = update_leaf_status ?new (update_leaf_status n t)"
    by (simp add: insert_leaf_def t_def new_tree_node_def monotonic_def Let_def)
  have neq: "n \<noteq> ?new" using assms by simp
  have cfg: "cache_config t = cache_config s" "rc_next t = Suc ?new" "rc_pool t = rc_pool s"
    "rc_evictable_size t = rc_evictable_size s + int (rk_len key)" "rc_protected_size t = rc_protected_size s"
    "rc_evictable_leaves t = rc_evictable_leaves s"
    by (simp_all add: t_def new_tree_node_def monotonic_def Let_def upd_node_def inc_hit_count_def cache_config_def)
  have nodes: "node_core (nd t ?new) = ([], Some n, key, val, 0)"
    "node_core (nd t n) = (AList.update ?ck ?new (tn_children (nd s n)), tn_parent (nd s n), tn_key (nd s n), tn_value (nd s n), tn_lock_ref (nd s n))"
    "m \<noteq> ?new \<Longrightarrow> m \<noteq> n \<Longrightarrow> node_core (nd t m) = node_core (nd s m)" for m
    using neq neq [symmetric]
    by (simp_all add: t_def new_tree_node_def monotonic_def Let_def upd_node_def inc_hit_count_def node_core_def)
  have "tn_children (nd t n) \<noteq> []" "tn_children (nd t ?new) = []" "tn_lock_ref (nd t ?new) = 0"
    using nodes(1,2) by (simp_all add: node_core_def)
  then show ?thesis unfolding leaf_at_def ins
    using cfg nodes neq update_leaf_status_leaves(2) by (simp add: update_leaf_status_leaves(1) insert_Diff_if)
qed

lemma leaf_tree_ok:
  assumes ok: "tree_ok s W" and rest: "rest_ok s W n key" "0 < rk_len key" and val: "length val = rk_len key"
    and no: "map_of (tn_children (nd s n)) (first_page (tags key) (rc_page_size s)) = None" and s': "leaf_at s n key val s'"
  shows "tree_ok s' (extend_view (rc_next s) (vw_path W n @ tags key) (vw_slots W n @ val) W)" (is "tree_ok s' ?W")
proof -
  let ?p = "rc_page_size s" let ?new = "rc_next s" let ?fk = "first_page (tags key) ?p"
  note cfg = config_eqD [OF s' [unfolded leaf_at_def, THEN conjunct1]]
  have core: "node_core (nd s' ?new) = ([], Some n, key, val, 0)"
    "node_core (nd s' n) = (AList.update ?fk ?new (tn_children (nd s n)), tn_parent (nd s n), tn_key (nd s n), tn_value (nd s n), tn_lock_ref (nd s n))"
    using s' by (simp_all add: leaf_at_def)
  note new = node_core_eqD [OF core(1)] and nn = node_core_eqD [OF core(2)]
  have n: "n \<in> vw_live W" using rest by (simp add: rest_ok_def)
  have fresh: "m \<noteq> ?new" if "m \<in> vw_live W" for m using tree_ok_root(5) [OF ok that] by simp
  have keys: "tn_key (nd s' m) = tn_key (nd s m)" "tn_parent (nd s' m) = tn_parent (nd s m)" "tn_value (nd s' m) = tn_value (nd s m)"
    if "m \<noteq> ?new" for m
    using s' that by (cases "m = n"; simp add: leaf_at_def node_core_def)+
  have kids: "tn_children (nd s' m) = (if m = n then AList.update ?fk ?new (tn_children (nd s n)) else tn_children (nd s m))" if "m \<noteq> ?new" for m
    using s' that by (cases "m = n"; simp add: leaf_at_def node_core_def)
  have children: "d \<in> vw_live ?W \<and> d \<noteq> rc_root s \<and> tn_parent (nd s' d) = Some x \<and> ck = first_page (tags (tn_key (nd s' d))) ?p"
    if x: "x \<in> vw_live ?W" and d: "map_of (tn_children (nd s' x)) ck = Some d" for x ck d
  proof (cases "x = n \<and> ck = ?fk")
    case True
    then have "d = ?new" using d nn by (simp add: children_update)
    then show ?thesis using True new fresh [OF tree_ok_root(2) [OF ok]] by simp
  next
    case False
    have xn: "x \<noteq> ?new" using d new by auto
    then have old: "x \<in> vw_live W" "map_of (tn_children (nd s x)) ck = Some d"
      using x d kids [OF xn] False by (auto simp: children_update split: if_splits)
    then show ?thesis using tree_ok_child [OF ok old] keys [of d] fresh [of d] linkedD(1) [of s W x d] by simp
  qed
  have links: "\<exists>r\<in>vw_live ?W. linked s' ?W r m" if m: "m \<in> vw_live ?W" "m \<noteq> rc_root s" for m
  proof (cases "m = ?new")
    case True
    have "linked s' ?W n ?new" using rest val fresh [OF n] cfg unfolding linked_def rest_ok_def
      by (simp add: new nn children_update)
    then show ?thesis using True n by auto
  next
    case False
    then obtain r where r: "r \<in> vw_live W" "linked s W r m" using tree_ok_parent [OF ok _ m(2)] m(1) by auto
    have "r = n \<Longrightarrow> first_page (tags (tn_key (nd s m))) ?p \<noteq> ?fk" using linkedD(8) [OF r(2)] no by auto
    then have "map_of (tn_children (nd s' r)) (first_page (tags (tn_key (nd s m))) ?p) = Some m"
      using kids [OF fresh [OF r(1)]] linkedD(8) [OF r(2)] by (auto simp: children_update)
    then have "linked s' ?W r m" using r(2) False fresh [OF r(1)] cfg unfolding linked_def by (simp add: keys)
    then show ?thesis using r(1) by auto
  qed
  show ?thesis unfolding tree_ok_def cfg
  proof (intro conjI)
    show "vw_live ?W \<subseteq> {..<rc_next s'}" using s' tree_ok_root(5) [OF ok] by (auto simp: leaf_at_def less_Suc_eq)
  qed (use children links tree_ok_root [OF ok] fresh [OF tree_ok_root(2) [OF ok]] in auto)
qed

lemma leaf_locks_ok:
  assumes ok: "tree_ok s W" and n: "n \<in> vw_live W" and s': "leaf_at s n key val s'" and locks: "locks_ok s W f"
  shows "locks_ok s' (extend_view (rc_next s) us vs W) (f(rc_next s := 0))" (is "locks_ok s' ?W ?f")
proof -
  let ?new = "rc_next s"
  note cfg = config_eqD [OF s' [unfolded leaf_at_def, THEN conjunct1]]
  have fresh: "?new \<notin> vw_live W" "rc_root s \<noteq> ?new" "n \<noteq> ?new" using tree_ok_root(2) [OF ok] tree_ok_root(5) [OF ok, of ?new] n by auto
  have same: "node_core (nd s' m) = node_core (nd s m)" if "m \<noteq> ?new" "m \<noteq> n" for m
    using s' that by (simp add: leaf_at_def)
  have core: "node_core (nd s' ?new) = ([], Some n, key, val, 0)"
    "node_core (nd s' n) = (AList.update (first_page (tags key) (rc_page_size s)) ?new (tn_children (nd s n)), tn_parent (nd s n), tn_key (nd s n), tn_value (nd s n), tn_lock_ref (nd s n))"
    using s' by (simp_all add: leaf_at_def)
  note new = node_core_eqD [OF core(1)] and nn = node_core_eqD [OF core(2)]
  have lock: "tn_lock_ref (nd s' m) = (if m = ?new then 0 else tn_lock_ref (nd s m))"
    and seg: "seg_len s' m = (if m = ?new then rk_len key else seg_len s m)"
    and empty: "tn_children (nd s' m) = [] \<longleftrightarrow> m = ?new \<or> m \<noteq> n \<and> tn_children (nd s m) = []" for m
    using new nn same [of m] fresh(3) by (cases "m = ?new"; cases "m = n"; simp add: node_core_def seg_len_def)+
  have ev: "{m \<in> vw_live ?W - {rc_root s}. ?f m = 0} = insert ?new {m \<in> vw_live W - {rc_root s}. f m = 0}"
    "{m \<in> vw_live ?W - {rc_root s}. 0 < ?f m} = {m \<in> vw_live W - {rc_root s}. 0 < f m}"
    using fresh by auto
  have sums: "sum (seg_len s') {m \<in> vw_live W - {rc_root s}. P m} = sum (seg_len s) {m \<in> vw_live W - {rc_root s}. P m}" for P
    using fresh by (intro sum.cong) (auto simp: seg)
  have sum: "sum (seg_len s') {m \<in> vw_live ?W - {rc_root s}. ?f m = 0} = rk_len key + sum (seg_len s) {m \<in> vw_live W - {rc_root s}. f m = 0}"
  proof -
    have "sum (seg_len s') (insert ?new {m \<in> vw_live W - {rc_root s}. f m = 0}) = seg_len s' ?new + sum (seg_len s') {m \<in> vw_live W - {rc_root s}. f m = 0}"
      using fresh tree_ok_root(6) [OF ok] by (intro sum.insert) auto
    then show ?thesis unfolding ev sums by (simp only: seg if_True simp_thms)
  qed
  have "set (rc_evictable_leaves s') = {m \<in> vw_live ?W - {rc_root s}. ?f m = 0 \<and> tn_children (nd s' m) = []}"
    using locks s' fresh unfolding locks_ok_def leaf_at_def by (auto simp: empty)
  moreover have "\<forall>m\<in>vw_live ?W. m \<noteq> rc_root s \<longrightarrow> tn_lock_ref (nd s' m) = int (?f m)" "0 < tn_lock_ref (nd s' (rc_root s))"
    using locks fresh by (auto simp: lock locks_ok_def)
  moreover have "rc_evictable_size s' = int (sum (seg_len s') {m \<in> vw_live ?W - {rc_root s}. ?f m = 0})"
    unfolding sum using locks s' by (simp add: locks_ok_def leaf_at_def)
  moreover have "rc_protected_size s' = int (sum (seg_len s') {m \<in> vw_live ?W - {rc_root s}. 0 < ?f m})"
    unfolding ev sums using locks s' by (simp add: locks_ok_def leaf_at_def)
  moreover have "distinct (rc_evictable_leaves s')" using locks s' by (simp add: locks_ok_def leaf_at_def)
  ultimately show ?thesis unfolding locks_ok_def cfg by blast
qed

lemma leaf_held:
  assumes ok: "tree_ok s W" and rest: "rest_ok s W n key" "0 < rk_len key" and H: "set_mset H \<subseteq> vw_live W"
    and no: "map_of (tn_children (nd s n)) (first_page (tags key) (rc_page_size s)) = None"
  shows "held (extend_view (rc_next s) (vw_path W n @ tags key) vs W) H = (held W H)(rc_next s := 0)" (is "held ?W H = _")
proof
  fix m
  have n: "n \<in> vw_live W" using rest by (simp add: rest_ok_def)
  have fresh: "h \<noteq> rc_next s" if "h \<in># H" for h using that H tree_ok_root(5) [OF ok, of h] by auto
  have none: "\<not> prefix (vw_path W n @ tags key) (vw_path W h)" if h: "h \<in># H" for h
  proof
    assume "prefix (vw_path W n @ tags key) (vw_path W h)"
    moreover have "h \<in> vw_live W" using h H by blast
    ultimately obtain d where d: "linked s W n d" "take (rc_page_size s) (tags (tn_key (nd s d))) = take (rc_page_size s) (tags key)"
      using child_below [OF ok n, of h "tags key"] rest_page [OF rest] by auto
    then have "first_page (tags (tn_key (nd s d))) (rc_page_size s) = first_page (tags key) (rc_page_size s)"
      using tree_ok_root(1) [OF ok] by (intro first_page_eq) simp_all
    then show False using no linkedD(8) [OF d(1)] by simp
  qed
  show "held ?W H m = ((held W H)(rc_next s := 0)) m"
  proof (cases "m = rc_next s")
    case True
    then have "filter_mset (\<lambda>h. prefix (vw_path ?W m) (vw_path ?W h)) H = filter_mset (\<lambda>h. False) H"
      using fresh none by (intro filter_mset_cong) auto
    then show ?thesis using True by (simp add: held_def)
  next
    case False
    then have "filter_mset (\<lambda>h. prefix (vw_path ?W m) (vw_path ?W h)) H = filter_mset (\<lambda>h. prefix (vw_path W m) (vw_path W h)) H"
      using fresh by (intro filter_mset_cong) auto
    then show ?thesis using False by (simp add: held_def)
  qed
qed

text \<open>What an insertion does: the content gains the prefixes of the new path.\<close>

definition inserted :: "nat multiset \<Rightarrow> radix_cache \<Rightarrow> view \<Rightarrow> tag list \<Rightarrow> nat list \<Rightarrow> nat \<Rightarrow> radix_cache \<Rightarrow> view \<Rightarrow> bool" where
  "inserted H s W K val l s' W' \<longleftrightarrow> cache_ok s' W' H \<and> cache_config s' = cache_config s \<and> rc_pool s' = rc_pool s \<and>
     rc_evictable_size s' = rc_evictable_size s + int (length K - l) \<and> rc_protected_size s' = rc_protected_size s \<and>
     slot_bag s' W' = slot_bag s W + mset (drop l val) \<and> view_le W W' \<and> l \<le> length K \<and> longest (rc_page_size s) W K l \<and>
     (\<exists>old. stored (rc_page_size s) W (take l K) old \<and>
       (\<forall>us vs. stored (rc_page_size s) W' us vs \<longleftrightarrow> stored (rc_page_size s) W us vs \<or>
          rc_page_size s dvd length us \<and> prefix us K \<and> vs = take (length us) (old @ drop l val)))"

lemma leaf_bag:
  assumes ok: "tree_ok s W" and n: "n \<in> vw_live W" and s': "leaf_at s n key val s'"
  shows "slot_bag s' (extend_view (rc_next s) us vs W) = slot_bag s W + mset val"
proof -
  let ?new = "rc_next s"
  note cfg = config_eqD [OF s' [unfolded leaf_at_def, THEN conjunct1]]
  have fresh: "?new \<notin> vw_live W" "rc_root s \<noteq> ?new" "n \<noteq> ?new" using tree_ok_root(2) [OF ok] tree_ok_root(5) [OF ok, of ?new] n by auto
  have val: "tn_value (nd s' m) = (if m = ?new then val else tn_value (nd s m))" for m
    using s' fresh by (cases "m = ?new"; cases "m = n"; simp add: leaf_at_def node_core_def)
  have live: "vw_live (extend_view ?new us vs W) - {rc_root s} = insert ?new (vw_live W - {rc_root s})" using fresh by auto
  have "(\<Sum>m\<in>vw_live W - {rc_root s}. mset (tn_value (nd s' m))) = (\<Sum>m\<in>vw_live W - {rc_root s}. mset (tn_value (nd s m)))"
    using fresh by (intro sum.cong) (auto simp: val)
  then show ?thesis unfolding slot_bag_def cfg live using fresh tree_ok_root(6) [OF ok] by (simp add: val add.commute)
qed

lemma leaf_stored:
  assumes "rc_next s \<notin> vw_live W"
  shows "stored p (extend_view (rc_next s) us vs W) xs ys \<longleftrightarrow> stored p W xs ys \<or> p dvd length xs \<and> prefix xs us \<and> ys = take (length xs) vs"
proof -
  have "(\<exists>m\<in>insert (rc_next s) (vw_live W). prefix xs (vw_path (extend_view (rc_next s) us vs W) m) \<and> ys = take (length xs) (vw_slots (extend_view (rc_next s) us vs W) m))
    \<longleftrightarrow> prefix xs us \<and> ys = take (length xs) vs \<or> (\<exists>m\<in>vw_live W. prefix xs (vw_path W m) \<and> ys = take (length xs) (vw_slots W m))"
    using assms by auto
  then show ?thesis unfolding stored_def by auto
qed

lemma insert_leaf_ok:
  assumes ok: "cache_ok s W H" and rest: "rest_ok s W n key" "0 < rk_len key" and val: "length val = rk_len key"
    and no: "map_of (tn_children (nd s n)) (first_page (tags key) (rc_page_size s)) = None" and s': "leaf_at s n key val s'"
    and pre: "length pre = length (vw_path W n)"
  shows "inserted H s W (vw_path W n @ tags key) (pre @ val) (length (vw_path W n)) s'
    (extend_view (rc_next s) (vw_path W n @ tags key) (vw_slots W n @ val) W)"
proof -
  have t: "tree_ok s W" "set_mset H \<subseteq> vw_live W" "locks_ok s W (held W H)" using ok by (simp_all add: cache_ok_def)
  have n: "n \<in> vw_live W" using rest by (simp add: rest_ok_def)
  have fresh: "rc_next s \<notin> vw_live W" using tree_ok_root(5) [OF t(1)] by blast
  have "cache_ok s' (extend_view (rc_next s) (vw_path W n @ tags key) (vw_slots W n @ val) W) H"
    unfolding cache_ok_def using leaf_tree_ok [OF t(1) rest val no s'] leaf_locks_ok [OF t(1) n s' t(3)] leaf_held [OF t(1) rest t(2) no] t(2)
    by auto
  moreover have "stored (rc_page_size s) W (vw_path W n) (vw_slots W n)"
    by (rule stored_node [OF t(1) n])
  moreover have "longest (rc_page_size s) W (vw_path W n @ tags key) (length (vw_path W n))"
    using stop_longest [OF t(1) rest(1)] no by simp
  moreover have "view_le W (extend_view (rc_next s) (vw_path W n @ tags key) (vw_slots W n @ val) W)"
    using fresh by (auto simp: view_le_def)
  ultimately show ?thesis unfolding inserted_def using s' pre leaf_stored [OF fresh] leaf_bag [OF t(1) n s']
    by (auto simp: leaf_at_def intro!: exI [of _ "vw_slots W n"])
qed

section \<open>The descent\<close>

lemma meta_same:
  assumes "same_content H s W s' W'" "meta_eq s' s''"
  shows "same_content H s W s'' W'"
  using same_content_trans [OF assms(1) same_content_meta [OF same_contentD(1) [OF assms(1)] assms(2)]] .

lemma meta_rest_ok: "meta_eq s s' \<Longrightarrow> rest_ok s' W n key = rest_ok s W n key"
  by (simp add: rest_ok_def meta_eqD)

definition reached :: "nat multiset \<Rightarrow> radix_cache \<Rightarrow> view \<Rightarrow> tag list \<Rightarrow> nat list \<Rightarrow> nat \<Rightarrow> radix_key \<Rightarrow> nat list \<Rightarrow> ckey \<Rightarrow> radix_cache \<Rightarrow> view \<Rightarrow> bool" where
  "reached H s W K val m key' val' ck' s' W' \<longleftrightarrow> same_content H s W s' W' \<and> rest_ok s' W' m key' \<and> vw_path W' m @ tags key' = K \<and>
     val' = drop (length val - rk_len key') val \<and>
     (0 < rk_len key' \<longrightarrow> ck' = first_page (tags key') (rc_page_size s') \<and> map_of (tn_children (nd s' m)) ck' = None)"

lemma reached_trans:
  assumes "same_content H s W s' W'" "reached H s' W' K (drop i val) m key' val' ck' s'' W''" "rk_len key' + i \<le> length val"
  shows "reached H s W K val m key' val' ck' s'' W''"
  using assms same_content_trans unfolding reached_def by (auto simp: diff_diff_left add.commute)

lemma insert_loop_ok:
  assumes "cache_ok s W H" "rest_ok s W n key" "length val = rk_len key" "0 < rk_len key \<Longrightarrow> ck = first_page (tags key) (rc_page_size s)"
  shows "\<exists>m key' val' ck' s' W'. insert_loop s n key val ck now priority chunked l =
      Some (Inr (m, key', val', ck', l + (rk_len key - rk_len key'), s')) \<and> rk_len key' \<le> rk_len key \<and>
      reached H s W (vw_path W n @ tags key) val m key' val' ck' s' W'"
  using assms
proof (induction "rk_len key" arbitrary: s W n key val ck l rule: less_induct)
  case less
  show ?case
  proof (cases "0 < rk_len key \<and> map_of (tn_children (nd s n)) ck \<noteq> None")
    case False
    then have "insert_loop s n key val ck now priority chunked l = Some (Inr (n, key, val, ck, l, s))" by (auto simp: insert_loop.simps)
    moreover have "reached H s W (vw_path W n @ tags key) val n key val ck s W"
      using False less.prems by (auto simp: reached_def same_content_def)
    ultimately show ?thesis by (intro exI conjI) auto
  next
    case True
    then obtain c where child: "map_of (tn_children (nd s n)) (first_page (tags key) (rc_page_size s)) = Some c"
      and pos: "0 < rk_len key" and ck: "ck = first_page (tags key) (rc_page_size s)" using less.prems(4) by auto
    define t where "t = touch now c s"
    have meta: "meta_eq s t" by (simp add: t_def)
    note te = meta_eqD [OF meta]
    have tc: "same_content H s W t W" by (rule same_content_meta [OF less.prems(1) meta])
    have ok: "cache_ok t W H" "tree_ok t W" using tc by (simp_all add: same_contentD)
    have rest: "rest_ok t W n key" using less.prems(2) meta_rest_ok [OF meta] by simp
    have child': "map_of (tn_children (nd t n)) (first_page (tags key) (rc_page_size t)) = Some c" using child by (simp add: te)
    obtain L where L: "rk_match (tn_key (nd t c)) key (rc_page_size t) = Inr L" "rc_page_size t dvd L" "0 < L" "L \<le> seg_len t c" "L \<le> rk_len key"
      "take L (tags (tn_key (nd t c))) = take L (tags key)" "rk_extra (tn_key (nd t c)) = rk_extra key"
      "\<And>i. rc_page_size t dvd i \<Longrightarrow> i \<le> seg_len t c \<Longrightarrow> i \<le> rk_len key \<Longrightarrow> take i (tags (tn_key (nd t c))) = take i (tags key) \<Longrightarrow> i \<le> L"
      using descend [OF ok(2) rest pos child'] by metis
    define step where "step = (if L < rk_len (tn_key (nd t c))
        then rbind (split_node (tn_key (nd t c)) c L t) (\<lambda>(new, s). Inr (new, inc_hit_count chunked new (raise_priority priority new s)))
        else Inr (c, inc_hit_count chunked c (raise_priority priority c t)))"
    have hit: "meta_eq r (inc_hit_count chunked x (raise_priority priority x r))" for x r
      by (rule meta_eq_trans [OF meta_ops(2,3)])
    have "\<exists>x u W'. step = Inr (x, u) \<and> same_content H t W u W' \<and> rest_ok u W' x (rk_from key L) \<and>
        vw_path W' x @ tags (rk_from key L) = vw_path W n @ tags key"
    proof (cases "L < seg_len t c")
      case True
      obtain s' W' where s': "split_node (tn_key (nd t c)) c L t = Inr (rc_next t, s')" "same_content H t W s' W'"
        "rest_ok s' W' (rc_next t) (rk_from key L)" "vw_path W' (rc_next t) = vw_path W n @ take L (tags key)"
        "vw_slots W' (rc_next t) = vw_slots W n @ tn_value (nd s' (rc_next t))"
        "L < rk_len key \<longrightarrow> map_of (tn_children (nd s' (rc_next t))) (first_page (tags (rk_from key L)) (rc_page_size s')) = None"
        by (rule descend_split [OF ok(1) rest pos child' L(2,3) True L(5-8)])
      have "step = Inr (rc_next t, inc_hit_count chunked (rc_next t) (raise_priority priority (rc_next t) s'))"
        using True by (simp add: step_def s'(1) seg_len_def)
      then show ?thesis using meta_same [OF s'(2) hit] s'(3,4) meta_rest_ok [OF hit] by fastforce
    next
      case False
      then have Lc: "L = seg_len t c" using L(4) by simp
      note down = rest_ok_down [OF ok(2) rest child' L(6) [unfolded Lc] L(7), folded Lc]
      have "step = Inr (c, inc_hit_count chunked c (raise_priority priority c t))"
        using False by (simp add: step_def seg_len_def)
      then show ?thesis using same_content_meta [OF ok(1) hit] down meta_rest_ok [OF hit] by fastforce
    qed
    then obtain x u W' where u: "step = Inr (x, u)" "same_content H t W u W'" "rest_ok u W' x (rk_from key L)"
      "vw_path W' x @ tags (rk_from key L) = vw_path W n @ tags key" by blast
    have su: "same_content H s W u W'" by (rule same_content_trans [OF tc u(2)])
    have ck': "child_key (rk_from key L) (rc_page_size u) = Inr (first_page (drop L (tags key)) (rc_page_size u))" if "\<not> rk_len key \<le> L"
      using that rest_page [OF u(3)] tree_ok_root(1) [OF same_contentD(8) [OF su]] child_key_first [of "rc_page_size u" "rk_from key L"] by simp
    let ?ck = "if rk_len (rk_from key L) \<noteq> 0 then first_page (tags (rk_from key L)) (rc_page_size u) else ck"
    have run: "insert_loop s n key val ck now priority chunked l
      = insert_loop u x (rk_from key L) (drop L val) ?ck now priority chunked (l + L)"
      using pos u(1) ck' unfolding step_def
      by (subst insert_loop.simps) (simp add: ck child t_def [symmetric] L(1) Let_def)
    have lt: "rk_len (rk_from key L) < rk_len key" and len: "length (drop L val) = rk_len (rk_from key L)" using pos L(3) less.prems(3) by simp_all
    have ckp: "0 < rk_len (rk_from key L) \<Longrightarrow> ?ck = first_page (tags (rk_from key L)) (rc_page_size u)" by simp
    have "\<exists>m key' val' ck' s' W''. insert_loop u x (rk_from key L) (drop L val) ?ck now priority chunked (l + L) =
        Some (Inr (m, key', val', ck', l + L + (rk_len (rk_from key L) - rk_len key'), s')) \<and> rk_len key' \<le> rk_len (rk_from key L) \<and>
      reached H u W' (vw_path W' x @ tags (rk_from key L)) (drop L val) m key' val' ck' s' W''"
      by (rule less.hyps [OF lt same_contentD(1) [OF su] u(3) len]) (rule ckp)
    then obtain m key' val' ck'' s' W'' where ih: "insert_loop u x (rk_from key L) (drop L val) ?ck now priority chunked (l + L) =
        Some (Inr (m, key', val', ck'', l + L + (rk_len (rk_from key L) - rk_len key'), s'))" "rk_len key' \<le> rk_len (rk_from key L)"
      "reached H u W' (vw_path W' x @ tags (rk_from key L)) (drop L val) m key' val' ck'' s' W''"
      by (elim exE conjE)
    have "reached H s W (vw_path W n @ tags key) val m key' val' ck'' s' W''"
      using reached_trans [OF su] ih(2,3) u(4) less.prems(3) L(5) by simp
    moreover have "l + L + (rk_len (rk_from key L) - rk_len key') = l + (rk_len key - rk_len key')" using ih(2) L(5) by simp
    moreover have "rk_len key' \<le> rk_len key" using ih(2) by simp
    ultimately show ?thesis unfolding run ih(1) by (intro exI conjI) (rule refl | assumption | simp only:)+
  qed
qed

section \<open>\<open>insert\<close>\<close>

definition insert_slots :: "radix_key \<Rightarrow> nat list option \<Rightarrow> nat list" where
  "insert_slots key val = (case val of Some v \<Rightarrow> take (rk_len key) v | None \<Rightarrow> map nat (take (rk_len key) (rk_tokens key)))"

lemma length_insert_slots: "(\<And>v. val = Some v \<Longrightarrow> rk_len key \<le> length v) \<Longrightarrow> length (insert_slots key val) = rk_len key"
  by (cases val) (auto simp: insert_slots_def rk_len_def Let_def)

lemma bigram_view_slots:
  "insert_slots (page_aligned p (fst (maybe_to_bigram_view e key val))) (snd (maybe_to_bigram_view e key val)) =
   insert_slots (page_aligned p (fst (maybe_to_bigram_view e key None))) val"
proof (cases val)
  case None
  then show ?thesis by (simp add: maybe_to_bigram_view_def Let_def)
next
  case (Some v)
  have "p = 0 \<or> rk_len k div p * p \<le> rk_len k" for k by simp
  then have "min (rk_len k div p * p) (rk_len k) = rk_len k div p * p" for k by (cases "p = 0") auto
  then show ?thesis using Some by (auto simp: insert_slots_def maybe_to_bigram_view_def Let_def min.commute)
qed

lemma stored_prefix: "stored p W us vs \<Longrightarrow> prefix xs us \<Longrightarrow> p dvd length xs \<Longrightarrow> stored p W xs (take (length xs) vs)"
  unfolding stored_def by (auto dest: prefix_length_le intro: prefix_order.trans intro!: bexI simp: min_def)

lemma inserted_trans:
  assumes "same_content H s W s' W'" "inserted H s' W' K val l s'' W''"
  shows "inserted H s W K val l s'' W''"
  using assms view_le_trans [of W W' W''] longest_same [OF assms(1)] unfolding inserted_def same_content_def by (simp add: config_eqD [of s' s])

lemma insert_helper_ok:
  assumes ok: "cache_ok s W H" and rest: "rest_ok s W (rc_root s) key" and val: "length val = rk_len key"
  shows "\<exists>l s' W'. insert_helper s (rc_root s) key val priority chunked = Some (Inr (l, s')) \<and> inserted H s W (tags key) val l s' W'"
proof -
  define pr where "pr = (case priority of None \<Rightarrow> 0 | Some p \<Rightarrow> p)"
  obtain u where u: "monotonic s = (rc_clock s (rc_ticks s), u)" "meta_eq s u"
    using meta_ops(4) [of s] by (cases "monotonic s") (simp add: monotonic_def)
  define t where "t = raise_priority pr (rc_root s) (touch (rc_clock s (rc_ticks s)) (rc_root s) u)"
  have meta: "meta_eq s t" unfolding t_def by (rule meta_eq_trans [OF meta_eq_trans [OF u(2) meta_ops(1)] meta_ops(2)])
  have tc: "same_content H s W t W" by (rule same_content_meta [OF ok meta])
  have tt: "tree_ok s W" using ok by (simp add: cache_ok_def)
  note root = tree_ok_root [OF tt]
  have rest': "rest_ok t W (rc_root s) key" using rest meta_rest_ok [OF meta] by simp
  show ?thesis
  proof (cases "rk_len key = 0")
    case True
    have "insert_helper s (rc_root s) key val priority chunked = Some (Inr (0, t))"
      using True by (simp add: insert_helper_def u(1) t_def pr_def Let_def)
    moreover have "longest (rc_page_size s) W [] 0" "stored (rc_page_size s) W [] []"
      using root(2) by (auto simp: longest_def stored_def)
    moreover have "tags key = []" using True by simp
    moreover have "inserted H s W [] val 0 t W"
      using calculation(2,3) tc val True by (auto simp: inserted_def same_content_def)
    ultimately show ?thesis by metis
  next
    case False
    let ?ck = "first_page (tags key) (rc_page_size t)"
    have ck: "child_key key (rc_page_size t) = Inr ?ck"
      using False rest_page [OF rest'] root(1) by (intro child_key_first) (simp_all add: meta_eqD [OF meta])
    have "\<exists>m key' val' ck' s' W'. insert_loop t (rc_root s) key val ?ck (rc_clock s (rc_ticks s)) pr chunked 0 =
        Some (Inr (m, key', val', ck', 0 + (rk_len key - rk_len key'), s')) \<and> rk_len key' \<le> rk_len key \<and>
        reached H t W (vw_path W (rc_root s) @ tags key) val m key' val' ck' s' W'"
      by (rule insert_loop_ok [OF same_contentD(1) [OF tc] rest' val refl])
    then obtain m key' val' ck' s' W' where r: "insert_loop t (rc_root s) key val ?ck (rc_clock s (rc_ticks s)) pr chunked 0 =
        Some (Inr (m, key', val', ck', 0 + (rk_len key - rk_len key'), s'))" "rk_len key' \<le> rk_len key"
      "reached H t W (vw_path W (rc_root s) @ tags key) val m key' val' ck' s' W'"
      by (elim exE conjE)
    have run: "insert_helper s (rc_root s) key val priority chunked =
        Some (Inr (rk_len key - rk_len key', if rk_len key' \<noteq> 0 then insert_leaf s' m key' val' ck' pr chunked else s'))"
      using False ck r(1) by (simp add: insert_helper_def u(1) t_def [symmetric] pr_def [symmetric] Let_def)
    have sc: "same_content H s W s' W'" using same_content_trans [OF tc] r(3) by (simp add: reached_def)
    note ok' = same_contentD(1,8) [OF sc]
    have path: "vw_path W' m @ tags key' = tags key" and rest'': "rest_ok s' W' m key'" using r(3) root by (simp_all add: reached_def)
    have len: "length (vw_path W' m) = rk_len key - rk_len key'" using arg_cong [OF path, of length] by simp
    have m: "m \<in> vw_live W'" using rest'' by (simp add: rest_ok_def)
    show ?thesis
    proof (cases "rk_len key' = 0")
      case True
      then have pk: "vw_path W' m = tags key" using path by (metis append_Nil2 tags_Nil)
      have st: "stored (rc_page_size s') W' (tags key) (vw_slots W' m)"
        using stored_node [OF ok'(2) m] pk by simp
      have "inserted H s' W' (tags key) val (rk_len key) s' W'"
        unfolding inserted_def using ok' st val stored_prefix [OF st]
        by (auto simp: longest_def dest: prefix_length_le intro!: exI [of _ "vw_slots W' m"])
      from inserted_trans [OF sc this] show ?thesis using run True by auto
    next
      case False
      have no: "map_of (tn_children (nd s' m)) (first_page (tags key') (rc_page_size s')) = None"
        and ck': "ck' = first_page (tags key') (rc_page_size s')" and v': "val' = drop (length (vw_path W' m)) val"
        using r(3) False len val by (auto simp: reached_def)
      have vl: "length val' = rk_len key'" using v' len val r(2) by simp
      have at: "leaf_at s' m key' val' (insert_leaf s' m key' val' ck' pr chunked)"
        unfolding ck' by (rule insert_leaf_at) (rule tree_ok_root(5) [OF ok'(2) m])
      have "inserted H s' W' (vw_path W' m @ tags key') (take (length (vw_path W' m)) val @ val') (length (vw_path W' m))
          (insert_leaf s' m key' val' ck' pr chunked)
          (extend_view (rc_next s') (vw_path W' m @ tags key') (vw_slots W' m @ val') W')"
        using False len val by (intro insert_leaf_ok [OF ok'(1) rest'' _ vl no at]) simp_all
      from inserted_trans [OF sc this] have "\<exists>W''. inserted H s W (tags key) val (rk_len key - rk_len key') (insert_leaf s' m key' val' ck' pr chunked) W''"
        unfolding path v' append_take_drop_id len by blast
      then show ?thesis using run False by simp
    qed
  qed
qed

lemma insert_prefix_ok:
  assumes ok: "cache_ok s W H" and key: "rk_bigram key \<longrightarrow> rc_is_eagle s" and on: "\<not> rc_disable s"
    and val: "\<And>v. val = Some v \<Longrightarrow> rk_len (cache_key s key) \<le> length v"
  shows "\<exists>l s' W'. insert_prefix s key val priority chunked = Some (Inr (l, s')) \<and>
    inserted H s W (tags (cache_key s key)) (insert_slots (cache_key s key) val) l s' W'"
proof -
  let ?k = "cache_key s key"
  have t: "tree_ok s W" using ok by (simp add: cache_ok_def)
  let ?M = "maybe_to_bigram_view (rc_is_eagle s) key val"
  have "fst ?M = fst (maybe_to_bigram_view (rc_is_eagle s) key None)" by (cases val) simp_all
  then have k: "page_aligned (rc_page_size s) (fst ?M) = ?k" by (simp add: cache_key_def)
  have "insert_prefix s key val priority chunked = insert_helper s (rc_root s) (page_aligned (rc_page_size s) (fst ?M))
      (insert_slots (page_aligned (rc_page_size s) (fst ?M)) (snd ?M)) priority chunked"
    using on by (simp only: insert_prefix_def Let_def split_beta insert_slots_def if_False)
  then have "insert_prefix s key val priority chunked = insert_helper s (rc_root s) ?k (insert_slots ?k val) priority chunked"
    using bigram_view_slots [of "rc_page_size s" "rc_is_eagle s" key val] unfolding k cache_key_def by simp
  then show ?thesis using insert_helper_ok [OF ok rest_ok_cache_key [OF t key] length_insert_slots [OF val]] by simp
qed

end
