(* ===== verification/Radix_Locks.thy ===== *)
theory Radix_Locks
  imports Radix_Insert
begin

text \<open>
  Reference counts of the prefix cache: \<open>inc_lock_ref\<close> and \<open>dec_lock_ref\<close> walk from a node to the root.
  \<open>relock_ok\<close> is the change of one count, \<open>inc_lock_ref_ok\<close> and \<open>dec_lock_ref_ok\<close> are the walks. Their effect on the counts is to
  hold one handle more, or one less, and the returned \<open>delta\<close> is the change of the evictable size.
\<close>

section \<open>One count\<close>

lemma locks_ok_cong: "(\<And>n. n \<in> vw_live W \<Longrightarrow> n \<noteq> rc_root s \<Longrightarrow> f n = g n) \<Longrightarrow> locks_ok s W f = locks_ok s W g"
proof -
  assume eq: "\<And>n. n \<in> vw_live W \<Longrightarrow> n \<noteq> rc_root s \<Longrightarrow> f n = g n"
  have "{n. n \<in> vw_live W - {rc_root s} \<and> P (f n)} = {n. n \<in> vw_live W - {rc_root s} \<and> P (g n)}" for P using eq by auto
  note sets = this [of "\<lambda>k. k = 0"] this [of "\<lambda>k. 0 < k"]
  have "{n \<in> vw_live W - {rc_root s}. f n = 0 \<and> tn_children (nd s n) = []} = {n \<in> vw_live W - {rc_root s}. g n = 0 \<and> tn_children (nd s n) = []}"
    using eq by auto
  then show ?thesis unfolding locks_ok_def sets using eq by auto
qed

definition relocked :: "radix_cache \<Rightarrow> nat \<Rightarrow> nat \<Rightarrow> nat \<Rightarrow> radix_cache \<Rightarrow> bool" where
  "relocked s n i k s' \<longleftrightarrow> cache_config s' = cache_config s \<and> rc_next s' = rc_next s \<and> rc_pool s' = rc_pool s \<and>
     (\<forall>m. tn_children (nd s' m) = tn_children (nd s m) \<and> tn_parent (nd s' m) = tn_parent (nd s m) \<and> tn_key (nd s' m) = tn_key (nd s m) \<and>
        tn_value (nd s' m) = tn_value (nd s m) \<and> tn_lock_ref (nd s' m) = (if m = n then int k else tn_lock_ref (nd s m))) \<and>
     rc_evictable_size s' = rc_evictable_size s + (if k = 0 then int (seg_len s n) else 0) - (if i = 0 then int (seg_len s n) else 0) \<and>
     rc_protected_size s' = rc_protected_size s + (if 0 < k then int (seg_len s n) else 0) - (if 0 < i then int (seg_len s n) else 0) \<and>
     (distinct (rc_evictable_leaves s) \<longrightarrow> distinct (rc_evictable_leaves s')) \<and>
     set (rc_evictable_leaves s') = (if 0 < k \<or> tn_children (nd s n) \<noteq> [] then set (rc_evictable_leaves s) - {n} else insert n (set (rc_evictable_leaves s)))"

lemma relocked_tree:
  assumes "relocked s n i k s'"
  shows "tree_ok s' W = tree_ok s W" "linked s' W q m = linked s W q m"
proof -
  note cfg = config_eqD [OF assms [unfolded relocked_def, THEN conjunct1]]
  have eq: "tn_children (nd s' m) = tn_children (nd s m)" "tn_parent (nd s' m) = tn_parent (nd s m)" "tn_key (nd s' m) = tn_key (nd s m)"
    "tn_value (nd s' m) = tn_value (nd s m)" "rc_next s' = rc_next s" for m using assms by (simp_all add: relocked_def)
  show link: "linked s' W q m = linked s W q m" for q m unfolding linked_def cfg eq ..
  show "tree_ok s' W = tree_ok s W" unfolding tree_ok_def cfg eq link ..
qed

lemma sum_if_fun_upd:
  assumes "finite A" "x \<in> A"
  shows "int (\<Sum>n | n \<in> A \<and> P ((f(x := k)) n). g n) = int (\<Sum>n | n \<in> A \<and> P (f n). g n) + (if P k then int (g x) else 0) - (if P (f x) then int (g x) else (0 :: int))"
proof -
  have rest: "int (\<Sum>n | n \<in> A \<and> P ((f(x := k)) n). g n) = (if P k then int (g x) else 0) + int (\<Sum>n | n \<in> A - {x} \<and> P (f n). g n)" for k f
  proof -
    have "{n. n \<in> A \<and> P ((f(x := k)) n)} = (if P k then insert x {n. n \<in> A - {x} \<and> P (f n)} else {n. n \<in> A - {x} \<and> P (f n)})"
      using assms(2) by auto
    then show ?thesis using assms(1) by simp
  qed
  show ?thesis using rest [of f k] rest [of f "f x"] by simp
qed

lemma relock_ok:
  assumes ok: "tree_ok s W" and n: "n \<in> vw_live W" "n \<noteq> rc_root s" and locks: "locks_ok s W f" and s': "relocked s n (f n) k s'"
  shows "locks_ok s' W (f(n := k))"
proof -
  note cfg = config_eqD [OF s' [unfolded relocked_def, THEN conjunct1]]
  have seg: "seg_len s' = seg_len s" using s' by (simp add: relocked_def seg_len_def fun_eq_iff)
  have A: "finite (vw_live W - {rc_root s})" "n \<in> vw_live W - {rc_root s}" using n tree_ok_root(6) [OF ok] by auto
  note sums = sum_if_fun_upd [OF A, where P = "\<lambda>k. k = 0" and f = f and k = k and g = "seg_len s"]
    sum_if_fun_upd [OF A, where P = "\<lambda>k. 0 < k" and f = f and k = k and g = "seg_len s"]
  have "\<forall>m\<in>vw_live W. m \<noteq> rc_root s \<longrightarrow> tn_lock_ref (nd s' m) = int ((f(n := k)) m)" "0 < tn_lock_ref (nd s' (rc_root s))"
    using s' locks n(2) by (auto simp: relocked_def locks_ok_def)
  moreover have "rc_evictable_size s' = int (\<Sum>m | m \<in> vw_live W - {rc_root s} \<and> (f(n := k)) m = 0. seg_len s m)"
    unfolding sums using s' locks by (simp add: relocked_def locks_ok_def)
  moreover have "rc_protected_size s' = int (\<Sum>m | m \<in> vw_live W - {rc_root s} \<and> 0 < (f(n := k)) m. seg_len s m)"
    unfolding sums using s' locks by (simp add: relocked_def locks_ok_def)
  moreover have "distinct (rc_evictable_leaves s')" using s' locks by (simp add: relocked_def locks_ok_def)
  moreover have "set (rc_evictable_leaves s') = {m \<in> vw_live W - {rc_root s}. (f(n := k)) m = 0 \<and> tn_children (nd s' m) = []}"
    using s' locks n by (auto simp: relocked_def locks_ok_def)
  ultimately show ?thesis unfolding locks_ok_def cfg seg by blast
qed

section \<open>The walk\<close>

lemma path_parent:
  assumes ok: "tree_ok s W" and n: "n \<in> vw_live W" and m: "m \<in> vw_live W" "linked s W q m" and q: "q \<in> vw_live W"
  shows "prefix (vw_path W n) (vw_path W m) \<longleftrightarrow> n = m \<or> prefix (vw_path W n) (vw_path W q)"
proof
  assume le: "prefix (vw_path W n) (vw_path W m)"
  consider "prefix (vw_path W n) (vw_path W q)" | "strict_prefix (vw_path W q) (vw_path W n)"
    using le linked_prefix [OF m(2)] by (metis prefix_order.le_less prefix_same_cases)
  then show "n = m \<or> prefix (vw_path W n) (vw_path W q)"
  proof cases
    case 2
    then obtain c where c: "linked s W q c" "prefix (vw_path W c) (vw_path W n)"
      using path_step [OF ok q n] by (metis prefix_order.less_imp_le prefix_order.less_irrefl)
    then have "c = m" using same_child [OF ok c(1) m(2), of "vw_path W m"] le by (meson prefix_order.order_refl prefix_order.trans)
    then have "vw_path W n = vw_path W m" using c(2) le by (meson prefix_order.antisym)
    then show ?thesis using path_inj [OF ok n m(1)] by simp
  qed simp
next
  assume "n = m \<or> prefix (vw_path W n) (vw_path W q)"
  then show "prefix (vw_path W n) (vw_path W m)" using linked_prefix [OF m(2)] by (auto intro: prefix_order.trans)
qed

definition on_path :: "view \<Rightarrow> nat \<Rightarrow> nat \<Rightarrow> nat" where
  "on_path W h n = of_bool (prefix (vw_path W n) (vw_path W h))"

lemma held_add: "held W (add_mset h H) n = held W H n + on_path W h n"
  by (simp add: held_def on_path_def)

lemma inc_step:
  assumes "tn_lock_ref (nd s n) = int i"
  shows "relocked s n i (Suc i) (update_leaf_status n (upd_node n (\<lambda>n. n\<lparr> tn_lock_ref := tn_lock_ref n + 1 \<rparr>)
    (if i = 0 then s\<lparr> rc_evictable_size := rc_evictable_size s - int (seg_len s n), rc_protected_size := rc_protected_size s + int (seg_len s n) \<rparr> else s)))"
  using assms by (simp add: relocked_def update_leaf_status_leaves upd_node_def)

lemma dec_step:
  assumes "tn_lock_ref (nd s n) = int (Suc k)"
  shows "relocked s n (Suc k) k (update_leaf_status n (upd_node n (\<lambda>n. n\<lparr> tn_lock_ref := tn_lock_ref n - 1 \<rparr>)
    (if k = 0 then s\<lparr> rc_evictable_size := rc_evictable_size s + int (seg_len s n), rc_protected_size := rc_protected_size s - int (seg_len s n) \<rparr> else s)))"
  using assms by (simp add: relocked_def update_leaf_status_leaves upd_node_def)

text \<open>What a walk keeps, and what it returns.\<close>

definition walked :: "radix_cache \<Rightarrow> view \<Rightarrow> (nat \<Rightarrow> nat) \<Rightarrow> int \<Rightarrow> radix_cache \<Rightarrow> bool" where
  "walked s W f d s' \<longleftrightarrow> tree_ok s' W \<and> locks_ok s' W f \<and> cache_config s' = cache_config s \<and> rc_next s' = rc_next s \<and> rc_pool s' = rc_pool s \<and>
     rc_evictable_size s' = rc_evictable_size s + d \<and> rc_protected_size s' = rc_protected_size s - d \<and>
     (\<forall>m. tn_value (nd s' m) = tn_value (nd s m) \<and> tn_key (nd s' m) = tn_key (nd s m))"

lemma inc_lock_ref_ok:
  assumes "tree_ok s W" "n \<in> vw_live W" "locks_ok s W f"
  shows "\<exists>e s'. inc_lock_ref s n d = Some (Inr (d + e, s')) \<and> walked s W (\<lambda>m. f m + on_path W n m) e s'"
  using assms
proof (induction "length (vw_path W n)" arbitrary: s n f d rule: less_induct)
  case less
  show ?case
  proof (cases "n = rc_root s")
    case True
    have "locks_ok s W (\<lambda>m. f m + on_path W n m) = locks_ok s W f"
      using path_Nil [OF less.prems(1)] tree_ok_root(3) [OF less.prems(1)] True by (intro locks_ok_cong) (auto simp: on_path_def)
    then show ?thesis using True less.prems by (auto simp: inc_lock_ref.simps walked_def)
  next
    case False
    obtain q where q: "q \<in> vw_live W" "linked s W q n" using tree_ok_parent [OF less.prems(1,2) False] .
    have lock: "tn_lock_ref (nd s n) = int (f n)" using less.prems False by (simp add: locks_ok_def)
    define e where "e = (if f n = 0 then - int (seg_len s n) else 0)"
    define t where "t = update_leaf_status n (upd_node n (\<lambda>n. n\<lparr> tn_lock_ref := tn_lock_ref n + 1 \<rparr>)
      (if f n = 0 then s\<lparr> rc_evictable_size := rc_evictable_size s - int (seg_len s n), rc_protected_size := rc_protected_size s + int (seg_len s n) \<rparr> else s))"
    have re: "relocked s n (f n) (Suc (f n)) t" unfolding t_def by (rule inc_step [OF lock])
    note tr = relocked_tree [OF re] and cfg = config_eqD [OF re [unfolded relocked_def, THEN conjunct1]]
    have run: "inc_lock_ref s n d = inc_lock_ref t q (d + e)"
      using False lock linkedD(1) [OF q(2)] by (subst inc_lock_ref.simps) (simp add: t_def e_def seg_len_def Let_def)
    obtain e' s' where ih: "inc_lock_ref t q (d + e) = Some (Inr (d + e + e', s'))"
      "walked t W (\<lambda>m. (f(n := Suc (f n))) m + on_path W q m) e' s'"
      using less.hyps [OF linked_longer [OF q(2)], of t "f(n := Suc (f n))" "d + e"] relock_ok [OF less.prems(1,2) False less.prems(3) re] less.prems(1) q(1) tr(1) by blast
    have "locks_ok s' W (\<lambda>m. (f(n := Suc (f n))) m + on_path W q m) = locks_ok s' W (\<lambda>m. f m + on_path W n m)"
    proof (rule locks_ok_cong)
      fix m assume m: "m \<in> vw_live W"
      have "\<not> prefix (vw_path W n) (vw_path W q)" using linked_longer [OF q(2)] by (auto dest: prefix_length_le)
      then show "(f(n := Suc (f n))) m + on_path W q m = f m + on_path W n m"
        using path_parent [OF less.prems(1) m less.prems(2) q(2,1)] by (auto simp: on_path_def)
    qed
    then have "walked s W (\<lambda>m. f m + on_path W n m) (e + e') s'"
      using ih(2) re by (auto simp: walked_def relocked_def e_def)
    then show ?thesis unfolding run ih(1) by (auto simp: add.assoc)
  qed
qed

lemma dec_lock_ref_ok:
  assumes "tree_ok s W" "n \<in> vw_live W" "locks_ok s W f"
    "\<And>m. m \<in> vw_live W \<Longrightarrow> m \<noteq> rc_root s \<Longrightarrow> prefix (vw_path W m) (vw_path W n) \<Longrightarrow> 0 < f m"
  shows "\<exists>e s'. dec_lock_ref s n d = Some (Inr (d + e, s')) \<and> walked s W (\<lambda>m. f m - on_path W n m) e s'"
  using assms
proof (induction "length (vw_path W n)" arbitrary: s n f d rule: less_induct)
  case less
  show ?case
  proof (cases "n = rc_root s")
    case True
    have "locks_ok s W (\<lambda>m. f m - on_path W n m) = locks_ok s W f"
      using path_Nil [OF less.prems(1)] tree_ok_root(3) [OF less.prems(1)] True by (intro locks_ok_cong) (auto simp: on_path_def)
    then show ?thesis using True less.prems by (auto simp: dec_lock_ref.simps walked_def)
  next
    case False
    obtain q where q: "q \<in> vw_live W" "linked s W q n" using tree_ok_parent [OF less.prems(1,2) False] .
    obtain k where k: "f n = Suc k" using less.prems(4) [OF less.prems(2) False] gr0_implies_Suc by blast
    have lock: "tn_lock_ref (nd s n) = int (Suc k)" using less.prems False k by (simp add: locks_ok_def)
    define e where "e = (if k = 0 then int (seg_len s n) else 0)"
    define t where "t = update_leaf_status n (upd_node n (\<lambda>n. n\<lparr> tn_lock_ref := tn_lock_ref n - 1 \<rparr>)
      (if k = 0 then s\<lparr> rc_evictable_size := rc_evictable_size s + int (seg_len s n), rc_protected_size := rc_protected_size s - int (seg_len s n) \<rparr> else s))"
    have re: "relocked s n (f n) k t" unfolding t_def k by (rule dec_step [OF lock])
    note tr = relocked_tree [OF re] and cfg = config_eqD [OF re [unfolded relocked_def, THEN conjunct1]]
    have run: "dec_lock_ref s n d = dec_lock_ref t q (d + e)"
      using False lock linkedD(1) [OF q(2)] by (subst dec_lock_ref.simps) (simp add: t_def e_def seg_len_def Let_def)
    have nq: "\<not> prefix (vw_path W n) (vw_path W q)" using linked_longer [OF q(2)] by (auto dest: prefix_length_le)
    have pos: "0 < (f(n := k)) m" if "m \<in> vw_live W" "m \<noteq> rc_root t" "prefix (vw_path W m) (vw_path W q)" for m
      using that less.prems(4) [of m] linked_prefix [OF q(2)] nq cfg by (auto intro: prefix_order.trans)
    have "tree_ok t W" "locks_ok t W (f(n := k))" using relock_ok [OF less.prems(1,2) False less.prems(3) re] less.prems(1) tr(1) by simp_all
    then have "\<exists>e' s'. dec_lock_ref t q (d + e) = Some (Inr (d + e + e', s')) \<and> walked t W (\<lambda>m. (f(n := k)) m - on_path W q m) e' s'"
      by (rule less.hyps [OF linked_longer [OF q(2)] _ q(1)]) (rule pos)
    then obtain e' s' where ih: "dec_lock_ref t q (d + e) = Some (Inr (d + e + e', s'))"
      "walked t W (\<lambda>m. (f(n := k)) m - on_path W q m) e' s'" by blast
    have "locks_ok s' W (\<lambda>m. (f(n := k)) m - on_path W q m) = locks_ok s' W (\<lambda>m. f m - on_path W n m)"
    proof (rule locks_ok_cong)
      fix m assume m: "m \<in> vw_live W"
      show "(f(n := k)) m - on_path W q m = f m - on_path W n m"
        using path_parent [OF less.prems(1) m less.prems(2) q(2,1)] nq k by (auto simp: on_path_def)
    qed
    then have "walked s W (\<lambda>m. f m - on_path W n m) (e + e') s'"
      using ih(2) re k by (auto simp: walked_def relocked_def e_def)
    then show ?thesis unfolding run ih(1) by (auto simp: add.assoc)
  qed
qed

section \<open>Handles\<close>

definition relocked_cache :: "radix_cache \<Rightarrow> view \<Rightarrow> nat multiset \<Rightarrow> int \<Rightarrow> radix_cache \<Rightarrow> bool" where
  "relocked_cache s W H d s' \<longleftrightarrow> cache_ok s' W H \<and> cache_config s' = cache_config s \<and> rc_pool s' = rc_pool s \<and>
     rc_evictable_size s' = rc_evictable_size s + d \<and> rc_protected_size s' = rc_protected_size s - d \<and> seg_len s' = seg_len s \<and>
     slot_bag s' W = slot_bag s W"

lemma inc_ref_ok:
  assumes "cache_ok s W H" "h \<in> vw_live W" "\<not> rc_disable s"
  shows "\<exists>d s'. inc_ref s h = Some (Inr (d, s')) \<and> relocked_cache s W (add_mset h H) d s'"
proof -
  have t: "tree_ok s W" "set_mset H \<subseteq> vw_live W" "locks_ok s W (held W H)" using assms(1) by (simp_all add: cache_ok_def)
  obtain d s' where r: "inc_lock_ref s h 0 = Some (Inr (0 + d, s'))" "walked s W (\<lambda>m. held W H m + on_path W h m) d s'"
    using inc_lock_ref_ok [OF t(1) assms(2) t(3), of 0] by blast
  have "held W (add_mset h H) = (\<lambda>m. held W H m + on_path W h m)" using held_add by blast
  then have "relocked_cache s W (add_mset h H) d s'"
    using r(2) t(2) assms(2) by (auto simp: relocked_cache_def walked_def cache_ok_def seg_len_def slot_bag_def config_eqD [of s' s])
  then show ?thesis using r(1) assms(3) by (auto simp: inc_ref_def)
qed

lemma dec_ref_ok:
  assumes "cache_ok s W (add_mset h H)" "\<not> rc_disable s"
  shows "\<exists>d s'. dec_ref s h = Some (Inr (d, s')) \<and> relocked_cache s W H d s'"
proof -
  have t: "tree_ok s W" "set_mset H \<subseteq> vw_live W" "h \<in> vw_live W" "locks_ok s W (held W (add_mset h H))"
    using assms(1) by (simp_all add: cache_ok_def)
  have "0 < held W (add_mset h H) m" if "prefix (vw_path W m) (vw_path W h)" for m
    using that by (simp add: held_add on_path_def)
  then obtain d s' where r: "dec_lock_ref s h 0 = Some (Inr (0 + d, s'))" "walked s W (\<lambda>m. held W (add_mset h H) m - on_path W h m) d s'"
    using dec_lock_ref_ok [OF t(1,3,4), of 0] by blast
  have "held W H = (\<lambda>m. held W (add_mset h H) m - on_path W h m)" using held_add by auto
  then have "relocked_cache s W H d s'"
    using r(2) t(2) by (auto simp: relocked_cache_def walked_def cache_ok_def seg_len_def slot_bag_def config_eqD [of s' s])
  then show ?thesis using r(1) assms(2) by (auto simp: dec_ref_def)
qed

end
