(* ===== verification/Radix_Evict.thy ===== *)
theory Radix_Evict
  imports Radix_Locks
begin

text \<open>
  Eviction from the prefix cache.

  \<^item> \<open>delete_leaf_ok\<close>: an evictable leaf goes, and its parent may become one.
  \<^item> The entries of the heap are ordered as Python compares the pairs of a priority and a node; \<open>entry_lt\<close> is a
    \<open>weak_order\<close>, so the lemmas of \<open>Heapq\<close> apply.
  \<^item> \<open>evict_loop_ok\<close>: the loop ends, it evicts unheld nodes in the order of their priorities, frees their slots, and stops
    as soon as it has freed enough or when nothing evictable is left.
\<close>

section \<open>The order on the heap\<close>

lemma tuple_lt_less: "tuple_lt xs ys \<longleftrightarrow> xs < ys"
proof (induction xs ys rule: tuple_lt.induct)
  case (1 x xs y ys)
  then show ?case by (auto simp: Cons_less_Cons)
qed auto

lemma entry_lt_less: "entry_lt s x y \<longleftrightarrow> (fst x, tn_last_access_time (nd s (snd x))) < (fst y, tn_last_access_time (nd s (snd y)))"
  by (auto simp: entry_lt_def tuple_lt_less less_prod_def)

interpretation ent: weak_order "entry_lt s" for s
  by unfold_locales (auto simp: entry_lt_less not_less)

definition entry :: "radix_cache \<Rightarrow> nat \<Rightarrow> int list \<times> nat" where
  "entry s n = (get_priority (rc_strategy s) (nd s n), n)"

lemma snd_entry [simp]: "snd (entry s n) = n"
  by (simp add: entry_def)

section \<open>One leaf\<close>

definition drop_view :: "nat set \<Rightarrow> view \<Rightarrow> view" where
  "drop_view X W = W\<lparr> vw_live := vw_live W - X \<rparr>"

lemma drop_view_simps [simp]:
  "vw_live (drop_view X W) = vw_live W - X" "vw_path (drop_view X W) = vw_path W" "vw_slots (drop_view X W) = vw_slots W"
  by (simp_all add: drop_view_def)

lemma drop_view_drop [simp]: "drop_view X (drop_view Y W) = drop_view (Y \<union> X) W" "drop_view {} W = W"
  by (simp_all add: drop_view_def Diff_Diff_Int Diff_eq Int_assoc)

lemma held_drop [simp]: "held (drop_view X W) H = held W H"
  by (simp add: held_def fun_eq_iff)

definition deleted :: "radix_cache \<Rightarrow> nat \<Rightarrow> nat \<Rightarrow> radix_cache \<Rightarrow> bool" where
  "deleted s q x t \<longleftrightarrow> cache_config t = cache_config s \<and> rc_next t = rc_next s \<and> rc_pool t = rc_pool s \<and>
     rc_evictable_size t = rc_evictable_size s - int (seg_len s x) \<and> rc_protected_size t = rc_protected_size s \<and>
     (\<forall>m. nd t m = (if m = q then (nd s q)\<lparr> tn_children := AList.delete (first_page (tags (tn_key (nd s x))) (rc_page_size s)) (tn_children (nd s q)) \<rparr> else nd s m)) \<and>
     (distinct (rc_evictable_leaves s) \<longrightarrow> distinct (rc_evictable_leaves t)) \<and>
     set (rc_evictable_leaves t) = (if 0 < tn_lock_ref (nd s q) \<or> tn_children (nd t q) \<noteq> [] then set (rc_evictable_leaves s) - {x} - {q}
        else insert q (set (rc_evictable_leaves s) - {x}))"

lemma delete_leaf_at:
  assumes ok: "tree_ok s W" and x: "linked s W q x"
  shows "\<exists>t. delete_leaf x s = Inr t \<and> deleted s q x t"
proof -
  have "child_key (tn_key (nd s x)) (rc_page_size s) = Inr (first_page (tags (tn_key (nd s x))) (rc_page_size s))"
    using linked_page [OF x] tree_ok_root(1) [OF ok] by (intro child_key_first) simp_all
  moreover have "{y \<in> set (rc_evictable_leaves s). y \<noteq> x} = set (rc_evictable_leaves s) - {x}" "x \<noteq> q"
    using linked_longer [OF x] by auto
  ultimately show ?thesis using linkedD(1,8) [OF x]
    by (simp add: delete_leaf_def deleted_def update_leaf_status_leaves Let_def upd_node_def remove_leaf_def seg_len_def)
qed

lemma deleted_tree_ok:
  assumes ok: "tree_ok s W" and x: "x \<in> vw_live W" "linked s W q x" "tn_children (nd s x) = []" and q: "q \<in> vw_live W" and t: "deleted s q x t"
  shows "tree_ok t (drop_view {x} W)"
proof -
  let ?p = "rc_page_size s" let ?fk = "first_page (tags (tn_key (nd s x))) ?p"
  note cfg = config_eqD [OF t [unfolded deleted_def, THEN conjunct1]]
  have nodes: "tn_parent (nd t m) = tn_parent (nd s m)" "tn_key (nd t m) = tn_key (nd s m)" "tn_value (nd t m) = tn_value (nd s m)" for m
    using t by (simp_all add: deleted_def)
  have kids: "map_of (tn_children (nd t m)) = (if m = q then (map_of (tn_children (nd s q)))(?fk := None) else map_of (tn_children (nd s m)))" for m
    using t by (simp add: deleted_def delete_conv')
  have xroot: "x \<noteq> rc_root s" using tree_ok_root(3) [OF ok] linked_longer [OF x(2)] by auto
  have qx: "q \<noteq> x" using linked_longer [OF x(2)] by auto
  have children: "d \<in> vw_live W - {x} \<and> d \<noteq> rc_root s \<and> tn_parent (nd s d) = Some y \<and> ck = first_page (tags (tn_key (nd s d))) ?p"
    if y: "y \<in> vw_live W" and d: "map_of (tn_children (nd t y)) ck = Some d" for y ck d
  proof -
    have old: "map_of (tn_children (nd s y)) ck = Some d" "y = q \<Longrightarrow> ck \<noteq> ?fk" using d kids [of y] by (auto split: if_splits)
    note c = tree_ok_child [OF ok y old(1)]
    have "d \<noteq> x"
    proof
      assume "d = x"
      then have "y = q" using linkedD(1) [OF c(3)] linkedD(1) [OF x(2)] by simp
      then show False using old(2) c(4) \<open>d = x\<close> by simp
    qed
    then show ?thesis using c linkedD(1) by simp
  qed
  have links: "\<exists>r\<in>vw_live W - {x}. linked t (drop_view {x} W) r n" if n: "n \<in> vw_live W - {x}" "n \<noteq> rc_root s" for n
  proof -
    obtain r where r: "r \<in> vw_live W" "linked s W r n" using tree_ok_parent [OF ok _ n(2)] n(1) by blast
    have "r \<noteq> x" using linkedD(8) [OF r(2)] x(3) by auto
    moreover have "r = q \<Longrightarrow> first_page (tags (tn_key (nd s n))) ?p \<noteq> ?fk" using linkedD(8) [OF r(2)] linkedD(8) [OF x(2)] n(1) by auto
    then have "linked t (drop_view {x} W) r n" using r(2) unfolding linked_def cfg nodes by (auto simp: kids)
    ultimately show ?thesis using r(1) by blast
  qed
  show ?thesis unfolding tree_ok_def cfg nodes drop_view_simps
  proof (intro conjI)
    show "vw_live W - {x} \<subseteq> {..<rc_next t}" using t tree_ok_root(5) [OF ok] by (auto simp: deleted_def)
    show "\<forall>q\<in>vw_live W - {x}. \<forall>ck c. map_of (tn_children (nd t q)) ck = Some c \<longrightarrow>
        c \<in> vw_live W - {x} \<and> c \<noteq> rc_root s \<and> tn_parent (nd s c) = Some q \<and> ck = first_page (tags (tn_key (nd s c))) ?p"
      using children by blast
    show "\<forall>n\<in>vw_live W - {x}. n \<noteq> rc_root s \<longrightarrow> (\<exists>q\<in>vw_live W - {x}. linked t (drop_view {x} W) q n)" using links by blast
  qed (use tree_ok_root [OF ok] xroot in simp_all)
qed

lemma deleted_locks_ok:
  assumes ok: "tree_ok s W" and x: "x \<in> vw_live W" "linked s W q x" "f x = 0" and q: "q \<in> vw_live W" and t: "deleted s q x t" and locks: "locks_ok s W f"
  shows "locks_ok t (drop_view {x} W) f"
proof -
  note cfg = config_eqD [OF t [unfolded deleted_def, THEN conjunct1]]
  have seg: "seg_len t = seg_len s" and lock: "tn_lock_ref (nd t m) = tn_lock_ref (nd s m)" for m using t by (simp_all add: deleted_def seg_len_def fun_eq_iff)
  have xroot: "x \<noteq> rc_root s" using tree_ok_root(3) [OF ok] linked_longer [OF x(2)] by auto
  have sets: "{m \<in> vw_live W - {rc_root s}. f m = 0} = insert x {m \<in> vw_live (drop_view {x} W) - {rc_root s}. f m = 0}"
    "{m \<in> vw_live (drop_view {x} W) - {rc_root s}. 0 < f m} = {m \<in> vw_live W - {rc_root s}. 0 < f m}"
    using x xroot by auto
  have "int (sum (seg_len s) {m \<in> vw_live W - {rc_root s}. f m = 0}) = int (seg_len s x) + int (sum (seg_len s) {m \<in> vw_live (drop_view {x} W) - {rc_root s}. f m = 0})"
    unfolding sets using tree_ok_root(6) [OF ok] by (subst sum.insert) auto
  then have "rc_evictable_size t = int (sum (seg_len s) {m \<in> vw_live (drop_view {x} W) - {rc_root s}. f m = 0})"
    using t locks by (simp add: deleted_def locks_ok_def)
  moreover have "set (rc_evictable_leaves t) = {m \<in> vw_live (drop_view {x} W) - {rc_root s}. f m = 0 \<and> tn_children (nd t m) = []}"
  proof -
    have "tn_lock_ref (nd s q) = int (f q)" if "q \<noteq> rc_root s" using locks q that by (simp add: locks_ok_def)
    moreover have "0 < tn_lock_ref (nd s (rc_root s))" using locks by (simp add: locks_ok_def)
    moreover have "q \<noteq> x" using linked_longer [OF x(2)] by auto
    moreover have "tn_children (nd t m) = tn_children (nd s m)" if "m \<noteq> q" for m using t that by (simp add: deleted_def)
    ultimately show ?thesis using t locks q xroot by (cases "q = rc_root s") (auto simp: deleted_def locks_ok_def)
  qed
  ultimately show ?thesis using t locks unfolding locks_ok_def cfg seg lock sets(2) by (auto simp: deleted_def)
qed

lemma delete_leaf_ok:
  assumes ok: "cache_ok s W H" and x: "x \<in> set (rc_evictable_leaves s)"
  obtains q t where "delete_leaf x s = Inr t" "tn_parent (nd s x) = Some q" "q \<in> vw_live W" "x \<in> vw_live W" "x \<noteq> rc_root s"
    "q \<noteq> x" "length (tn_value (nd s x)) = seg_len s x" "deleted s q x t" "cache_ok t (drop_view {x} W) H"
proof -
  have t: "tree_ok s W" "set_mset H \<subseteq> vw_live W" "locks_ok s W (held W H)" using ok by (simp_all add: cache_ok_def)
  have xl: "x \<in> vw_live W" "x \<noteq> rc_root s" "held W H x = 0" "tn_children (nd s x) = []" using x t(3) by (auto simp: locks_ok_def)
  obtain q where q: "q \<in> vw_live W" "linked s W q x" using tree_ok_parent [OF t(1) xl(1,2)] .
  obtain u where u: "delete_leaf x s = Inr u" "deleted s q x u" using delete_leaf_at [OF t(1) q(2)] by blast
  have "x \<notin># H" using xl(3) by (auto simp: held_def size_eq_0_iff_empty filter_mset_eq_conv dest: multi_member_split)
  then have "cache_ok u (drop_view {x} W) H"
    unfolding cache_ok_def using deleted_tree_ok [OF t(1) xl(1) q(2) xl(4) q(1) u(2)] deleted_locks_ok [OF t(1) xl(1) q(2) xl(3) q(1) u(2) t(3)] t(2)
    by auto
  moreover have "q \<noteq> x" using linked_longer [OF q(2)] by auto
  ultimately show thesis using that u q linkedD(1,6) [OF q(2)] xl by (simp add: seg_len_def)
qed

section \<open>The loop\<close>

definition evicted :: "nat multiset \<Rightarrow> radix_cache \<Rightarrow> view \<Rightarrow> nat list \<Rightarrow> radix_cache \<Rightarrow> bool" where
  "evicted H s W evs s' \<longleftrightarrow> cache_ok s' (drop_view (set evs) W) H \<and> cache_config s' = cache_config s \<and> distinct evs \<and>
     set evs \<subseteq> vw_live W - {rc_root s} \<and> rc_pool s' = foldl (pool_free (rc_page_size s)) (rc_pool s) (map (\<lambda>n. tn_value (nd s n)) evs) \<and>
     rc_evictable_size s' = rc_evictable_size s - int (sum_list (map (seg_len s) evs)) \<and> rc_protected_size s' = rc_protected_size s \<and>
     (\<forall>n. tn_value (nd s' n) = tn_value (nd s n)) \<and>
     (\<forall>x\<in>set evs. \<forall>y\<in>set (rc_evictable_leaves s) - set evs. \<not> entry_lt s (entry s y) (entry s x))"

lemma cache_free_simps [simp]:
  "rc_nodes (cache_free v s) = rc_nodes s" "cache_config (cache_free v s) = cache_config s" "rc_next (cache_free v s) = rc_next s"
  "rc_evictable_size (cache_free v s) = rc_evictable_size s" "rc_protected_size (cache_free v s) = rc_protected_size s"
  "rc_evictable_leaves (cache_free v s) = rc_evictable_leaves s" "rc_pool (cache_free v s) = pool_free (rc_page_size s) (rc_pool s) v"
  "rc_strategy (cache_free v s) = rc_strategy s" "rc_root (cache_free v s) = rc_root s"
  by (simp_all add: cache_free_def cache_config_def)

lemma cache_free_ok [simp]: "cache_ok (cache_free v s) W H = cache_ok s W H"
  by (simp add: cache_free_def cache_ok_def tree_ok_def linked_def locks_ok_def seg_len_def)

lemma heap_congI: "heap_from lt 0 h \<Longrightarrow> (\<And>x y. lt' x y = lt x y) \<Longrightarrow> heap_from lt' 0 h"
  by (simp add: heap_from_def)

lemma deleted_entry:
  assumes "deleted s q x t"
  shows "entry_lt t = entry_lt s" "entry t = entry s" "seg_len t = seg_len s" "tn_value (nd t n) = tn_value (nd s n)"
    "tn_lock_ref (nd t n) = tn_lock_ref (nd s n)"
proof -
  have st: "rc_strategy t = rc_strategy s" using assms by (simp add: deleted_def cache_config_def)
  have pr: "get_priority st (n\<lparr> tn_children := c \<rparr>) = get_priority st n" for st n c by (cases st) simp_all
  show "entry_lt t = entry_lt s" "entry t = entry s" "seg_len t = seg_len s" "tn_value (nd t n) = tn_value (nd s n)"
    "tn_lock_ref (nd t n) = tn_lock_ref (nd s n)"
    using assms by (simp_all add: fun_eq_iff deleted_def entry_lt_def entry_def st pr seg_len_def)
qed

lemma evict_loop_ok:
  assumes "cache_ok s W H" "mset (map snd heap) = mset (rc_evictable_leaves s)" "\<And>e. e \<in> set heap \<Longrightarrow> e = entry s (snd e)"
    "heap_from (entry_lt s) 0 heap"
  shows "\<exists>evs s'. evict_loop s heap k n = Some (Inr (k + sum_list (map (seg_len s) evs), s')) \<and> evicted H s W evs s' \<and>
    (n \<le> int (k + sum_list (map (seg_len s) evs)) \<or> rc_evictable_leaves s' = []) \<and>
    (evs \<noteq> [] \<longrightarrow> int (k + sum_list (map (seg_len s) (butlast evs))) < n)"
  using assms
proof (induction "card (vw_live W)" arbitrary: s W heap k rule: less_induct)
  case less
  show ?case
  proof (cases "int k < n \<and> heap \<noteq> []")
    case False
    then have "evict_loop s heap k n = Some (Inr (k, s))" by (simp add: evict_loop.simps)
    moreover have "n \<le> int k \<or> rc_evictable_leaves s = []" using False less.prems(2) by auto
    ultimately show ?thesis using less.prems(1) by (intro exI [of _ "[]"] exI [of _ s]) (simp add: evicted_def)
  next
    case True
    obtain e heap' where pop: "heappop (entry_lt s) heap = Inr (e, heap')" using heappop_total True by (metis surj_pair)
    define x where "x = snd e"
    have e: "e = entry s x" using less.prems(3) set_heappop [OF pop] by (simp add: x_def)
    note heap = ent.heappop_heap [OF less.prems(4) pop] and ms = mset_heappop [OF pop]
    have leaves: "mset (rc_evictable_leaves s) = add_mset x (mset (map snd heap'))" using less.prems(2) ms by (simp add: x_def)
    have xl: "x \<in> set (rc_evictable_leaves s)" using leaves by (metis set_mset_mset union_single_eq_member)
    define u where "u = cache_free (tn_value (nd s x)) s"
    have uok: "cache_ok u W H" and xu: "x \<in> set (rc_evictable_leaves u)" using less.prems(1) xl by (simp_all add: u_def)
    obtain q t where t: "delete_leaf x u = Inr t" "tn_parent (nd u x) = Some q" "q \<in> vw_live W" "x \<in> vw_live W" "x \<noteq> rc_root u"
      "q \<noteq> x" "length (tn_value (nd u x)) = seg_len u x" "deleted u q x t" "cache_ok t (drop_view {x} W) H"
      by (rule delete_leaf_ok [OF uok xu])
    note de = deleted_entry [OF t(8)]
    have su: "entry_lt u = entry_lt s" "entry u = entry s" "seg_len u = seg_len s" "nd u = nd s" "rc_page_size u = rc_page_size s"
      by (simp_all add: u_def fun_eq_iff entry_lt_def entry_def seg_len_def cache_free_def)
    have locks: "distinct (rc_evictable_leaves s)" "distinct (rc_evictable_leaves t)"
      using less.prems(1) t(9) by (simp_all add: cache_ok_def locks_ok_def)
    define push where "push \<longleftrightarrow> tn_children (nd t q) = [] \<and> tn_lock_ref (nd t q) = 0"
    have lock: "0 \<le> tn_lock_ref (nd t q)" using t(3,6,9) unfolding cache_ok_def locks_ok_def
      by (cases "q = rc_root t") auto
    have tl: "set (rc_evictable_leaves t) = (if push then insert q (set (rc_evictable_leaves s) - {x}) else set (rc_evictable_leaves s) - {x} - {q})"
      using t(8) lock de(5) [of q] by (auto simp: deleted_def push_def u_def)
    have nodup: "mset (map snd heap') = mset (remove1 x (rc_evictable_leaves s))" using leaves by simp
    have qn: "q \<notin> set (rc_evictable_leaves s)"
    proof
      assume "q \<in> set (rc_evictable_leaves s)"
      then have "tn_children (nd s q) = []" using less.prems(1) by (auto simp: cache_ok_def locks_ok_def)
      moreover have "linked s W q x" if "tree_ok s W"
        using that t(2,3,4,5) tree_ok_parent [OF that, of x] linkedD(1) by (metis option.inject su(4) u_def cache_free_simps(9))
      ultimately show False using less.prems(1) linkedD(8) [of s W q x] by (simp add: cache_ok_def)
    qed
    define heap'' where "heap'' = (if push then heappush (entry_lt t) heap' (entry t q) else heap')"
    have "mset (map snd heap'') = mset (rc_evictable_leaves t)"
    proof -
      have "mset (map snd heap'') = (if push then add_mset q (mset (map snd heap')) else mset (map snd heap'))"
        by (simp add: heap''_def)
      also have "mset (map snd heap') = mset_set (set (rc_evictable_leaves s) - {x})"
        unfolding nodup using locks(1) xl by (simp add: mset_set_Diff flip: mset_set_set)
      also have "(if push then add_mset q (mset_set (set (rc_evictable_leaves s) - {x})) else mset_set (set (rc_evictable_leaves s) - {x})) = mset_set (set (rc_evictable_leaves t))"
        unfolding tl using qn by simp
      finally show ?thesis using locks(2) by (simp add: mset_set_set)
    qed
    moreover have "f = entry t (snd f)" if "f \<in> set heap''" for f
    proof -
      have "f \<in> set heap' \<or> f = entry t q" using that by (auto simp: heap''_def split: if_splits)
      then show ?thesis using less.prems(3) [of f] set_heappop [OF pop] de(2) su(2) by (metis insertCI snd_entry)
    qed
    moreover have "heap_from (entry_lt t) 0 heap''"
      using heap de(1) su(1) ent.heappush_heap by (auto simp: heap''_def)
    moreover have "card (vw_live (drop_view {x} W)) < card (vw_live W)"
      using t(4) tree_ok_root(6) less.prems(1) unfolding cache_ok_def drop_view_simps by (metis card_Diff1_less)
    ultimately obtain evs s' where ih: "evict_loop t heap'' (k + seg_len s x) n = Some (Inr (k + seg_len s x + sum_list (map (seg_len t) evs), s'))"
      "evicted H t (drop_view {x} W) evs s'" "n \<le> int (k + seg_len s x + sum_list (map (seg_len t) evs)) \<or> rc_evictable_leaves s' = []"
      "evs \<noteq> [] \<longrightarrow> int (k + seg_len s x + sum_list (map (seg_len t) (butlast evs))) < n"
      using less.hyps [OF _ t(9), of heap'' "k + seg_len s x"] by blast
    have run: "evict_loop s heap k n = evict_loop t heap'' (k + seg_len s x) n"
    proof -
      have "heappop (entry_lt s) heap = Inr ((fst (entry s x), x), heap')" using pop e by (simp add: entry_def)
      moreover have "tn_parent (nd t x) = Some q" using t(2,6,8) by (simp add: deleted_def su)
      moreover have "delete_leaf x (cache_free (tn_value (nd s x)) s) = Inr t" using t(1) by (simp add: u_def)
      ultimately show ?thesis using True t(7) by (subst evict_loop.simps) (simp add: su push_def [symmetric] heap''_def entry_def)
    qed
    have "evicted H s W (x # evs) s'"
      unfolding evicted_def
    proof (intro conjI ballI allI)
      show "tn_value (nd s' n) = tn_value (nd s n)" for n using ih(2) de(4) [of n] by (simp add: evicted_def su)
      show "cache_ok s' (drop_view (set (x # evs)) W) H" using ih(2) by (simp add: evicted_def)
      have cfg: "cache_config t = cache_config s" using t(8) by (simp add: deleted_def u_def)
      then show "cache_config s' = cache_config s" using ih(2) by (simp add: evicted_def)
      show "distinct (x # evs)" "set (x # evs) \<subseteq> vw_live W - {rc_root s}"
        using ih(2) t(4,5) config_eqD(3) [OF cfg] by (auto simp: evicted_def u_def)
      show "rc_pool s' = foldl (pool_free (rc_page_size s)) (rc_pool s) (map (\<lambda>n. tn_value (nd s n)) (x # evs))"
        using ih(2) t(8) config_eqD(1) [OF cfg] by (simp add: evicted_def de su) (simp add: deleted_def u_def)
      show "rc_evictable_size s' = rc_evictable_size s - int (sum_list (map (seg_len s) (x # evs)))" "rc_protected_size s' = rc_protected_size s"
        using ih(2) t(8) by (simp_all add: evicted_def de su) (simp_all add: deleted_def u_def su [unfolded u_def])
      fix y z assume y: "y \<in> set (x # evs)" and z: "z \<in> set (rc_evictable_leaves s) - set (x # evs)"
      show "\<not> entry_lt s (entry s z) (entry s y)"
      proof (cases "y = x")
        case True
        have "z \<in> snd ` set heap'" using z mset_eq_setD [OF nodup] locks(1) by (simp add: set_remove1_eq)
        then have "entry s z \<in> set heap'" using less.prems(3) set_heappop [OF pop] by (metis imageE insertCI)
        then show ?thesis using heap e True by blast
      next
        case False
        have "z \<in> set (rc_evictable_leaves t) - set evs" using z tl qn by auto
        then show ?thesis using ih(2) False y unfolding evicted_def de su by auto
      qed
    qed
    moreover have "int (k + sum_list (map (seg_len s) (butlast (x # evs)))) < n" using True ih(4) by (auto simp: de su add.assoc)
    ultimately show ?thesis using ih(1,3) unfolding run by (intro exI [of _ "x # evs"] exI [of _ s']) (auto simp: de su add.assoc)
  qed
qed

text \<open>When no leaf is evictable then nothing is: a node below an unheld node is unheld.\<close>

lemma held_child: "linked s W q c \<Longrightarrow> held W H c \<le> held W H q"
  unfolding held_def using linked_prefix [of s W q c]
  by (intro size_mset_mono mset_subset_eqI) (auto intro: prefix_order.trans)

lemma evictable_leaf:
  assumes ok: "cache_ok s W H" and n: "n \<in> vw_live W" "n \<noteq> rc_root s" "held W H n = 0"
  shows "rc_evictable_leaves s \<noteq> []"
proof -
  have t: "tree_ok s W" "locks_ok s W (held W H)" using ok by (simp_all add: cache_ok_def)
  let ?A = "{n \<in> vw_live W - {rc_root s}. held W H n = 0}"
  define l where "l = Max ((\<lambda>n. length (vw_path W n)) ` ?A)"
  have fin: "finite ?A" using tree_ok_root(6) [OF t(1)] by simp
  have "l \<in> (\<lambda>n. length (vw_path W n)) ` ?A" unfolding l_def using fin n by (intro Max_in) auto
  then obtain m where m: "m \<in> ?A" "length (vw_path W m) = l" by blast
  have "tn_children (nd s m) = []"
  proof (rule ccontr)
    assume "tn_children (nd s m) \<noteq> []"
    then obtain ck c where c: "map_of (tn_children (nd s m)) ck = Some c" by (metis map_of_eq_empty_iff not_None_eq ext)
    note child = tree_ok_child [OF t(1) _ c]
    have "c \<in> ?A" using child m(1) held_child [of s W m c H] by auto
    then have "length (vw_path W c) \<le> l" unfolding l_def using fin by (intro Max_ge) auto
    then show False using linked_longer [OF child(3)] m by simp
  qed
  then show ?thesis using m(1) t(2) by (auto simp: locks_ok_def)
qed

lemma no_leaf_size: "cache_ok s W H \<Longrightarrow> rc_evictable_leaves s = [] \<Longrightarrow> rc_evictable_size s = 0"
proof -
  assume ok: "cache_ok s W H" and none: "rc_evictable_leaves s = []"
  have set: "{n. n \<in> vw_live W - {rc_root s} \<and> held W H n = 0} = {}" using evictable_leaf [OF ok] none by auto
  show ?thesis using ok unfolding cache_ok_def locks_ok_def set by simp
qed

lemma evict_ok:
  assumes ok: "cache_ok s W H" and on: "\<not> rc_disable s"
  shows "\<exists>evs s'. evict s n = Some (Inr (sum_list (map (seg_len s) evs), s')) \<and> evicted H s W evs s' \<and>
    min n (rc_evictable_size s) \<le> int (sum_list (map (seg_len s) evs)) \<and>
    (evs \<noteq> [] \<longrightarrow> int (sum_list (map (seg_len s) (butlast evs))) < n)"
proof -
  let ?heap = "heapify (entry_lt s) (map (entry s) (rc_evictable_leaves s))"
  have "mset (map snd ?heap) = mset (rc_evictable_leaves s)" by (simp add: multiset.map_comp comp_def)
  moreover have "e = entry s (snd e)" if "e \<in> set ?heap" for e
    using that mset_eq_setD [OF mset_heapify, of "entry_lt s" "map (entry s) (rc_evictable_leaves s)"] by auto
  ultimately obtain evs s' where r: "evict_loop s ?heap 0 n = Some (Inr (0 + sum_list (map (seg_len s) evs), s'))" "evicted H s W evs s'"
    "n \<le> int (0 + sum_list (map (seg_len s) evs)) \<or> rc_evictable_leaves s' = []"
    "evs \<noteq> [] \<longrightarrow> int (0 + sum_list (map (seg_len s) (butlast evs))) < n"
    using evict_loop_ok [OF ok _ _ ent.heapify_heap, of "map (entry s) (rc_evictable_leaves s)" 0 n] by blast
  have "rc_evictable_size s = int (sum_list (map (seg_len s) evs))" if "rc_evictable_leaves s' = []"
    using no_leaf_size [OF _ that] r(2) by (auto simp: evicted_def)
  then have "min n (rc_evictable_size s) \<le> int (sum_list (map (seg_len s) evs))" using r(3) by auto
  moreover have "evict s n = evict_loop s ?heap 0 n" using on by (simp add: evict_def entry_def [abs_def])
  ultimately show ?thesis using r by auto
qed

end
