(* ===== verification/Radix_Cache.thy ===== *)
theory Radix_Cache
  imports Radix_Evict
begin

text \<open>
  The prefix cache as a whole: its runs and what it promises.

  \<^item> \<open>radix_init\<close> is the constructor. \<open>cache_run s H\<close>: some sequence of operations leads to the cache \<open>s\<close>, and \<open>H\<close> are the
    nodes that its users hold, a node once for every \<open>inc_lock_ref\<close> without its \<open>dec_lock_ref\<close>.
  \<^item> \<open>node_at\<close> and \<open>cached\<close> read the content off the heap by following the children from the root. They do not mention the
    views of \<open>Radix_Inv\<close>; \<open>node_at_view\<close> and \<open>cached_stored\<close> relate the two.
\<close>

section \<open>Content of the heap\<close>

inductive node_at :: "radix_cache \<Rightarrow> nat \<Rightarrow> tag list \<Rightarrow> nat list \<Rightarrow> bool" for s where
  at_root: "node_at s (rc_root s) [] []"
| at_child: "node_at s n us vs \<Longrightarrow> map_of (tn_children (nd s n)) ck = Some c \<Longrightarrow>
    node_at s c (us @ tags (tn_key (nd s c))) (vs @ tn_value (nd s c))"

definition cached :: "radix_cache \<Rightarrow> tag list \<Rightarrow> nat list \<Rightarrow> bool" where
  "cached s us vs \<longleftrightarrow> rc_page_size s dvd length us \<and> (\<exists>n us' vs'. node_at s n us' vs' \<and> prefix us us' \<and> vs = take (length us) vs')"

lemma node_at_view:
  assumes ok: "tree_ok s W"
  shows "node_at s n us vs \<longleftrightarrow> n \<in> vw_live W \<and> us = vw_path W n \<and> vs = vw_slots W n"
proof
  assume "node_at s n us vs"
  then show "n \<in> vw_live W \<and> us = vw_path W n \<and> vs = vw_slots W n"
  proof (induction rule: node_at.induct)
    case at_root
    then show ?case using tree_ok_root [OF ok] by simp
  next
    case (at_child n us vs ck c)
    then show ?case using tree_ok_child [OF ok _ at_child.hyps(2)] linkedD(2,3) by metis
  qed
next
  have "n \<in> vw_live W \<Longrightarrow> node_at s n (vw_path W n) (vw_slots W n)"
  proof (induction "length (vw_path W n)" arbitrary: n rule: less_induct)
    case less
    show ?case
    proof (cases "n = rc_root s")
      case True
      then show ?thesis using tree_ok_root [OF ok] at_root [of s] by simp
    next
      case False
      obtain q where q: "q \<in> vw_live W" "linked s W q n" using tree_ok_parent [OF ok less.prems False] .
      show ?thesis using at_child [OF less.hyps [OF linked_longer [OF q(2)] q(1)] linkedD(8) [OF q(2)]] linkedD(2,3) [OF q(2)] by simp
    qed
  qed
  then show "n \<in> vw_live W \<and> us = vw_path W n \<and> vs = vw_slots W n \<Longrightarrow> node_at s n us vs" by simp
qed

lemma cached_stored: "tree_ok s W \<Longrightarrow> cached s us vs = stored (rc_page_size s) W us vs"
  unfolding cached_def stored_def by (auto simp: node_at_view)

section \<open>The constructor\<close>

definition radix_init :: "bool \<Rightarrow> nat \<Rightarrow> bool \<Rightarrow> bool \<Rightarrow> string \<Rightarrow> nat \<Rightarrow> (nat \<Rightarrow> tree_node) \<Rightarrow> (nat \<Rightarrow> int) \<Rightarrow> kv_pool \<Rightarrow> radix_cache result" where
  "radix_init disable page_size is_eagle disable_finished_insert eviction_policy counter nodes clock pool =
     rbind (find_strategy eviction_policy) (\<lambda>strategy. Inr (reset
       \<lparr> rc_disable = disable, rc_page_size = page_size, rc_is_eagle = is_eagle, rc_disable_finished_insert = disable_finished_insert,
         rc_strategy = strategy, rc_nodes = nodes, rc_next = counter, rc_root = 0, rc_evictable_size = 0, rc_protected_size = 0,
         rc_evictable_leaves = [], rc_clock = clock, rc_ticks = 0, rc_pool = pool \<rparr>))"

lemma reset_ok:
  assumes "0 < rc_page_size s"
  shows "\<exists>W. cache_ok (reset s) W {#}" "rc_disable (reset s) = rc_disable s"
proof -
  let ?W = "\<lparr> vw_live = {rc_next s}, vw_path = (\<lambda>n. []), vw_slots = (\<lambda>n. []) \<rparr>"
  have "tree_ok (reset s) ?W" "locks_ok (reset s) ?W (held ?W {#})"
    using assms by (auto simp: tree_ok_def locks_ok_def reset_def new_tree_node_def monotonic_def upd_node_def Let_def)
  then show "\<exists>W. cache_ok (reset s) W {#}" by (auto simp: cache_ok_def)
  show "rc_disable (reset s) = rc_disable s"
    by (simp add: reset_def new_tree_node_def monotonic_def upd_node_def Let_def)
qed

section \<open>Runs\<close>

definition key_kind :: "radix_cache \<Rightarrow> radix_key \<Rightarrow> bool" where
  "key_kind s key \<longleftrightarrow> (rk_bigram key \<longrightarrow> rc_is_eagle s)"

text \<open>
  The steps are the operations of the class, with the handles that the scheduler keeps: it locks a node of the tree, the one
  a match has returned (\<open>run_lock\<close>), and unlocks what it holds (\<open>run_unlock\<close>). The pool may change in between, by allocation
  (\<open>run_pool\<close>).
\<close>

inductive cache_run :: "radix_cache \<Rightarrow> nat multiset \<Rightarrow> bool" where
  run_init: "0 < page_size \<Longrightarrow> radix_init False page_size is_eagle dfi policy counter nodes clock pool = Inr s \<Longrightarrow> cache_run s {#}"
| run_reset: "cache_run s H \<Longrightarrow> cache_run (reset s) {#}"
| run_match: "cache_run s H \<Longrightarrow> key_kind s key \<Longrightarrow> match_prefix s key = Some (Inr (vs, n, s')) \<Longrightarrow> cache_run s' H"
| run_lock: "cache_run s H \<Longrightarrow> node_at s n us vs \<Longrightarrow> inc_ref s n = Some (Inr (d, s')) \<Longrightarrow> cache_run s' (add_mset n H)"
| run_unlock: "cache_run s (add_mset n H) \<Longrightarrow> dec_ref s n = Some (Inr (d, s')) \<Longrightarrow> cache_run s' H"
| run_insert: "cache_run s H \<Longrightarrow> key_kind s key \<Longrightarrow> (\<And>v. val = Some v \<Longrightarrow> rk_len (cache_key s key) \<le> length v) \<Longrightarrow>
    insert_prefix s key val priority chunked = Some (Inr (l, s')) \<Longrightarrow> cache_run s' H"
| run_evict: "cache_run s H \<Longrightarrow> evict s num_tokens = Some (Inr (k, s')) \<Longrightarrow> cache_run s' H"
| run_pool: "cache_run s H \<Longrightarrow> cache_run (s\<lparr> rc_pool := pool \<rparr>) H"

lemma cache_ok_pool: "cache_ok (s\<lparr> rc_pool := pool \<rparr>) W H = cache_ok s W H"
  by (simp add: cache_ok_def tree_ok_def linked_def locks_ok_def seg_len_def)

text \<open>The operations, when they have returned.\<close>

lemma match_prefix_done:
  assumes "cache_ok s W H" "key_kind s key" "\<not> rc_disable s" "match_prefix s key = Some (Inr (vs, n, s'))"
  obtains W' where "matched H s W (tags (cache_key s key)) vs n s' W'"
  using match_prefix_ok [OF assms(1) _ assms(3), of key] assms(2,4) unfolding key_kind_def by auto

lemma inc_ref_done:
  assumes "cache_ok s W H" "n \<in> vw_live W" "\<not> rc_disable s" "inc_ref s n = Some (Inr (d, s'))"
  shows "relocked_cache s W (add_mset n H) d s'"
  using inc_ref_ok [OF assms(1-3)] assms(4) by auto

lemma dec_ref_done:
  assumes "cache_ok s W (add_mset n H)" "\<not> rc_disable s" "dec_ref s n = Some (Inr (d, s'))"
  shows "relocked_cache s W H d s'"
  using dec_ref_ok [OF assms(1,2)] assms(3) by auto

lemma insert_prefix_done:
  assumes "cache_ok s W H" "key_kind s key" "\<not> rc_disable s" "\<And>v. val = Some v \<Longrightarrow> rk_len (cache_key s key) \<le> length v"
    "insert_prefix s key val priority chunked = Some (Inr (l, s'))"
  obtains W' where "inserted H s W (tags (cache_key s key)) (insert_slots (cache_key s key) val) l s' W'"
  using insert_prefix_ok [OF assms(1) _ assms(3), of key val priority chunked] assms(2,4,5) unfolding key_kind_def by auto

lemma evict_done:
  assumes "cache_ok s W H" "\<not> rc_disable s" "evict s n = Some (Inr (k, s'))"
  obtains evs where "k = sum_list (map (seg_len s) evs)" "evicted H s W evs s'" "min n (rc_evictable_size s) \<le> int k"
    "evs \<noteq> [] \<longrightarrow> int (sum_list (map (seg_len s) (butlast evs))) < n"
  using evict_ok [OF assms(1,2), of n] assms(3) by auto

lemma cache_run_ok: "cache_run s H \<Longrightarrow> \<not> rc_disable s \<and> (\<exists>W. cache_ok s W H)"
proof (induction rule: cache_run.induct)
  case (run_init page_size is_eagle dfi policy counter nodes clock pool s)
  then show ?case using reset_ok by (fastforce simp: radix_init_def result_simps)
next
  case (run_reset s H)
  then show ?case using reset_ok [of s] tree_ok_root(1) by (auto simp: cache_ok_def)
next
  case (run_match s H key vs n s')
  then obtain W where W: "cache_ok s W H" by blast
  then obtain W' where "matched H s W (tags (cache_key s key)) vs n s' W'" using run_match by (auto elim: match_prefix_done)
  then show ?case using run_match same_contentD(1,5) unfolding matched_def by blast
next
  case (run_lock s H n us vs d s')
  then obtain W where W: "cache_ok s W H" by blast
  then have "n \<in> vw_live W" using run_lock.hyps(2) node_at_view by (auto simp: cache_ok_def)
  then have "relocked_cache s W (add_mset n H) d s'" using inc_ref_done [OF W] run_lock by blast
  then show ?case using run_lock config_eqD(4) [of s' s] by (auto simp: relocked_cache_def)
next
  case (run_unlock s n H d s')
  then show ?case using dec_ref_done by (fastforce simp: relocked_cache_def dest: config_eqD(4))
next
  case (run_insert s H key val priority chunked l s')
  then obtain W where W: "cache_ok s W H" by blast
  have on: "\<not> rc_disable s" using run_insert.IH by blast
  obtain W' where "inserted H s W (tags (cache_key s key)) (insert_slots (cache_key s key) val) l s' W'"
    by (rule insert_prefix_done [OF W run_insert.hyps(2) on run_insert.hyps(3,4)])
  then show ?case using run_insert by (auto simp: inserted_def dest: config_eqD(4))
next
  case (run_evict s H num_tokens k s')
  then obtain W where W: "cache_ok s W H" by blast
  then obtain evs where "evicted H s W evs s'" using run_evict by (auto elim: evict_done)
  then show ?case using run_evict by (auto simp: evicted_def dest: config_eqD(4))
next
  case (run_pool s H pool)
  then show ?case by (simp add: cache_ok_pool)
qed

lemma cache_runE:
  assumes "cache_run s H"
  obtains W where "cache_ok s W H" "tree_ok s W" "\<not> rc_disable s"
  using cache_run_ok [OF assms] by (auto simp: cache_ok_def)

lemma cached_same: "same_content H s W s' W' \<Longrightarrow> tree_ok s W \<Longrightarrow> cached s' us vs = cached s us vs"
  using same_contentD(2,8) [of H s W s' W'] same_contentD(7) [of H s W s' W' us vs] by (simp add: cached_stored)

lemma matched_cached:
  assumes "matched H s W K vs n s' W'" "tree_ok s W"
  shows "prefix (vw_path W' n) K" "cached s (vw_path W' n) vs" "node_at s' n (vw_path W' n) vs"
    "cached s us ws \<Longrightarrow> prefix us K \<Longrightarrow> length us \<le> length (vw_path W' n)" "cached s' us ws = cached s us ws"
proof -
  have m: "same_content H s W s' W'" "n \<in> vw_live W'" "vs = vw_slots W' n" "longest (rc_page_size s) W K (length (vw_path W' n))"
    using assms(1) by (simp_all add: matched_def)
  note t = same_contentD(8) [OF m(1)]
  show "prefix (vw_path W' n) K" using assms(1) by (simp add: matched_def)
  show "cached s' us ws = cached s us ws" for us ws by (rule cached_same [OF m(1) assms(2)])
  then show "cached s (vw_path W' n) vs" using stored_node [OF t m(2)] cached_stored [OF t] m(3) by metis
  show "node_at s' n (vw_path W' n) vs" using node_at_view [OF t] m by simp
  show "cached s us ws \<Longrightarrow> prefix us K \<Longrightarrow> length us \<le> length (vw_path W' n)"
    using m(4) cached_stored [OF assms(2)] by (auto simp: longest_def)
qed

lemma cached_unique: "tree_ok s W \<Longrightarrow> cached s us vs \<Longrightarrow> cached s us ws \<Longrightarrow> vs = ws"
  using stored_unique by (metis cached_stored)

lemma inserted_cached:
  assumes ins: "inserted H s W K V l s' W'" and ok: "tree_ok s W"
  obtains old where "cached s (take l K) old" "length old = l" "l \<le> length K" "\<And>us vs. cached s us vs \<Longrightarrow> prefix us K \<Longrightarrow> length us \<le> l"
    "\<And>us vs. cached s' us vs \<longleftrightarrow> cached s us vs \<or> rc_page_size s dvd length us \<and> prefix us K \<and> vs = take (length us) (old @ drop l V)"
proof -
  have t: "tree_ok s' W'" "rc_page_size s' = rc_page_size s" using ins config_eqD(1) [of s' s] by (auto simp: inserted_def cache_ok_def)
  obtain old where old: "stored (rc_page_size s) W (take l K) old" "l \<le> length K" "longest (rc_page_size s) W K l"
    "\<And>us vs. stored (rc_page_size s) W' us vs \<longleftrightarrow> stored (rc_page_size s) W us vs \<or>
      rc_page_size s dvd length us \<and> prefix us K \<and> vs = take (length us) (old @ drop l V)"
    using ins by (auto simp: inserted_def)
  have "length old = l" using old(1,2) path_aligned [OF ok] by (auto simp: stored_def dest!: prefix_length_le)
  then show thesis
    using that [of old] old unfolding cached_stored [OF ok] cached_stored [OF t(1)] t(2) longest_def by blast
qed

text \<open>A lookup of a key that is cached as a whole.\<close>

lemma match_whole:
  assumes ok: "cache_ok s W H" and key: "key_kind s key" "\<not> rc_disable s" and whole: "cached s (tags (cache_key s key)) V"
  obtains n s' W' where "match_prefix s key = Some (Inr (V, n, s'))" "matched H s W (tags (cache_key s key)) V n s' W'"
    "vw_path W' n = tags (cache_key s key)"
proof -
  have t: "tree_ok s W" using ok by (simp add: cache_ok_def)
  obtain vs n s' W' where m: "match_prefix s key = Some (Inr (vs, n, s'))" "matched H s W (tags (cache_key s key)) vs n s' W'"
    using match_prefix_ok [OF ok key(1) [unfolded key_kind_def] key(2)] by blast
  note mc = matched_cached [OF m(2) t]
  have path: "vw_path W' n = tags (cache_key s key)" using mc(1) mc(4) [OF whole] by (intro prefix_full) simp_all
  then have "vs = V" using mc(2) cached_unique [OF t _ whole] by simp
  then show thesis using that m path by blast
qed

section \<open>What the cache promises\<close>

text \<open>
  C22. Lookup: on every reachable cache and for every key of the right kind, \<open>match_prefix\<close> returns (its loop ends and nothing
  raises). The result is the longest page-aligned prefix of the key that is cached, with exactly its slots; the returned node
  ends at this prefix. A lookup may split a node, but the content of the cache stays the same.
\<close>

theorem radix_match_longest:
  assumes "cache_run s H" "key_kind s key"
  shows "\<exists>us vs n s'. match_prefix s key = Some (Inr (vs, n, s')) \<and> cache_run s' H \<and>
    prefix us (tags (cache_key s key)) \<and> cached s us vs \<and> node_at s' n us vs \<and>
    (\<forall>us' vs'. cached s us' vs' \<and> prefix us' (tags (cache_key s key)) \<longrightarrow> length us' \<le> length us) \<and>
    (\<forall>us' vs'. cached s' us' vs' = cached s us' vs')"
proof -
  obtain W where W: "cache_ok s W H" "tree_ok s W" "\<not> rc_disable s" using cache_runE [OF assms(1)] .
  obtain vs n s' W' where r: "match_prefix s key = Some (Inr (vs, n, s'))" "matched H s W (tags (cache_key s key)) vs n s' W'"
    using match_prefix_ok [OF W(1) assms(2) [unfolded key_kind_def] W(3)] by blast
  show ?thesis using r(1) run_match [OF assms r(1)] matched_cached [OF r(2) W(2)] by blast
qed

text \<open>
  Insertion: on every reachable cache, \<open>insert\<close> returns the length \<open>l\<close> of the longest cached prefix of the key. Afterwards the
  cache holds what it held before, and every page-aligned prefix of the key, with the old slots for the first \<open>l\<close> units and the
  new slots for the rest. The evictable size grows by the length of the new part.
\<close>

lemma radix_insert_content:
  assumes "cache_run s H" "key_kind s key" "\<And>v. val = Some v \<Longrightarrow> rk_len (cache_key s key) \<le> length v"
  shows "\<exists>l old s'. insert_prefix s key val priority chunked = Some (Inr (l, s')) \<and> cache_run s' H \<and>
    cached s (take l (tags (cache_key s key))) old \<and>
    (\<forall>us vs. cached s us vs \<and> prefix us (tags (cache_key s key)) \<longrightarrow> length us \<le> l) \<and>
    (\<forall>us vs. cached s' us vs \<longleftrightarrow> cached s us vs \<or> rc_page_size s dvd length us \<and> prefix us (tags (cache_key s key)) \<and>
       vs = take (length us) (old @ drop l (insert_slots (cache_key s key) val))) \<and>
    rc_evictable_size s' = rc_evictable_size s + int (rk_len (cache_key s key) - l) \<and> rc_protected_size s' = rc_protected_size s"
proof -
  obtain W where W: "cache_ok s W H" "tree_ok s W" "\<not> rc_disable s" using cache_runE [OF assms(1)] .
  obtain l s' W' where r: "insert_prefix s key val priority chunked = Some (Inr (l, s'))"
    "inserted H s W (tags (cache_key s key)) (insert_slots (cache_key s key) val) l s' W'"
    using insert_prefix_ok [OF W(1) assms(2) [unfolded key_kind_def] W(3) assms(3)] by blast
  obtain old where "cached s (take l (tags (cache_key s key))) old"
    "\<And>us vs. cached s us vs \<Longrightarrow> prefix us (tags (cache_key s key)) \<Longrightarrow> length us \<le> l"
    "\<And>us vs. cached s' us vs \<longleftrightarrow> cached s us vs \<or> rc_page_size s dvd length us \<and> prefix us (tags (cache_key s key)) \<and>
       vs = take (length us) (old @ drop l (insert_slots (cache_key s key) val))"
    using inserted_cached [OF r(2) W(2)] by metis
  moreover have "rc_evictable_size s' = rc_evictable_size s + int (rk_len (cache_key s key) - l)" "rc_protected_size s' = rc_protected_size s"
    using r(2) by (simp_all add: inserted_def)
  ultimately show ?thesis using r(1) run_insert [OF assms r(1)] by (intro exI [of _ l] exI [of _ old] exI [of _ s'] conjI) blast+
qed

text \<open>
  Round trip: after \<open>insert\<close> of a key, \<open>match_prefix\<close> finds the whole page-aligned key, with the slots that were cached
  before for the prefix that \<open>insert\<close> reported and the inserted slots for the rest.
\<close>

lemma radix_insert_match:
  assumes "cache_run s H" "key_kind s key" "\<And>v. val = Some v \<Longrightarrow> rk_len (cache_key s key) \<le> length v"
  shows "\<exists>l old s' n s''. insert_prefix s key val priority chunked = Some (Inr (l, s')) \<and> cached s (take l (tags (cache_key s key))) old \<and>
    match_prefix s' key = Some (Inr (old @ drop l (insert_slots (cache_key s key) val), n, s'')) \<and>
    node_at s'' n (tags (cache_key s key)) (old @ drop l (insert_slots (cache_key s key) val))"
proof -
  let ?K = "tags (cache_key s key)" let ?V = "insert_slots (cache_key s key) val"
  obtain W where W: "cache_ok s W H" "tree_ok s W" "\<not> rc_disable s" using cache_runE [OF assms(1)] .
  obtain l s' W' where r: "insert_prefix s key val priority chunked = Some (Inr (l, s'))" "inserted H s W ?K ?V l s' W'"
    using insert_prefix_ok [OF W(1) assms(2) [unfolded key_kind_def] W(3) assms(3)] by blast
  have cfg: "rc_page_size s' = rc_page_size s" "rc_is_eagle s' = rc_is_eagle s" "\<not> rc_disable s'"
    using r(2) config_eqD [of s' s] W(3) by (auto simp: inserted_def)
  have t: "cache_ok s' W' H" "tree_ok s' W'" using r(2) by (auto simp: inserted_def cache_ok_def)
  have key: "cache_key s' key = cache_key s key" "rk_bigram key \<longrightarrow> rc_is_eagle s'" using cfg assms(2) by (simp_all add: cache_key_def key_kind_def)
  obtain old where old: "cached s (take l ?K) old" "length old = l" "l \<le> length ?K"
    "\<And>us vs. cached s' us vs \<longleftrightarrow> cached s us vs \<or> rc_page_size s dvd length us \<and> prefix us ?K \<and> vs = take (length us) (old @ drop l ?V)"
    using inserted_cached [OF r(2) W(2)] by metis
  have V: "length (old @ drop l ?V) = length ?K" using old(2,3) length_insert_slots [OF assms(3)] by simp
  then have whole: "cached s' ?K (old @ drop l ?V)" unfolding old(4) by (simp add: cache_key_def)
  have kind: "key_kind s' key" using key(2) by (simp add: key_kind_def)
  obtain n s'' W'' where m: "match_prefix s' key = Some (Inr (old @ drop l ?V, n, s''))" "matched H s' W' ?K (old @ drop l ?V) n s'' W''"
    "vw_path W'' n = ?K"
    by (rule match_whole [OF t(1) kind cfg(3), unfolded key(1), OF whole])
  then show ?thesis using r(1) old(1) matched_cached(3) [OF m(2) t(2)] by auto
qed

text \<open>
  C23. Insertion and the round trip: on every reachable cache, \<open>insert\<close> of a key with enough slots returns the length \<open>l\<close> of the
  longest cached prefix of the key. Afterwards the cache holds what it held before, and every page-aligned prefix of
  the key, with the old slots for the first \<open>l\<close> units and the new slots for the rest; the evictable size grows by the length of
  the new part. A lookup of the same key then finds all of the page-aligned key with these slots.
\<close>
theorem radix_insert_then_match:
  assumes "cache_run s H" "key_kind s key" "\<forall>v. val = Some v \<longrightarrow> rk_len (cache_key s key) \<le> length v"
  shows "\<exists>l old s' n s''. insert_prefix s key val priority chunked = Some (Inr (l, s')) \<and> cache_run s' H \<and>
    cached s (take l (tags (cache_key s key))) old \<and>
    (\<forall>us vs. cached s us vs \<and> prefix us (tags (cache_key s key)) \<longrightarrow> length us \<le> l) \<and>
    (\<forall>us vs. cached s' us vs \<longleftrightarrow> cached s us vs \<or> rc_page_size s dvd length us \<and> prefix us (tags (cache_key s key)) \<and>
       vs = take (length us) (old @ drop l (insert_slots (cache_key s key) val))) \<and>
    rc_evictable_size s' = rc_evictable_size s + int (rk_len (cache_key s key) - l) \<and> rc_protected_size s' = rc_protected_size s \<and>
    match_prefix s' key = Some (Inr (old @ drop l (insert_slots (cache_key s key) val), n, s'')) \<and>
    node_at s'' n (tags (cache_key s key)) (old @ drop l (insert_slots (cache_key s key) val))"
proof -
  have len: "rk_len (cache_key s key) \<le> length v" if "val = Some v" for v using assms(3) that by blast
  obtain W where W: "tree_ok s W" using cache_runE [OF assms(1)] .
  obtain l old s' where r: "insert_prefix s key val priority chunked = Some (Inr (l, s'))" "cache_run s' H" "cached s (take l (tags (cache_key s key))) old"
    "\<forall>us vs. cached s us vs \<and> prefix us (tags (cache_key s key)) \<longrightarrow> length us \<le> l"
    "\<forall>us vs. cached s' us vs \<longleftrightarrow> cached s us vs \<or> rc_page_size s dvd length us \<and> prefix us (tags (cache_key s key)) \<and>
       vs = take (length us) (old @ drop l (insert_slots (cache_key s key) val))"
    "rc_evictable_size s' = rc_evictable_size s + int (rk_len (cache_key s key) - l)" "rc_protected_size s' = rc_protected_size s"
    using radix_insert_content [OF assms(1,2) len] by blast
  obtain l' old' t n s'' where m: "insert_prefix s key val priority chunked = Some (Inr (l', t))" "cached s (take l' (tags (cache_key s key))) old'"
    "match_prefix t key = Some (Inr (old' @ drop l' (insert_slots (cache_key s key) val), n, s''))"
    "node_at s'' n (tags (cache_key s key)) (old' @ drop l' (insert_slots (cache_key s key) val))"
    using radix_insert_match [OF assms(1,2) len] by blast
  have e: "l' = l" "t = s'" using r(1) m(1) by simp_all
  have "old' = old" using cached_unique [OF W] m(2) r(3) unfolding e by blast
  then show ?thesis using r m(3,4) unfolding e by blast
qed

text \<open>
  C24. Invariant of every reachable cache. The reference count of a node other than the root is the number of held nodes at or
  below it. The two sizes are the numbers of cached slots in unheld and in held nodes, and the set of evictable
  leaves is exactly the set of unheld nodes without children.
\<close>

theorem radix_invariant:
  assumes "cache_run s H"
  shows "(\<forall>n us vs. node_at s n us vs \<and> n \<noteq> rc_root s \<longrightarrow>
      tn_lock_ref (nd s n) = int (size (filter_mset (\<lambda>h. \<exists>us' vs'. node_at s h us' vs' \<and> prefix us us') H))) \<and>
    rc_evictable_size s = (\<Sum>n | (\<exists>us vs. node_at s n us vs) \<and> n \<noteq> rc_root s \<and> tn_lock_ref (nd s n) = 0. int (length (tn_value (nd s n)))) \<and>
    rc_protected_size s = (\<Sum>n | (\<exists>us vs. node_at s n us vs) \<and> n \<noteq> rc_root s \<and> tn_lock_ref (nd s n) > 0. int (length (tn_value (nd s n)))) \<and>
    distinct (rc_evictable_leaves s) \<and>
    set (rc_evictable_leaves s) = {n. (\<exists>us vs. node_at s n us vs) \<and> n \<noteq> rc_root s \<and> tn_lock_ref (nd s n) = 0 \<and> tn_children (nd s n) = []}"
proof -
  obtain W where W: "cache_ok s W H" "tree_ok s W" using cache_runE [OF assms] .
  have H: "set_mset H \<subseteq> vw_live W" and locks: "locks_ok s W (held W H)" using W(1) by (simp_all add: cache_ok_def)
  have at: "(\<exists>us vs. node_at s n us vs) \<longleftrightarrow> n \<in> vw_live W" for n by (simp add: node_at_view [OF W(2)])
  have lock: "tn_lock_ref (nd s n) = int (held W H n)" if "n \<in> vw_live W" "n \<noteq> rc_root s" for n using locks that by (simp add: locks_ok_def)
  have len: "int (length (tn_value (nd s n))) = int (seg_len s n)" if n: "n \<in> vw_live W" "n \<noteq> rc_root s" for n
    using tree_ok_parent [OF W(2) n] linkedD(6) by (metis seg_len_def)
  have "filter_mset (\<lambda>h. \<exists>us' vs'. node_at s h us' vs' \<and> prefix (vw_path W n) us') H = filter_mset (\<lambda>h. prefix (vw_path W n) (vw_path W h)) H" for n
    using H by (intro filter_mset_cong) (auto simp: node_at_view [OF W(2)])
  then have "\<forall>n us vs. node_at s n us vs \<and> n \<noteq> rc_root s \<longrightarrow>
      tn_lock_ref (nd s n) = int (size (filter_mset (\<lambda>h. \<exists>us' vs'. node_at s h us' vs' \<and> prefix us us') H))"
    by (simp add: node_at_view [OF W(2)] lock held_def)
  moreover have "{n. (\<exists>us vs. node_at s n us vs) \<and> n \<noteq> rc_root s \<and> P (tn_lock_ref (nd s n))} = {n \<in> vw_live W - {rc_root s}. P (int (held W H n))}" for P
    using lock by (auto simp: at)
  note sets = this [of "\<lambda>k. k = 0"] this [of "\<lambda>k. k > 0"]
  have "(\<Sum>n\<in>{n \<in> vw_live W - {rc_root s}. P n}. int (length (tn_value (nd s n)))) = int (sum (seg_len s) {n \<in> vw_live W - {rc_root s}. P n})" for P
    unfolding of_nat_sum by (intro sum.cong refl) (simp add: len)
  moreover have "set (rc_evictable_leaves s) = {n. (\<exists>us vs. node_at s n us vs) \<and> n \<noteq> rc_root s \<and> tn_lock_ref (nd s n) = 0 \<and> tn_children (nd s n) = []}"
    using locks lock unfolding locks_ok_def at by auto
  ultimately show ?thesis using locks unfolding sets locks_ok_def by simp
qed

text \<open>
  Namespaces: an insertion under one extra key does not change what a lookup under another extra key returns.
\<close>

lemma radix_namespaces_disjoint:
  assumes "cache_run s H" "key_kind s key" "\<And>v. val = Some v \<Longrightarrow> rk_len (cache_key s key) \<le> length v" "key_kind s other"
    "rk_extra other \<noteq> rk_extra key"
  shows "\<exists>l s' vs n m t t'. insert_prefix s key val priority chunked = Some (Inr (l, s')) \<and>
    match_prefix s other = Some (Inr (vs, n, t)) \<and> match_prefix s' other = Some (Inr (vs, m, t'))"
proof -
  let ?K = "tags (cache_key s key)" let ?O = "tags (cache_key s other)"
  obtain W where W: "cache_ok s W H" "tree_ok s W" "\<not> rc_disable s" using cache_runE [OF assms(1)] .
  obtain l s' W' where r: "insert_prefix s key val priority chunked = Some (Inr (l, s'))"
    "inserted H s W ?K (insert_slots (cache_key s key) val) l s' W'"
    using insert_prefix_ok [OF W(1) assms(2) [unfolded key_kind_def] W(3) assms(3)] by blast
  have cfg: "rc_page_size s' = rc_page_size s" "rc_is_eagle s' = rc_is_eagle s" "\<not> rc_disable s'"
    using r(2) config_eqD [of s' s] W(3) by (auto simp: inserted_def)
  have t: "cache_ok s' W' H" "tree_ok s' W'" using r(2) by (auto simp: inserted_def cache_ok_def)
  have key: "cache_key s' other = cache_key s other" "rk_bigram other \<longrightarrow> rc_is_eagle s'" using cfg assms(4) by (simp_all add: cache_key_def key_kind_def)
  have disj: "us = []" if "prefix us ?K" "prefix us ?O" for us
  proof (rule ccontr)
    assume "us \<noteq> []"
    then have "hd us \<in> set ?K" "hd us \<in> set ?O" using that set_mono_prefix hd_in_set by blast+
    then have "rk_extra (cache_key s key) = rk_extra (cache_key s other)" using tags_fst by metis
    then show False using assms(5) by (simp add: cache_key_def)
  qed
  have nil: "cached s [] []" using at_root [of s] by (auto simp: cached_def)
  have same: "cached s' us vs = cached s us vs" if "prefix us ?O" for us vs
  proof -
    obtain old where "\<And>us vs. cached s' us vs \<longleftrightarrow> cached s us vs \<or> rc_page_size s dvd length us \<and> prefix us ?K \<and>
        vs = take (length us) (old @ drop l (insert_slots (cache_key s key) val))"
      using inserted_cached [OF r(2) W(2)] by metis
    then show ?thesis using disj [OF _ that] nil by (cases "us = []") auto
  qed
  obtain vs n u V where m: "match_prefix s other = Some (Inr (vs, n, u))" "matched H s W ?O vs n u V"
    using match_prefix_ok [OF W(1) assms(4) [unfolded key_kind_def] W(3)] by blast
  obtain vs' n' u' V' where m': "match_prefix s' other = Some (Inr (vs', n', u'))" "matched H s' W' ?O vs' n' u' V'"
    using match_prefix_ok [OF t(1) key(2) cfg(3)] key(1) by auto
  note a = matched_cached [OF m(2) W(2)] and b = matched_cached [OF m'(2) t(2)]
  have "length (vw_path V n) \<le> length (vw_path V' n')" "length (vw_path V' n') \<le> length (vw_path V n)"
    using a(1,2) b(1,2) same a(4) b(4) by blast+
  then have "vw_path V n = vw_path V' n'" using a(1) b(1) by (metis order_antisym prefix_length_prefix prefix_full)
  then have "vs = vs'" using a(1,2) b(2) same cached_unique [OF W(2)] by metis
  then show ?thesis using r(1) m(1) m'(1) by blast
qed

text \<open>
  Reference counts: locking the node of a match returns, and reports the change of the evictable size, which moves to
  the protected size. Unlocking it again returns as well, reports the opposite change and restores both sizes.
\<close>

lemma radix_lock_unlock:
  assumes "cache_run s H" "key_kind s key"
  shows "\<exists>vs n s' d t u. match_prefix s key = Some (Inr (vs, n, s')) \<and> inc_ref s' n = Some (Inr (d, t)) \<and> d \<le> 0 \<and>
    rc_evictable_size t = rc_evictable_size s + d \<and> rc_protected_size t = rc_protected_size s - d \<and>
    dec_ref t n = Some (Inr (- d, u)) \<and> rc_evictable_size u = rc_evictable_size s \<and> rc_protected_size u = rc_protected_size s"
proof -
  obtain W where W: "cache_ok s W H" "tree_ok s W" "\<not> rc_disable s" using cache_runE [OF assms(1)] .
  obtain vs n s' W' where r: "match_prefix s key = Some (Inr (vs, n, s'))" "matched H s W (tags (cache_key s key)) vs n s' W'"
    using match_prefix_ok [OF W(1) assms(2) [unfolded key_kind_def] W(3)] by blast
  have sc: "same_content H s W s' W'" "n \<in> vw_live W'" using r(2) by (simp_all add: matched_def)
  have on: "\<not> rc_disable s'" using same_contentD(5) [OF sc(1)] W(3) by simp
  obtain d t where i: "inc_ref s' n = Some (Inr (d, t))" "relocked_cache s' W' (add_mset n H) d t"
    using inc_ref_ok [OF same_contentD(1) [OF sc(1)] sc(2) on] by blast
  have t: "cache_ok t W' (add_mset n H)" "\<not> rc_disable t" using i(2) on config_eqD(4) [of t s'] by (auto simp: relocked_cache_def)
  obtain e u where j: "dec_ref t n = Some (Inr (e, u))" "relocked_cache t W' H e u" using dec_ref_ok [OF t] by blast
  have root: "rc_root u = rc_root s'" "rc_root t = rc_root s'" using i(2) j(2) by (auto simp: relocked_cache_def cache_config_def)
  have ev: "rc_evictable_size s' = int (\<Sum>m | m \<in> vw_live W' - {rc_root s'} \<and> held W' H m = 0. seg_len s' m)"
    "rc_evictable_size u = int (\<Sum>m | m \<in> vw_live W' - {rc_root s'} \<and> held W' H m = 0. seg_len s' m)"
    "rc_evictable_size t = int (\<Sum>m | m \<in> vw_live W' - {rc_root s'} \<and> held W' (add_mset n H) m = 0. seg_len s' m)"
    using same_contentD(1) [OF sc(1)] j(2) i(2) root by (auto simp: relocked_cache_def cache_ok_def locks_ok_def)
  have "{m. m \<in> vw_live W' - {rc_root s'} \<and> held W' (add_mset n H) m = 0} \<subseteq> {m. m \<in> vw_live W' - {rc_root s'} \<and> held W' H m = 0}"
    by (auto simp: held_add)
  then have "rc_evictable_size t \<le> rc_evictable_size s'" unfolding ev
    using tree_ok_root(6) [OF same_contentD(8) [OF sc(1)]] by (auto intro!: sum_mono2)
  moreover have "rc_evictable_size s' = rc_evictable_size s" "rc_protected_size s' = rc_protected_size s" using sc(1) by (simp_all add: same_content_def)
  ultimately have "e = - d" "d \<le> 0" using ev(1,2) i(2) j(2) by (auto simp: relocked_cache_def)
  then show ?thesis using r(1) i j sc(1) by (auto simp: relocked_cache_def same_content_def)
qed

text \<open>Eviction in terms of the heap.\<close>

lemma evicted_nodes:
  assumes ev: "evicted H s W evs s'" and W: "tree_ok s W"
  shows "node_at s' n us vs \<longleftrightarrow> node_at s n us vs \<and> n \<notin> set evs" "set evs = {n. (\<exists>us vs. node_at s n us vs) \<and> \<not> (\<exists>us vs. node_at s' n us vs)}"
    "n \<in> set evs \<Longrightarrow> length (tn_value (nd s n)) = seg_len s n"
proof -
  have t: "tree_ok s' (drop_view (set evs) W)" and sub: "set evs \<subseteq> vw_live W - {rc_root s}" using ev by (simp_all add: evicted_def cache_ok_def)
  show at: "node_at s' n us vs \<longleftrightarrow> node_at s n us vs \<and> n \<notin> set evs" for n us vs by (auto simp: node_at_view [OF t] node_at_view [OF W])
  show "set evs = {n. (\<exists>us vs. node_at s n us vs) \<and> \<not> (\<exists>us vs. node_at s' n us vs)}" using sub by (auto simp: at) (auto simp: node_at_view [OF W])
  show "n \<in> set evs \<Longrightarrow> length (tn_value (nd s n)) = seg_len s n"
    using sub tree_ok_parent [OF W, of n] linkedD(6) by (metis DiffD1 DiffD2 seg_len_def singletonI subsetD)
qed

lemma evicted_lengths: "evicted H s W evs s' \<Longrightarrow> tree_ok s W \<Longrightarrow> set xs \<subseteq> set evs \<Longrightarrow> map (seg_len s) xs = map (\<lambda>n. length (tn_value (nd s n))) xs"
  using evicted_nodes(3) [of H s W evs s'] by (auto simp: subset_iff)

text \<open>
  Eviction makes progress: on every reachable cache \<open>evict\<close> returns (its loop ends, no assertion fails). It
  frees at least what was asked for, or everything that is evictable, and it frees no more than that plus a part of the last node
  it evicts. The evictable size drops by the number of freed slots, the protected size is untouched.
\<close>

lemma radix_evict_progress:
  assumes "cache_run s H"
  shows "\<exists>k s'. evict s num_tokens = Some (Inr (k, s')) \<and> cache_run s' H \<and> min num_tokens (rc_evictable_size s) \<le> int k \<and>
    rc_evictable_size s' = rc_evictable_size s - int k \<and> rc_protected_size s' = rc_protected_size s \<and>
    (k = 0 \<or> (\<exists>x us vs. node_at s x us vs \<and> \<not> (\<exists>us' vs'. node_at s' x us' vs') \<and> int k - int (length (tn_value (nd s x))) < num_tokens))"
proof -
  obtain W where W: "cache_ok s W H" "tree_ok s W" "\<not> rc_disable s" using cache_runE [OF assms] .
  obtain evs s' where r: "evict s num_tokens = Some (Inr (sum_list (map (seg_len s) evs), s'))" "evicted H s W evs s'"
    "min num_tokens (rc_evictable_size s) \<le> int (sum_list (map (seg_len s) evs))"
    "evs \<noteq> [] \<longrightarrow> int (sum_list (map (seg_len s) (butlast evs))) < num_tokens"
    using evict_ok [OF W(1,3), of num_tokens] by blast
  note en = evicted_nodes [OF r(2) W(2)]
  have "\<exists>x us vs. node_at s x us vs \<and> \<not> (\<exists>us' vs'. node_at s' x us' vs') \<and>
      int (sum_list (map (seg_len s) evs)) - int (length (tn_value (nd s x))) < num_tokens" if ne: "evs \<noteq> []"
  proof -
    obtain ys x where evs: "evs = ys @ [x]" using ne by (cases evs rule: rev_cases) auto
    have "x \<in> {n. (\<exists>us vs. node_at s n us vs) \<and> \<not> (\<exists>us vs. node_at s' n us vs)}" unfolding en(2) [symmetric] by (simp add: evs)
    moreover have "length (tn_value (nd s x)) = seg_len s x" using en(3) evs by simp
    ultimately show ?thesis using r(4) evs by (intro exI [of _ x]) auto
  qed
  then have "sum_list (map (seg_len s) evs) = 0 \<or> (\<exists>x us vs. node_at s x us vs \<and> \<not> (\<exists>us' vs'. node_at s' x us' vs') \<and>
      int (sum_list (map (seg_len s) evs)) - int (length (tn_value (nd s x))) < num_tokens)" by (cases "evs = []") simp_all
  then show ?thesis using r(1,3) run_evict [OF assms r(1)] r(2) unfolding evicted_def by blast
qed

text \<open>
  Eviction is safe for running requests: a node that is held stays, with all its tokens and slots, and eviction adds nothing
  to the content of the cache.
\<close>

lemma radix_evict_keeps_held:
  assumes "cache_run s H" "evict s num_tokens = Some (Inr (k, s'))"
  shows "(\<forall>h us vs. h \<in># H \<and> node_at s h us vs \<longrightarrow> node_at s' h us vs) \<and> (\<forall>us vs. cached s' us vs \<longrightarrow> cached s us vs)"
proof -
  obtain W where W: "cache_ok s W H" "tree_ok s W" "\<not> rc_disable s" using cache_runE [OF assms(1)] .
  obtain evs where ev: "evicted H s W evs s'" using evict_done [OF W(1,3) assms(2)] .
  have "h \<notin> set evs" if "h \<in># H" for h using ev that by (auto simp: evicted_def cache_ok_def)
  moreover have "rc_page_size s' = rc_page_size s" using ev config_eqD(1) [of s' s] by (simp add: evicted_def)
  ultimately show ?thesis unfolding cached_def evicted_nodes(1) [OF ev W(2)] by auto
qed

text \<open>
  Eviction returns exactly the slots of the nodes that leave the tree to the pool, node by node, and reports their number.
  It goes by the priorities of the strategy: no leaf that stays has a smaller priority than a node that is evicted.
\<close>

lemma radix_evict_frees_in_order:
  assumes "cache_run s H" "evict s num_tokens = Some (Inr (k, s'))"
  shows "\<exists>evs. distinct evs \<and> set evs = {n. (\<exists>us vs. node_at s n us vs) \<and> \<not> (\<exists>us vs. node_at s' n us vs)} \<and>
    rc_pool s' = foldl (pool_free (rc_page_size s)) (rc_pool s) (map (\<lambda>n. tn_value (nd s n)) evs) \<and>
    k = sum_list (map (\<lambda>n. length (tn_value (nd s n))) evs) \<and>
    (\<forall>x\<in>set evs. \<forall>y\<in>set (rc_evictable_leaves s) - set evs. get_priority (rc_strategy s) (nd s x) \<le> get_priority (rc_strategy s) (nd s y))"
proof -
  obtain W where W: "cache_ok s W H" "tree_ok s W" "\<not> rc_disable s" using cache_runE [OF assms(1)] .
  obtain evs where ev: "k = sum_list (map (seg_len s) evs)" "evicted H s W evs s'" using evict_done [OF W(1,3) assms(2)] .
  have "get_priority (rc_strategy s) (nd s x) \<le> get_priority (rc_strategy s) (nd s y)"
    if "x \<in> set evs" "y \<in> set (rc_evictable_leaves s) - set evs" for x y
  proof -
    have "\<not> entry_lt s (entry s y) (entry s x)" using ev(2) that by (simp add: evicted_def)
    then show ?thesis by (auto simp: entry_lt_less entry_def less_prod_def not_less)
  qed
  then show ?thesis using ev evicted_nodes(2) [OF ev(2) W(2)] evicted_lengths [OF ev(2) W(2) order_refl]
    by (intro exI [of _ evs]) (simp add: evicted_def)
qed

text \<open>
  C25. Eviction: on every reachable cache \<open>evict\<close> returns (its loop ends, no assertion fails). Some nodes leave the tree; exactly
  their slots go back to the pool, node by node, and their number is reported. It is at least what was asked for, or
  everything that is evictable, and without the last node it would be less than what was asked for. The evictable size drops
  by this number and the protected size stays. A node that is held stays with all its tokens and slots, the content only
  shrinks, and no leaf that stays has a smaller priority in the eviction strategy than a node that leaves.
\<close>
theorem radix_evict_correct:
  assumes "cache_run s H"
  shows "\<exists>evs k s'. evict s num_tokens = Some (Inr (k, s')) \<and> cache_run s' H \<and>
    distinct evs \<and> set evs = {n. (\<exists>us vs. node_at s n us vs) \<and> \<not> (\<exists>us vs. node_at s' n us vs)} \<and>
    rc_pool s' = foldl (pool_free (rc_page_size s)) (rc_pool s) (map (\<lambda>n. tn_value (nd s n)) evs) \<and>
    k = sum_list (map (\<lambda>n. length (tn_value (nd s n))) evs) \<and> min num_tokens (rc_evictable_size s) \<le> int k \<and>
    (k = 0 \<or> (\<exists>x \<in> set evs. int k - int (length (tn_value (nd s x))) < num_tokens)) \<and>
    rc_evictable_size s' = rc_evictable_size s - int k \<and> rc_protected_size s' = rc_protected_size s \<and>
    (\<forall>h us vs. h \<in># H \<and> node_at s h us vs \<longrightarrow> node_at s' h us vs) \<and> (\<forall>us vs. cached s' us vs \<longrightarrow> cached s us vs) \<and>
    (\<forall>x\<in>set evs. \<forall>y\<in>set (rc_evictable_leaves s) - set evs. get_priority (rc_strategy s) (nd s x) \<le> get_priority (rc_strategy s) (nd s y))"
proof -
  obtain k s' where p: "evict s num_tokens = Some (Inr (k, s'))" "cache_run s' H" "min num_tokens (rc_evictable_size s) \<le> int k"
    "rc_evictable_size s' = rc_evictable_size s - int k" "rc_protected_size s' = rc_protected_size s"
    "k = 0 \<or> (\<exists>x us vs. node_at s x us vs \<and> \<not> (\<exists>us' vs'. node_at s' x us' vs') \<and> int k - int (length (tn_value (nd s x))) < num_tokens)"
    using radix_evict_progress [OF assms, of num_tokens] by blast
  obtain evs where e: "distinct evs" "set evs = {n. (\<exists>us vs. node_at s n us vs) \<and> \<not> (\<exists>us vs. node_at s' n us vs)}"
    "rc_pool s' = foldl (pool_free (rc_page_size s)) (rc_pool s) (map (\<lambda>n. tn_value (nd s n)) evs)"
    "k = sum_list (map (\<lambda>n. length (tn_value (nd s n))) evs)"
    "\<forall>x\<in>set evs. \<forall>y\<in>set (rc_evictable_leaves s) - set evs. get_priority (rc_strategy s) (nd s x) \<le> get_priority (rc_strategy s) (nd s y)"
    using radix_evict_frees_in_order [OF assms p(1)] by (elim exE conjE)
  have "k = 0 \<or> (\<exists>x \<in> set evs. int k - int (length (tn_value (nd s x))) < num_tokens)" using p(6) e(2) by blast
  then show ?thesis using p(1-5) e radix_evict_keeps_held [OF assms p(1)] by (intro exI [of _ evs] exI [of _ k] exI [of _ s'] conjI) blast+
qed

section \<open>An example\<close>

text \<open>A cache with pages of two tokens and the strategy \<open>lru\<close>, empty and after one insertion, for the witnesses.\<close>

definition example_cache :: radix_cache where
  "example_cache = reset
     \<lparr> rc_disable = False, rc_page_size = 2, rc_is_eagle = False, rc_disable_finished_insert = False, rc_strategy = LRU,
       rc_nodes = (\<lambda>n. \<lparr> tn_children = [], tn_parent = None, tn_key = empty_key, tn_value = [], tn_lock_ref = 0, tn_last_access_time = 0,
         tn_creation_time = 0, tn_hit_count = 0, tn_priority = 0 \<rparr>),
       rc_next = 0, rc_root = 0, rc_evictable_size = 0, rc_protected_size = 0, rc_evictable_leaves = [],
       rc_clock = int, rc_ticks = 0, rc_pool = paged_init 16 2 False \<rparr>"

definition example_key :: "int list \<Rightarrow> radix_key" where
  "example_key ts = \<lparr> rk_tokens = ts, rk_extra = None, rk_bigram = False \<rparr>"

definition example_filled :: radix_cache where
  "example_filled = (case insert_prefix example_cache (example_key [1, 2, 3, 4, 5, 6]) (Some [2, 3, 4, 5, 6, 7]) None False of
     Some (Inr (l, s)) \<Rightarrow> s | _ \<Rightarrow> example_cache)"

lemma example_cache_run: "cache_run example_cache {#}"
proof (rule run_init)
  show "0 < (2 :: nat)" by simp
  show "radix_init False 2 False False ''lru'' 0 (\<lambda>n. \<lparr> tn_children = [], tn_parent = None, tn_key = empty_key, tn_value = [], tn_lock_ref = 0, tn_last_access_time = 0,
         tn_creation_time = 0, tn_hit_count = 0, tn_priority = 0 \<rparr>) int (paged_init 16 2 False) = Inr example_cache"
    by (simp add: radix_init_def find_strategy_def example_cache_def)
qed

lemma example_kind: "key_kind s (example_key ts)"
  by (simp add: key_kind_def example_key_def)

lemma example_filled_run: "cache_run example_filled {#}"
proof -
  have len: "rk_len (cache_key example_cache (example_key [1, 2, 3, 4, 5, 6])) \<le> length v" if "Some [2, 3, 4, 5, 6, 7] = Some v" for v :: "nat list"
  proof -
    have "rk_len (cache_key example_cache (example_key [1, 2, 3, 4, 5, 6])) = 6" by code_simp
    then show ?thesis using that by auto
  qed
  obtain W where W: "cache_ok example_cache W {#}" "\<not> rc_disable example_cache" using cache_runE [OF example_cache_run] .
  obtain l s where r: "insert_prefix example_cache (example_key [1, 2, 3, 4, 5, 6]) (Some [2, 3, 4, 5, 6, 7]) None False = Some (Inr (l, s))"
    using insert_prefix_ok [OF W(1) example_kind [unfolded key_kind_def] W(2) len] by blast
  then have "example_filled = s" by (simp add: example_filled_def)
  then show ?thesis using run_insert [OF example_cache_run example_kind len r] by simp
qed

text \<open>The equations that evaluate the operations; a bound state is evaluated before it is substituted.\<close>

lemmas radix_eval = insert_prefix_def insert_helper_def insert_loop.simps insert_leaf_def new_tree_node_def monotonic_def upd_node_def
  touch_def raise_priority_def inc_hit_count_def update_leaf_status_def add_leaf_def remove_leaf_def maybe_to_bigram_view_def
  page_aligned_def rk_len_def rk_slice_def child_key_def Let_def match_prefix_def match_prefix_helper_def match_loop.simps rk_match_def
  check_compatible_def match_pages.simps split_node_def rk_from_def reset_def empty_key_def example_key_def upt_rec
  evict_def evict_loop.simps delete_leaf_def cache_free_def example_cache_def example_filled_def

lemma example_match: "map_option (map_sum id fst) (match_prefix example_filled (example_key [1, 2, 3, 4, 9, 9])) = Some (Inr [2, 3, 4, 5])"
  by (simp add: radix_eval cong: let_weak_cong)

lemma example_size: "rc_evictable_size example_filled = 6" "rc_root example_filled = 0" "rc_page_size example_filled = 2" "rc_is_eagle example_filled = False"
  by (simp_all add: radix_eval cong: let_weak_cong)

text \<open>Witness of the property above.\<close>

theorem radix_match_longest_witness:
  "\<exists>us n s'. match_prefix example_filled (example_key [1, 2, 3, 4, 9, 9]) = Some (Inr ([2, 3, 4, 5], n, s')) \<and>
    prefix us (tags (cache_key example_filled (example_key [1, 2, 3, 4, 9, 9]))) \<and> cached example_filled us [2, 3, 4, 5] \<and> node_at s' n us [2, 3, 4, 5]"
proof -
  obtain us vs n s' where r: "match_prefix example_filled (example_key [1, 2, 3, 4, 9, 9]) = Some (Inr (vs, n, s'))"
    "prefix us (tags (cache_key example_filled (example_key [1, 2, 3, 4, 9, 9])))" "cached example_filled us vs" "node_at s' n us vs"
    using radix_match_longest [OF example_filled_run example_kind, of "[1, 2, 3, 4, 9, 9]"] by blast
  have "vs = [2, 3, 4, 5]" using example_match unfolding r(1) by simp
  then show ?thesis using r by blast
qed

theorem radix_insert_then_match_witness:
  "\<exists>l old s' n s''. insert_prefix example_filled (example_key [1, 2, 8, 9, 7]) (Some [9, 10, 11, 12, 13]) None False = Some (Inr (l, s')) \<and>
    cached example_filled (take l (tags (cache_key example_filled (example_key [1, 2, 8, 9, 7])))) old \<and>
    rc_evictable_size s' = 6 + int (rk_len (cache_key example_filled (example_key [1, 2, 8, 9, 7])) - l) \<and>
    match_prefix s' (example_key [1, 2, 8, 9, 7]) =
      Some (Inr (old @ drop l (insert_slots (cache_key example_filled (example_key [1, 2, 8, 9, 7])) (Some [9, 10, 11, 12, 13])), n, s''))"
proof -
  have "rk_len (cache_key example_filled (example_key [1, 2, 8, 9, 7])) = 4" by (simp add: example_size cache_key_def example_key_def maybe_to_bigram_view_def page_aligned_def rk_len_def rk_slice_def)
  then have len: "\<forall>v. Some [9, 10, 11, 12, 13 :: nat] = Some v \<longrightarrow> rk_len (cache_key example_filled (example_key [1, 2, 8, 9, 7])) \<le> length v"
    by auto
  show ?thesis
    using radix_insert_then_match [OF example_filled_run example_kind len, where priority = None and chunked = False] unfolding example_size
    by (elim exE conjE) (intro exI conjI, assumption+)
qed

theorem radix_invariant_witness:
  "6 = (\<Sum>n | (\<exists>us vs. node_at example_filled n us vs) \<and> n \<noteq> 0 \<and> tn_lock_ref (nd example_filled n) = 0. int (length (tn_value (nd example_filled n)))) \<and>
   distinct (rc_evictable_leaves example_filled)"
  using radix_invariant [OF example_filled_run] unfolding example_size by blast

text \<open>Eviction with a held node: the prefix of the four tokens that a request uses stays, the rest is freed.\<close>

definition example_locked :: "nat \<times> radix_cache" where
  "example_locked = (case match_prefix example_filled (example_key [1, 2, 3, 4, 9, 9]) of
     Some (Inr (_, n, s)) \<Rightarrow> (case inc_ref s n of Some (Inr (d, t)) \<Rightarrow> (n, t) | _ \<Rightarrow> (0, s)) | _ \<Rightarrow> (0, example_filled))"

lemma example_locked_run: "cache_run (snd example_locked) {#fst example_locked#}"
proof -
  obtain W where W: "cache_ok example_filled W {#}" "tree_ok example_filled W" "\<not> rc_disable example_filled" using cache_runE [OF example_filled_run] .
  obtain vs n s' W' where m: "match_prefix example_filled (example_key [1, 2, 3, 4, 9, 9]) = Some (Inr (vs, n, s'))"
    "matched {#} example_filled W (tags (cache_key example_filled (example_key [1, 2, 3, 4, 9, 9]))) vs n s' W'"
    using match_prefix_ok [OF W(1) example_kind [unfolded key_kind_def] W(3)] by blast
  note run = run_match [OF example_filled_run example_kind m(1)] and at = matched_cached(3) [OF m(2) W(2)]
  obtain V where V: "cache_ok s' V {#}" "tree_ok s' V" "\<not> rc_disable s'" using cache_runE [OF run] .
  have "n \<in> vw_live V" using at node_at_view [OF V(2)] by blast
  then obtain d t where i: "inc_ref s' n = Some (Inr (d, t))" using inc_ref_ok [OF V(1) _ V(3)] by blast
  have e: "example_locked = (n, t)" using m(1) i by (simp add: example_locked_def)
  show ?thesis unfolding e fst_conv snd_conv by (rule run_lock [OF run at i])
qed

lemma example_evict: "map_option (map_sum id fst) (evict (snd example_locked) 3) = Some (Inr 2)"
  by (simp add: radix_eval example_locked_def inc_ref_def inc_lock_ref.simps heapify_def heappop_def cong: let_weak_cong)

theorem radix_evict_correct_witness:
  "\<exists>evs s'. evict (snd example_locked) 3 = Some (Inr (2, s')) \<and> cache_run s' {#fst example_locked#} \<and>
     2 = sum_list (map (\<lambda>n. length (tn_value (nd (snd example_locked) n))) evs) \<and> rc_evictable_size s' = rc_evictable_size (snd example_locked) - 2"
proof -
  obtain evs k s' where r: "evict (snd example_locked) 3 = Some (Inr (k, s'))" "cache_run s' {#fst example_locked#}"
    "k = sum_list (map (\<lambda>n. length (tn_value (nd (snd example_locked) n))) evs)" "rc_evictable_size s' = rc_evictable_size (snd example_locked) - int k"
    using radix_evict_correct [OF example_locked_run, of 3] by blast
  have "k = 2" using example_evict unfolding r(1) by simp
  then show ?thesis using r by (intro exI [of _ evs] exI [of _ s']) simp
qed

end
