(* ===== verification/Advantages.thy ===== *)
theory Advantages
  imports Prelude "HOL-Library.Char_ord"
begin

text \<open>
  The advantage estimators of the policy update (\<open>verl/trainer/ppo/core_algos.py\<close>) with the masked
  statistics of \<open>verl/utils/torch_functional.py\<close> and the group statistics of \<open>verl/utils/groupwise.py\<close>, and
  the KL controllers.

  \<^item> Values are reals; a tensor of shape (bs, response_length) is the list of its rows, a mask has entries 0 and 1.
  \<^item> \<open>group_dict\<close> is the \<open>defaultdict(list)\<close> that collects the scores of a group in batch order. The code
    overwrites \<open>scores[i]\<close> only after it has read the group statistics, so the scores in the dictionary are
    the original ones.
  \<^item> \<open>group_mean_std\<close> and \<open>bincount\<close> are the vectorised versions over group numbers. \<open>as_torch_index\<close> makes the
    numbers from labels, by the type of the labels. How \<open>numpy\<close> reads an integer from a string (\<open>parse\<close>) and how Python prints a
    float (\<open>str_float\<close>) are parameters. Arrays of mixed Python objects are not modelled.
\<close>

section \<open>Masked statistics\<close>

type_synonym matrix = "real list list"

definition masked_sum_list :: "real list \<Rightarrow> real list \<Rightarrow> real" where
  "masked_sum_list values msk = (\<Sum>(v, m)\<leftarrow>zip values msk. (if m \<noteq> 0 then v else 0) * m)"

definition masked_mean_list :: "real list \<Rightarrow> real list \<Rightarrow> real" where
  "masked_mean_list values msk = masked_sum_list values msk / (sum_list msk + 1 / 10 ^ 8)"

definition masked_var :: "real list \<Rightarrow> real list \<Rightarrow> real result" where
  "masked_var values msk =
     (let mean = masked_mean_list values msk;
          variance = masked_mean_list (map (\<lambda>v. (v - mean)\<^sup>2) values) msk;
          mask_sum = sum_list msk
      in if mask_sum = 0 then Inl (ValueError ''At least one element in the mask has to be 1.'')
         else if mask_sum = 1 then Inl (ValueError ''The sum of the mask is one, which can cause a division by zero.'')
         else Inr (variance * (mask_sum / (mask_sum - 1))))"

definition masked_whiten :: "matrix \<Rightarrow> matrix \<Rightarrow> matrix result" where
  "masked_whiten values msk =
     rbind (masked_var (concat values) (concat msk)) (\<lambda>var.
       let mean = masked_mean_list (concat values) (concat msk) in
       Inr (map (map (\<lambda>v. (v - mean) * (1 / sqrt (var + 1 / 10 ^ 8)))) values))"

text \<open>\<open>scores.unsqueeze(-1) * response_mask\<close>, and the product with a mask.\<close>

definition broadcast_mask :: "real list \<Rightarrow> matrix \<Rightarrow> matrix" where
  "broadcast_mask scores response_mask = map (\<lambda>(s, m). map (\<lambda>x. s * x) m) (zip scores response_mask)"

definition times_mask :: "matrix \<Rightarrow> matrix \<Rightarrow> matrix" where
  "times_mask values response_mask = map (\<lambda>(v, m). map (\<lambda>(x, y). x * y) (zip v m)) (zip values response_mask)"

section \<open>KL controllers\<close>

datatype kl_controller = FixedKLController real | AdaptiveKLController real real real

definition get_kl_controller :: "string \<Rightarrow> real \<Rightarrow> real \<Rightarrow> real \<Rightarrow> kl_controller result" where
  "get_kl_controller kind kl_coef target_kl horizon =
     (if kind = ''fixed'' then Inr (FixedKLController kl_coef)
      else if kind = ''adaptive''
      then if \<not> horizon > 0 then Inl (AssertionError ''horizon must be larger than 0'')
           else Inr (AdaptiveKLController kl_coef target_kl horizon)
      else Inl (RuntimeError ''NotImplementedError''))"

fun kl_value :: "kl_controller \<Rightarrow> real" where
  "kl_value (FixedKLController v) = v"
| "kl_value (AdaptiveKLController v _ _) = v"

fun kl_update :: "kl_controller \<Rightarrow> real \<Rightarrow> real \<Rightarrow> kl_controller" where
  "kl_update (FixedKLController v) current_kl n_steps = FixedKLController v"
| "kl_update (AdaptiveKLController v target horizon) current_kl n_steps =
     (let proportional_error = min (2 / 10) (max (- 2 / 10) (current_kl / target - 1));
          mult = 1 + proportional_error * n_steps / horizon
      in AdaptiveKLController (v * mult) target horizon)"

section \<open>Generalised advantage estimation\<close>

text \<open>One round of the loop over \<open>t\<close>, for one row; the loop runs from the last token to the first.\<close>

definition gae_step :: "real \<Rightarrow> real \<Rightarrow> real \<times> real \<times> real list \<Rightarrow> real \<times> real \<times> real \<Rightarrow> real \<times> real \<times> real list" where
  "gae_step gamma lam s x =
     (case s of (nextvalues, lastgaelam, advantages_reversed) \<Rightarrow> case x of (reward, value, m) \<Rightarrow>
        let delta = reward + gamma * nextvalues - value;
            new_gaelam = delta + gamma * lam * lastgaelam;
            nextvalues' = value * m + (1 - m) * nextvalues;
            lastgaelam' = new_gaelam * m + (1 - m) * lastgaelam
        in (nextvalues', lastgaelam', advantages_reversed @ [lastgaelam']))"

definition gae_row :: "real \<Rightarrow> real \<Rightarrow> real list \<Rightarrow> real list \<Rightarrow> real list \<Rightarrow> real list" where
  "gae_row gamma lam rewards values msk =
     rev (snd (snd (foldl (gae_step gamma lam) (0, 0, []) (rev (zip rewards (zip values msk))))))"

definition compute_gae_advantage_return :: "matrix \<Rightarrow> matrix \<Rightarrow> matrix \<Rightarrow> real \<Rightarrow> real \<Rightarrow> (matrix \<times> matrix) result" where
  "compute_gae_advantage_return token_level_rewards values response_mask gamma lam =
     (let advantages = map (\<lambda>(r, v, m). gae_row gamma lam r v m) (zip token_level_rewards (zip values response_mask));
          returns = map (\<lambda>(a, v). map (\<lambda>(x, y). x + y) (zip a v)) (zip advantages values)
      in rbind (masked_whiten advantages response_mask) (\<lambda>advantages. Inr (advantages, returns)))"

section \<open>Groups\<close>

definition group_dict :: "'g list \<Rightarrow> 'a list \<Rightarrow> 'g \<Rightarrow> 'a list" where
  "group_dict index scores = foldl (\<lambda>d (k, v). d(k := d k @ [v])) (\<lambda>_. []) (zip index scores)"

definition mean_list :: "real list \<Rightarrow> real" where
  "mean_list xs = sum_list xs / real (length xs)"

definition std_list :: "real list \<Rightarrow> real" where
  "std_list xs = sqrt ((\<Sum>x\<leftarrow>xs. (x - mean_list xs)\<^sup>2) / (real (length xs) - 1))"

definition id2mean :: "real list \<Rightarrow> real" where
  "id2mean xs = (if length xs = 1 then 0 else mean_list xs)"

definition id2std :: "real list \<Rightarrow> real" where
  "id2std xs = (if length xs = 1 then 1 else std_list xs)"

definition grpo_scalars :: "real list \<Rightarrow> 'g list \<Rightarrow> real \<Rightarrow> bool \<Rightarrow> real list" where
  "grpo_scalars scores index epsilon norm_adv_by_std =
     map (\<lambda>(s, g). let group = group_dict index scores g in
            if norm_adv_by_std then (s - id2mean group) / (id2std group + epsilon) else s - id2mean group) (zip scores index)"

definition compute_grpo_outcome_advantage :: "matrix \<Rightarrow> matrix \<Rightarrow> 'g list \<Rightarrow> real \<Rightarrow> bool \<Rightarrow> matrix \<times> matrix" where
  "compute_grpo_outcome_advantage token_level_rewards response_mask index epsilon norm_adv_by_std =
     (let scores = map sum_list token_level_rewards;
          adv = broadcast_mask (grpo_scalars scores index epsilon norm_adv_by_std) response_mask
      in (adv, adv))"

text \<open>\<open>index_add_\<close> of the values at the group numbers, on zeros.\<close>

definition index_add :: "nat \<Rightarrow> nat list \<Rightarrow> real list \<Rightarrow> real list" where
  "index_add n gidx vals = foldl (\<lambda>acc (g, v). acc[g := acc ! g + v]) (replicate n 0) (zip gidx vals)"

definition group_mean_std :: "real list \<Rightarrow> int list \<Rightarrow> real \<Rightarrow> (real list \<times> real list \<times> real list) result" where
  "group_mean_std scores gidx eps =
     (if length scores \<noteq> length gidx then Inl (ValueError ''scores and gidx length mismatch'')
      else let G = (case gidx of [] \<Rightarrow> 0 | g # gs \<Rightarrow> foldl max g gs + 1) in
        if G = 0 then Inr ([], [], [])
        else if G < 0 then Inl (RuntimeError ''negative dimension'')
        else if \<exists>g\<in>set gidx. g < 0 then Inl (RuntimeError ''index out of range'')
        else let G = nat G; gidx = map nat gidx;
                 cnt = index_add G gidx (map (\<lambda>_. 1) scores);
                 s1 = index_add G gidx scores;
                 mean = map (\<lambda>(s, c). s / max c 1) (zip s1 cnt);
                 centered = map (\<lambda>(s, g). s - mean ! g) (zip scores gidx);
                 var_num = index_add G gidx (map (\<lambda>c. c * c) centered);
                 var = map (\<lambda>(v, c). v / max (c - 1) 1) (zip var_num cnt);
                 std = map (\<lambda>v. sqrt (max v eps)) var
             in Inr (map (\<lambda>(m, c). if c \<le> 1 then 0 else m) (zip mean cnt),
                     map (\<lambda>(s, c). if c \<le> 1 then 1 else s) (zip std cnt), cnt))"

text \<open>
  The group labels by type: arrays of integers, Booleans, floats or strings, and tensors. An array of \<open>uid\<close>s is an array of
  strings. \<open>label_keys\<close> are the keys that the loops over dictionaries use.
\<close>

datatype group_labels = IntArray "int list" | BoolArray "bool list" | FloatArray "real list" | StrArray "string list"
  | IntTensor "int list" | FloatTensor "real list"

datatype label_key = IntKey int | BoolKey bool | FloatKey real | StrKey string | TensorKey nat

definition label_keys :: "group_labels \<Rightarrow> label_key list" where
  "label_keys index = (case index of IntArray xs \<Rightarrow> map IntKey xs | BoolArray xs \<Rightarrow> map BoolKey xs | FloatArray xs \<Rightarrow> map FloatKey xs
     | StrArray xs \<Rightarrow> map StrKey xs | IntTensor xs \<Rightarrow> map TensorKey [0..<length xs] | FloatTensor xs \<Rightarrow> map TensorKey [0..<length xs])"

text \<open>\<open>np.unique(labels, return_inverse=True)[1]\<close>: the rank of every label among the distinct ones.\<close>

definition unique_inverse :: "'g::linorder list \<Rightarrow> nat list" where
  "unique_inverse labels = map (\<lambda>l. length (filter (\<lambda>x. x < l) (remdups labels))) labels"

definition near_int :: "real \<Rightarrow> bool" where
  "near_int x \<longleftrightarrow> \<bar>x - of_int (round x)\<bar> \<le> 1 / 10 ^ 6"

text \<open>The conversion of a float to \<open>int64\<close> truncates.\<close>

definition trunc_int :: "real \<Rightarrow> int" where
  "trunc_int x = (if 0 \<le> x then floor x else ceiling x)"

definition as_torch_index :: "(string \<Rightarrow> int option) \<Rightarrow> (real \<Rightarrow> string) \<Rightarrow> group_labels \<Rightarrow> int list" where
  "as_torch_index parse str_float index = (case index of
       IntTensor xs \<Rightarrow> xs
     | FloatTensor xs \<Rightarrow> if list_all near_int xs then map round xs else map int (unique_inverse (map str_float xs))
     | IntArray xs \<Rightarrow> xs
     | FloatArray xs \<Rightarrow> if list_all near_int xs then map round xs else map trunc_int xs
     | BoolArray xs \<Rightarrow> map of_bool xs
     | StrArray xs \<Rightarrow> if list_all (\<lambda>x. parse x \<noteq> None) xs then map (\<lambda>x. the (parse x)) xs else map int (unique_inverse xs))"

definition compute_grpo_vectorized_outcome_advantage ::
  "(string \<Rightarrow> int option) \<Rightarrow> (real \<Rightarrow> string) \<Rightarrow> matrix \<Rightarrow> matrix \<Rightarrow> group_labels \<Rightarrow> real \<Rightarrow> bool \<Rightarrow> (matrix \<times> matrix) result" where
  "compute_grpo_vectorized_outcome_advantage parse str_float token_level_rewards response_mask index epsilon norm_adv_by_std =
     (let scores = map sum_list token_level_rewards; g = as_torch_index parse str_float index in
      rbind (group_mean_std scores g 0) (\<lambda>(mean_g, std_g, _).
        if \<exists>j\<in>set g. j < 0 \<or> int (length mean_g) \<le> j then Inl IndexError
        else let scalars = map (\<lambda>(s, j). if norm_adv_by_std then (s - mean_g ! nat j) / (std_g ! nat j + epsilon) else s - mean_g ! nat j) (zip scores g);
                 adv = broadcast_mask scalars response_mask
             in Inr (adv, adv)))"

definition compute_gdpo_outcome_advantage :: "matrix list \<Rightarrow> real list option \<Rightarrow> matrix \<Rightarrow> 'g list \<Rightarrow> real \<Rightarrow> bool \<Rightarrow> (matrix \<times> matrix) result" where
  "compute_gdpo_outcome_advantage score_list reward_weights response_mask index epsilon norm_adv_by_std =
     (let weights = (case reward_weights of None \<Rightarrow> map (\<lambda>_. 1) score_list | Some w \<Rightarrow> w);
          normalized = map (\<lambda>s. fst (compute_grpo_outcome_advantage s response_mask index epsilon norm_adv_by_std)) score_list;
          weighted = map (\<lambda>(w, a). map (map (\<lambda>x. w * x)) a) (zip weights normalized)
      in if length weights < length score_list then Inl IndexError
         else case weighted of
           [] \<Rightarrow> Inl (TypeError '''')
         | a # as \<Rightarrow>
             let new_advantage = foldl (\<lambda>x y. map (\<lambda>(r, r'). map (\<lambda>(p, q). p + q) (zip r r')) (zip x y)) a as in
             rbind (masked_whiten new_advantage response_mask) (\<lambda>w. let adv = times_mask w response_mask in Inr (adv, adv)))"

section \<open>The other outcome estimators\<close>

definition compute_reinforce_plus_plus_baseline_outcome_advantage :: "matrix \<Rightarrow> matrix \<Rightarrow> 'g list \<Rightarrow> (matrix \<times> matrix) result" where
  "compute_reinforce_plus_plus_baseline_outcome_advantage token_level_rewards response_mask index =
     (let scores = map sum_list token_level_rewards;
          centred = map (\<lambda>(s, g). s - id2mean (group_dict index scores g)) (zip scores index);
          tiled = broadcast_mask centred response_mask
      in rbind (masked_whiten tiled response_mask) (\<lambda>w. let adv = times_mask w response_mask in Inr (adv, adv)))"

definition rloo_scalars :: "real list \<Rightarrow> 'g list \<Rightarrow> real list" where
  "rloo_scalars scores index =
     map (\<lambda>(s, g). let group = group_dict index scores g; response_num = real (length group) in
            if length group > 1 then s * response_num / (response_num - 1) - id2mean group * response_num / (response_num - 1) else s)
       (zip scores index)"

definition compute_rloo_outcome_advantage :: "matrix \<Rightarrow> matrix \<Rightarrow> 'g list \<Rightarrow> matrix \<times> matrix" where
  "compute_rloo_outcome_advantage token_level_rewards response_mask index =
     (let adv = broadcast_mask (rloo_scalars (map sum_list token_level_rewards) index) response_mask in (adv, adv))"

definition rloo_vectorized_scalars :: "real list \<Rightarrow> nat list \<Rightarrow> real list" where
  "rloo_vectorized_scalars scores inverse_idx =
     (let n = (if inverse_idx = [] then 0 else foldl max 0 inverse_idx + 1);
          counts = index_add n inverse_idx (map (\<lambda>_. 1) inverse_idx);
          totals = index_add n inverse_idx scores
      in map (\<lambda>(s, j). ((counts ! j * s - totals ! j) / max (counts ! j - 1) 1) * (if counts ! j > 1 then 1 else 0)) (zip scores inverse_idx))"

definition compute_rloo_vectorized_outcome_advantage :: "matrix \<Rightarrow> matrix \<Rightarrow> 'g::linorder list \<Rightarrow> matrix \<times> matrix" where
  "compute_rloo_vectorized_outcome_advantage token_level_rewards response_mask index =
     (let adv = broadcast_mask (rloo_vectorized_scalars (map sum_list token_level_rewards) (unique_inverse index)) response_mask in (adv, adv))"

definition compute_opo_outcome_advantage :: "matrix \<Rightarrow> matrix \<Rightarrow> 'g list \<Rightarrow> matrix \<times> matrix" where
  "compute_opo_outcome_advantage token_level_rewards response_mask index =
     (let response_length = map sum_list response_mask;
          scores = map sum_list token_level_rewards;
          bsl = (\<lambda>g. let ss = group_dict index scores g; ls = group_dict index response_length g in
                  if length ss = 1 then 0 else (\<Sum>(l, s)\<leftarrow>zip ls ss. l * s) / sum_list ls);
          adv = broadcast_mask (map (\<lambda>(s, g). s - bsl g) (zip scores index)) response_mask
      in (adv, adv))"

definition reinforce_step :: "real \<Rightarrow> real \<times> real list \<Rightarrow> real \<times> real \<Rightarrow> real \<times> real list" where
  "reinforce_step gamma s x =
     (case s of (running_return, returns) \<Rightarrow> case x of (reward, m) \<Rightarrow>
        let running = reward + gamma * running_return in (running * m, running # returns))"

definition reinforce_returns :: "real \<Rightarrow> real list \<Rightarrow> real list \<Rightarrow> real list" where
  "reinforce_returns gamma rewards msk = snd (foldl (reinforce_step gamma) (0, []) (rev (zip rewards msk)))"

definition compute_reinforce_plus_plus_outcome_advantage :: "matrix \<Rightarrow> matrix \<Rightarrow> real \<Rightarrow> (matrix \<times> matrix) result" where
  "compute_reinforce_plus_plus_outcome_advantage token_level_rewards response_mask gamma =
     (let returns = map (\<lambda>(r, m). reinforce_returns gamma r m) (zip token_level_rewards response_mask) in
      rbind (masked_whiten returns response_mask) (\<lambda>w. Inr (times_mask w response_mask, returns)))"

definition suffix_sums :: "real list \<Rightarrow> real list" where
  "suffix_sums xs = rev (tl (foldl (\<lambda>acc x. acc @ [last acc + x]) [0] (rev xs)))"

definition compute_remax_outcome_advantage :: "matrix \<Rightarrow> real list \<Rightarrow> matrix \<Rightarrow> matrix \<times> matrix" where
  "compute_remax_outcome_advantage token_level_rewards reward_baselines response_mask =
     (let returns = map suffix_sums (times_mask token_level_rewards response_mask);
          advantages = map (\<lambda>(r, b, m). map (\<lambda>(x, y). x - b * y) (zip r m)) (zip returns (zip reward_baselines response_mask))
      in (advantages, returns))"

definition compute_gpg_outcome_advantage :: "matrix \<Rightarrow> matrix \<Rightarrow> 'g list \<Rightarrow> real \<Rightarrow> matrix \<times> matrix" where
  "compute_gpg_outcome_advantage token_level_rewards response_mask index f_norm =
     (let scores = map sum_list token_level_rewards;
          m = real (length (filter (\<lambda>s. s \<noteq> 0) scores));
          alpha = real (length scores) / max m 1;
          adv = broadcast_mask (map (\<lambda>(s, g). alpha * (s - id2mean (group_dict index scores g)) / f_norm) (zip scores index)) response_mask
      in (adv, adv))"

section \<open>GAE skips masked tokens\<close>

text \<open>The loop from the last token to the first, as a recursion on the row.\<close>

fun gae_rec :: "real \<Rightarrow> real \<Rightarrow> (real \<times> real \<times> real) list \<Rightarrow> real \<times> real \<times> real list" where
  "gae_rec gamma lam [] = (0, 0, [])"
| "gae_rec gamma lam ((r, v, m) # xs) =
     (case gae_rec gamma lam xs of (nv, lg, as) \<Rightarrow>
        let lg' = (r + gamma * nv - v + gamma * lam * lg) * m + (1 - m) * lg
        in (v * m + (1 - m) * nv, lg', lg' # as))"

lemma gae_fold: "foldl (gae_step gamma lam) (0, 0, []) (rev xs) = (case gae_rec gamma lam xs of (nv, lg, as) \<Rightarrow> (nv, lg, rev as))"
  by (induction xs) (auto simp: gae_step_def Let_def split: prod.split)

lemma gae_row_rec: "gae_row gamma lam r v m = snd (snd (gae_rec gamma lam (zip r (zip v m))))"
  unfolding gae_row_def gae_fold by (simp split: prod.split)

lemma length_gae_rec: "length (snd (snd (gae_rec gamma lam xs))) = length xs"
  by (induction xs rule: gae_rec.induct) (auto simp: Let_def split: prod.split)

lemma gae_rec_filter:
  assumes "\<forall>(r, v, m)\<in>set xs. m = 0 \<or> m = 1"
  shows "fst (gae_rec gamma lam (filter (\<lambda>(_, _, m). m = 1) xs)) = fst (gae_rec gamma lam xs) \<and>
    fst (snd (gae_rec gamma lam (filter (\<lambda>(_, _, m). m = 1) xs))) = fst (snd (gae_rec gamma lam xs)) \<and>
    snd (snd (gae_rec gamma lam (filter (\<lambda>(_, _, m). m = 1) xs))) =
      map snd (filter (\<lambda>((_, _, m), _). m = 1) (zip xs (snd (snd (gae_rec gamma lam xs)))))"
  using assms
proof (induction xs)
  case (Cons x xs)
  obtain r v m where x: "x = (r, v, m)" by (cases x) blast
  have m: "m = 0 \<or> m = 1" using Cons.prems x by auto
  have IH: "fst (gae_rec gamma lam (filter (\<lambda>(_, _, m). m = 1) xs)) = fst (gae_rec gamma lam xs)"
    "fst (snd (gae_rec gamma lam (filter (\<lambda>(_, _, m). m = 1) xs))) = fst (snd (gae_rec gamma lam xs))"
    "snd (snd (gae_rec gamma lam (filter (\<lambda>(_, _, m). m = 1) xs))) = map snd (filter (\<lambda>((_, _, m), _). m = 1) (zip xs (snd (snd (gae_rec gamma lam xs)))))"
    using Cons by auto
  show ?case using m
  proof
    assume "m = 0"
    then show ?thesis using IH by (cases "gae_rec gamma lam xs") (simp add: x Let_def)
  next
    assume "m = 1"
    then show ?thesis using IH
      by (cases "gae_rec gamma lam xs"; cases "gae_rec gamma lam (filter (\<lambda>(_, _, m). m = 1) xs)") (simp add: x Let_def)
  qed
qed simp

text \<open>On a row without masked tokens: the discounted sum of the temporal differences.\<close>

definition td_error :: "real \<Rightarrow> (real \<times> real \<times> real) list \<Rightarrow> nat \<Rightarrow> real" where
  "td_error gamma xs j = fst (xs ! j) + gamma * (if Suc j < length xs then fst (snd (xs ! Suc j)) else 0) - fst (snd (xs ! j))"

lemma gae_rec_head:
  assumes "\<forall>(r, v, m)\<in>set xs. m = 1"
  shows "fst (gae_rec gamma lam xs) = (if xs = [] then 0 else fst (snd (hd xs))) \<and>
    fst (snd (gae_rec gamma lam xs)) = (\<Sum>l<length xs. (gamma * lam) ^ l * td_error gamma xs l)"
  using assms
proof (induction xs)
  case (Cons x xs)
  obtain r v where x: "x = (r, v, 1)" using Cons.prems by (cases x) auto
  have IH: "fst (gae_rec gamma lam xs) = (if xs = [] then 0 else fst (snd (hd xs)))"
    "fst (snd (gae_rec gamma lam xs)) = (\<Sum>l<length xs. (gamma * lam) ^ l * td_error gamma xs l)"
    using Cons by auto
  have t: "td_error gamma (x # xs) (Suc l) = td_error gamma xs l" for l by (simp add: td_error_def)
  have "(\<Sum>l<length (x # xs). (gamma * lam) ^ l * td_error gamma (x # xs) l) =
      td_error gamma (x # xs) 0 + (\<Sum>l<length xs. (gamma * lam) ^ Suc l * td_error gamma xs l)"
    by (simp add: sum.lessThan_Suc_shift t del: sum.lessThan_Suc)
  also have "(\<Sum>l<length xs. (gamma * lam) ^ Suc l * td_error gamma xs l) = gamma * lam * (\<Sum>l<length xs. (gamma * lam) ^ l * td_error gamma xs l)"
    by (simp add: sum_distrib_left ac_simps)
  finally show ?case using IH x
    by (cases "gae_rec gamma lam xs") (auto simp: Let_def td_error_def hd_conv_nth)
qed simp

lemma gae_rec_nth: "j < length xs \<Longrightarrow> snd (snd (gae_rec gamma lam xs)) ! j = fst (snd (gae_rec gamma lam (drop j xs)))"
proof (induction xs arbitrary: j)
  case (Cons x xs)
  obtain r v m where x: "x = (r, v, m)" by (cases x) blast
  show ?case
  proof (cases j)
    case 0
    then show ?thesis by (simp add: x Let_def split: prod.split)
  next
    case (Suc i)
    have "snd (snd (gae_rec gamma lam (x # xs))) ! j = snd (snd (gae_rec gamma lam xs)) ! i"
      by (simp add: x Let_def Suc split: prod.split)
    then show ?thesis using Cons Suc by simp
  qed
qed simp

text \<open>The positions of a row that the mask keeps.\<close>

definition kept :: "real list \<Rightarrow> nat list" where
  "kept m = filter (\<lambda>i. m ! i = 1) [0..<length m]"

lemma filter_triples:
  assumes "length r = length m" "length v = length m"
  shows "filter (\<lambda>(_, _, m). m = 1) (zip r (zip v m)) = map (\<lambda>i. (r ! i, v ! i, 1)) (kept m)"
proof -
  have "zip r (zip v m) = map (\<lambda>i. (r ! i, v ! i, m ! i)) [0..<length m]" using assms by (intro nth_equalityI) auto
  then show ?thesis by (auto simp: kept_def filter_map comp_def)
qed

lemma filter_advantages:
  assumes "length r = length m" "length v = length m" "length as = length m"
  shows "map snd (filter (\<lambda>((_, _, m), _). m = 1) (zip (zip r (zip v m)) as)) = map ((!) as) (kept m)"
proof -
  have "zip (zip r (zip v m)) as = map (\<lambda>i. ((r ! i, v ! i, m ! i), as ! i)) [0..<length m]" using assms by (intro nth_equalityI) auto
  then show ?thesis by (simp add: kept_def filter_map comp_def)
qed

lemma gae_kept:
  assumes len: "length r = length m" "length v = length m" and m: "\<forall>x\<in>set m. x = 0 \<or> x = 1" and j: "j < length (kept m)"
  shows "gae_row gamma lam r v m ! (kept m ! j) =
    (\<Sum>l<length (kept m) - j. (gamma * lam) ^ l * (r ! (kept m ! (j + l)) +
       gamma * (if Suc (j + l) < length (kept m) then v ! (kept m ! Suc (j + l)) else 0) - v ! (kept m ! (j + l))))"
proof -
  let ?K = "kept m" and ?X = "zip r (zip v m)" and ?Y = "map (\<lambda>i. (r ! i, v ! i, 1 :: real)) (kept m)"
  have ok: "\<forall>(r, v, m)\<in>set ?X. m = 0 \<or> m = 1" using m by (auto dest: set_zip_rightD)
  have la: "length (gae_row gamma lam r v m) = length m" unfolding gae_row_rec length_gae_rec using len by simp
  have "map ((!) (gae_row gamma lam r v m)) ?K = snd (snd (gae_rec gamma lam ?Y))"
    using gae_rec_filter [OF ok, of gamma lam] filter_triples [OF len] filter_advantages [OF len la] by (simp add: gae_row_rec)
  then have "gae_row gamma lam r v m ! (?K ! j) = snd (snd (gae_rec gamma lam ?Y)) ! j" using j by (metis nth_map)
  also have "\<dots> = fst (snd (gae_rec gamma lam (drop j ?Y)))" using j by (simp add: gae_rec_nth)
  also have "\<dots> = (\<Sum>l<length (drop j ?Y). (gamma * lam) ^ l * td_error gamma (drop j ?Y) l)"
  proof -
    have "\<forall>(r, v, m)\<in>set (drop j ?Y). m = 1" by (auto dest: in_set_dropD)
    from gae_rec_head [OF this, of gamma lam] show ?thesis by (rule conjunct2)
  qed
  also have "\<dots> = (\<Sum>l<length ?K - j. (gamma * lam) ^ l * (r ! (?K ! (j + l)) + gamma * (if Suc (j + l) < length ?K then v ! (?K ! Suc (j + l)) else 0) - v ! (?K ! (j + l))))"
    by (rule sum.cong) (use j in \<open>auto simp: td_error_def less_diff_conv\<close>)
  finally show ?thesis .
qed

section \<open>Groups\<close>

definition group_of :: "'g list \<Rightarrow> 'a list \<Rightarrow> 'g \<Rightarrow> 'a list" where
  "group_of index vals g = map snd (filter (\<lambda>(k, _). k = g) (zip index vals))"

lemma group_dict_fold: "foldl (\<lambda>d (k, v). d(k := d k @ [v])) d xs g = d g @ map snd (filter (\<lambda>(k, _). k = g) xs)"
  by (induction xs arbitrary: d) auto

lemma group_dict_eq: "group_dict index vals g = group_of index vals g"
  by (simp add: group_dict_def group_of_def group_dict_fold)

lemma group_of_map: "group_of index (map f vals) g = map f (group_of index vals g)"
proof -
  have "zip index (map f vals) = map (\<lambda>(k, v). (k, f v)) (zip index vals)" by (simp add: zip_map2)
  then show ?thesis by (simp add: group_of_def filter_map comp_def case_prod_unfold)
qed

lemma group_of_zip:
  assumes "length index = length vals"
  shows "group_of index (map (\<lambda>(s, k). f s k) (zip vals index)) g = map (\<lambda>s. f s g) (group_of index vals g)"
  using assms by (induction index vals rule: list_induct2) (auto simp: group_of_def)

lemma length_group_const: "length index = length vals \<Longrightarrow> sum_list (group_of index (map (\<lambda>_. 1) vals) g) = real (length (group_of index vals g))"
  by (induction index vals rule: list_induct2) (auto simp: group_of_def)

lemma index_add_fold:
  assumes "g < length acc"
  shows "foldl (\<lambda>acc (g, v). acc[g := acc ! g + v]) acc xs ! g = (acc ! g :: real) + sum_list (map snd (filter (\<lambda>(k, _). k = g) xs))"
  using assms by (induction xs arbitrary: acc) (auto simp: nth_list_update split: prod.split)

lemma length_index_add [simp]: "length (index_add n gidx vals) = n"
proof -
  have "length (foldl (\<lambda>acc (g, v). acc[g := acc ! g + v]) acc xs) = length acc" for acc :: "real list" and xs
    by (induction xs arbitrary: acc) (auto split: prod.split)
  then show ?thesis by (simp add: index_add_def)
qed

lemma index_add_nth: "g < n \<Longrightarrow> index_add n gidx vals ! g = sum_list (group_of gidx vals g)"
  by (simp add: index_add_def index_add_fold group_of_def)

text \<open>\<open>unique_inverse\<close> numbers the labels: the groups of the numbers are the groups of the labels.\<close>

lemma rank_inj:
  fixes labels :: "'g::linorder list"
  assumes "a \<in> set labels" "b \<in> set labels" "length (filter (\<lambda>x. x < a) (remdups labels)) = length (filter (\<lambda>x. x < b) (remdups labels))"
  shows "a = b"
proof -
  have less: "length (filter (\<lambda>x. x < a) (remdups labels)) < length (filter (\<lambda>x. x < b) (remdups labels))" if "a < b" "a \<in> set labels" for a b
  proof -
    have "set (filter (\<lambda>x. x < a) (remdups labels)) \<subset> set (filter (\<lambda>x. x < b) (remdups labels))" using that by auto
    then have "card (set (filter (\<lambda>x. x < a) (remdups labels))) < card (set (filter (\<lambda>x. x < b) (remdups labels)))"
      by (rule psubset_card_mono [OF finite_set])
    then show ?thesis by (simp only: distinct_card [OF distinct_filter [OF distinct_remdups]])
  qed
  show ?thesis using less [of a b] less [of b a] assms by (cases a b rule: linorder_cases) auto
qed

lemma group_of_cong:
  assumes len: "length ids = length keys" and i: "i < length keys" and eq: "\<And>k. k < length keys \<Longrightarrow> ids ! k = ids ! i \<longleftrightarrow> keys ! k = keys ! i"
  shows "group_of ids vals (ids ! i) = group_of keys vals (keys ! i)"
proof -
  have group: "group_of xs vals x = map (\<lambda>k. vals ! k) (filter (\<lambda>k. xs ! k = x) [0..<min (length xs) (length vals)])" for xs :: "'x list" and x
  proof -
    have "zip xs vals = map (\<lambda>k. (xs ! k, vals ! k)) [0..<min (length xs) (length vals)]" by (intro nth_equalityI) auto
    then show ?thesis by (simp add: group_of_def filter_map comp_def)
  qed
  show ?thesis unfolding group len using eq by (intro arg_cong [where f = "map _"] filter_cong) auto
qed

lemma unique_inverse_eq:
  fixes index :: "'g::linorder list"
  assumes "i < length index" "k < length index"
  shows "unique_inverse index ! k = unique_inverse index ! i \<longleftrightarrow> index ! k = index ! i"
  using rank_inj [OF nth_mem [OF assms(2)] nth_mem [OF assms(1)]] assms by (auto simp: unique_inverse_def)

lemma group_of_inverse:
  fixes index :: "'g::linorder list"
  assumes "length index = length vals" "i < length index"
  shows "group_of (unique_inverse index) vals (unique_inverse index ! i) = group_of index vals (index ! i)"
proof (rule group_of_cong)
  show "length (unique_inverse index) = length index" by (simp add: unique_inverse_def)
  show "unique_inverse index ! k = unique_inverse index ! i \<longleftrightarrow> index ! k = index ! i" if "k < length index" for k
    by (rule unique_inverse_eq [OF assms(2) that])
qed (rule assms(2))

lemma foldl_max_bound: "g \<in> set gidx \<Longrightarrow> g < foldl max 0 gidx + (1 :: nat)"
  using foldl_max_ge [of g 0 gidx] by simp

lemma length_unique_inverse [simp]: "length (unique_inverse index) = length index"
  by (simp add: unique_inverse_def)

section \<open>Vectorised statistics equal the loop\<close>

lemma group_of_member:
  assumes "length index = length vals" "i < length index"
  shows "vals ! i \<in> set (group_of index vals (index ! i))"
proof -
  have "(index ! i, vals ! i) \<in> set (zip index vals)" using assms by (auto simp: set_zip)
  then show ?thesis unfolding group_of_def by force
qed

lemma foldl_max_int: "foldl max (int a) (map int xs) = int (foldl max a xs)"
  by (induction xs arbitrary: a) (simp_all flip: of_nat_max)

lemma group_mean_std_nth:
  fixes scores :: "real list"
  assumes len: "length scores = length gidx" and i: "i < length gidx"
  shows "\<exists>mean std cnt. group_mean_std scores (map int gidx) 0 = Inr (mean, std, cnt) \<and> gidx ! i < length mean \<and>
    mean ! (gidx ! i) = id2mean (group_of gidx scores (gidx ! i)) \<and> std ! (gidx ! i) = id2std (group_of gidx scores (gidx ! i))"
proof -
  let ?G = "foldl max 0 gidx + 1" and ?g = "gidx ! i"
  let ?grp = "group_of gidx scores ?g"
  have g: "?g < ?G" using i by (intro foldl_max_bound) simp
  have ne: "gidx \<noteq> []" using i by auto
  have pos: "0 < length ?grp" using group_of_member [OF len [symmetric] i] by (auto simp: length_pos_if_in_set)
  then have one: "1 \<le> real (length ?grp)" using of_nat_mono [of 1 "length ?grp", where ?'a = real] by linarith
  let ?cnt = "index_add ?G gidx (map (\<lambda>_. 1) scores)" and ?s1 = "index_add ?G gidx scores"
  let ?mean = "map (\<lambda>(s, c). s / max c 1) (zip ?s1 ?cnt)"
  let ?cen = "map (\<lambda>(s, g). s - ?mean ! g) (zip scores gidx)"
  let ?vn = "index_add ?G gidx (map (\<lambda>c. c * c) ?cen)"
  let ?var = "map (\<lambda>(v, c). v / max (c - 1) 1) (zip ?vn ?cnt)"
  have c: "?cnt ! ?g = real (length ?grp)" using g length_group_const [OF len [symmetric]] by (simp add: index_add_nth)
  have c1: "max (?cnt ! ?g) 1 = real (length ?grp)" using c one by simp
  have m: "?mean ! ?g = mean_list ?grp" using g c1 by (simp add: index_add_nth mean_list_def)
  have v: "?vn ! ?g = (\<Sum>x\<leftarrow>?grp. (x - mean_list ?grp)\<^sup>2)"
  proof -
    have a: "group_of gidx ?cen ?g = map (\<lambda>s. s - ?mean ! ?g) ?grp"
      by (rule group_of_zip [OF len [symmetric], of "\<lambda>s g. s - ?mean ! g"])
    have b: "group_of gidx (map (\<lambda>c. c * c) ?cen) ?g = map (\<lambda>c. c * c) (group_of gidx ?cen ?g)" by (rule group_of_map)
    show ?thesis unfolding index_add_nth [OF g] b a m by (simp add: comp_def power2_eq_square)
  qed
  have nn: "0 \<le> ?vn ! ?g" unfolding v by (intro sum_list_nonneg) auto
  have std: "sqrt (max (?var ! ?g) 0) = std_list ?grp" if "length ?grp \<noteq> 1"
  proof -
    have "2 \<le> length ?grp" using that pos by linarith
    then have "2 \<le> real (length ?grp)" using of_nat_mono [of 2 "length ?grp", where ?'a = real] by simp
    then have "max (?cnt ! ?g - 1) 1 = real (length ?grp) - 1" using c by simp
    then have "?var ! ?g = (\<Sum>x\<leftarrow>?grp. (x - mean_list ?grp)\<^sup>2) / (real (length ?grp) - 1)" using g v by simp
    moreover have "0 \<le> (\<Sum>x\<leftarrow>?grp. (x - mean_list ?grp)\<^sup>2) / (real (length ?grp) - 1)" using nn one unfolding v by simp
    ultimately show ?thesis by (simp add: std_list_def)
  qed
  have single: "?cnt ! ?g \<le> 1 \<longleftrightarrow> length ?grp = 1" unfolding c using pos by linarith
  have G: "(case map int gidx of [] \<Rightarrow> 0 | g # gs \<Rightarrow> foldl max g gs + 1) = int ?G"
    using ne foldl_max_int by (cases gidx) simp_all
  have "group_mean_std scores (map int gidx) 0 = Inr (map (\<lambda>(m, c). if c \<le> 1 then 0 else m) (zip ?mean ?cnt),
      map (\<lambda>(s, c). if c \<le> 1 then 1 else s) (zip (map (\<lambda>v. sqrt (max v 0)) ?var) ?cnt), ?cnt)"
    unfolding group_mean_std_def Let_def G using len by (simp add: comp_def nat_int del: of_nat_add of_nat_Suc)
  moreover have "map (\<lambda>(m, c). if c \<le> 1 then 0 else m) (zip ?mean ?cnt) ! ?g = id2mean ?grp"
    using g m single by (simp add: id2mean_def)
  moreover have "map (\<lambda>(s, c). if c \<le> 1 then 1 else s) (zip (map (\<lambda>v. sqrt (max v 0)) ?var) ?cnt) ! ?g = id2std ?grp"
    using g std single by (simp add: id2std_def)
  moreover have "?g < length (map (\<lambda>(m, c). if c \<le> 1 then 0 else m) (zip ?mean ?cnt))" using g by simp
  ultimately show ?thesis by blast
qed

text \<open>Labels that \<open>as_torch_index\<close> keeps apart.\<close>

definition unambiguous :: "(string \<Rightarrow> int option) \<Rightarrow> group_labels \<Rightarrow> bool" where
  "unambiguous parse index = (case index of
       IntArray xs \<Rightarrow> \<forall>x\<in>set xs. 0 \<le> x
     | BoolArray xs \<Rightarrow> True
     | FloatArray xs \<Rightarrow> list_all near_int xs \<and> (\<forall>x\<in>set xs. 0 \<le> round x) \<and> inj_on round (set xs)
     | StrArray xs \<Rightarrow> (\<exists>x\<in>set xs. parse x = None) \<or> (\<forall>x\<in>set xs. 0 \<le> the (parse x)) \<and> inj_on (\<lambda>x. the (parse x)) (set xs)
     | _ \<Rightarrow> False)"

lemma int_list_nat: "(\<forall>x\<in>set xs. 0 \<le> x) \<Longrightarrow> xs = map int (map nat xs)"
  by (simp add: map_idI)

lemma as_torch_index_groups:
  assumes "unambiguous parse index"
  shows "\<exists>g. as_torch_index parse str_float index = map int g \<and> length g = length (label_keys index) \<and>
    (\<forall>i j. i < length (label_keys index) \<longrightarrow> j < length (label_keys index) \<longrightarrow> (g ! i = g ! j \<longleftrightarrow> label_keys index ! i = label_keys index ! j))"
proof -
  have coerce: ?thesis if "as_torch_index parse str_float index = map f xs" "label_keys index = map c xs" "inj c" "\<forall>x\<in>set xs. 0 \<le> f x" "inj_on f (set xs)"
    for f :: "'x \<Rightarrow> int" and c and xs
  proof (intro exI conjI allI impI)
    show "as_torch_index parse str_float index = map int (map (\<lambda>x. nat (f x)) xs)" using that by simp
    fix i j assume "i < length (label_keys index)" "j < length (label_keys index)"
    then show "map (\<lambda>x. nat (f x)) xs ! i = map (\<lambda>x. nat (f x)) xs ! j \<longleftrightarrow> label_keys index ! i = label_keys index ! j"
      using that by (auto simp: inj_eq eq_nat_nat_iff inj_on_eq_iff)
  qed (use that in simp)
  show ?thesis
  proof (cases index)
    case (IntArray xs)
    then show ?thesis using assms by (intro coerce [of "\<lambda>x. x" xs IntKey]) (auto simp: as_torch_index_def label_keys_def unambiguous_def inj_def)
  next
    case (BoolArray xs)
    then show ?thesis by (intro coerce [of of_bool xs BoolKey]) (auto simp: as_torch_index_def label_keys_def inj_def inj_on_def)
  next
    case (FloatArray xs)
    then show ?thesis using assms by (intro coerce [of round xs FloatKey]) (auto simp: as_torch_index_def label_keys_def unambiguous_def inj_def)
  next
    case (StrArray xs)
    show ?thesis
    proof (cases "list_all (\<lambda>x. parse x \<noteq> None) xs")
      case True
      then show ?thesis using assms StrArray
        by (intro coerce [of "\<lambda>x. the (parse x)" xs StrKey]) (auto simp: as_torch_index_def label_keys_def unambiguous_def inj_def list_all_iff)
    next
      case False
      then show ?thesis using StrArray unique_inverse_eq [of _ xs]
        by (intro exI [of _ "unique_inverse xs"]) (auto simp: as_torch_index_def label_keys_def unique_inverse_def)
    qed
  qed (use assms in \<open>simp_all add: unambiguous_def\<close>)
qed

text \<open>Floats that are not whole numbers are truncated, not told apart.\<close>

lemma float_labels_merge: "as_torch_index parse str_float (FloatArray [1 / 5, 7 / 10]) = [0, 0]"
proof -
  have "round (7 / 10 :: real) = 1" by (rule round_unique) simp_all
  then show ?thesis by (simp add: as_torch_index_def near_int_def trunc_int_def)
qed

lemma group_of_nonempty: "length index = length vals \<Longrightarrow> i < length index \<Longrightarrow> 1 \<le> real (length (group_of index vals (index ! i)))"
proof -
  assume "length index = length vals" "i < length index"
  from group_of_member [OF this] have "1 \<le> length (group_of index vals (index ! i))" by (auto simp: Suc_le_eq length_pos_if_in_set)
  from of_nat_mono [OF this, where ?'a = real] show ?thesis by simp
qed

lemma rloo_arith:
  assumes "n - 1 \<noteq> (0 :: real)" "n \<noteq> 0"
  shows "s * n / (n - 1) - (t / n) * n / (n - 1) = s - (t - s) / (n - 1)" "(n * s - t) / (n - 1) = s - (t - s) / (n - 1)"
proof -
  define d where "d = n - 1"
  have n: "n = d + 1" and d: "d \<noteq> 0" using assms(1) by (simp_all add: d_def)
  show b: "(n * s - t) / (n - 1) = s - (t - s) / (n - 1)" unfolding n using d by (simp add: field_simps)
  have "(t / n) * n = t" using assms(2) by simp
  then have "s * n / (n - 1) - (t / n) * n / (n - 1) = (n * s - t) / (n - 1)" by (simp add: diff_divide_distrib mult.commute)
  then show "s * n / (n - 1) - (t / n) * n / (n - 1) = s - (t - s) / (n - 1)" using b by simp
qed

lemma rloo_leave_one_out:
  assumes "length scores = length index" "i < length scores" "1 < length (group_of index scores (index ! i))"
  shows "rloo_scalars scores index ! i = scores ! i -
    (sum_list (group_of index scores (index ! i)) - scores ! i) / (real (length (group_of index scores (index ! i))) - 1)"
proof -
  let ?grp = "group_of index scores (index ! i)"
  let ?n = "real (length ?grp)"
  have n: "?n - 1 \<noteq> 0" "?n \<noteq> 0" using assms(3) by auto
  have "rloo_scalars scores index ! i = scores ! i * ?n / (?n - 1) - (sum_list ?grp / ?n) * ?n / (?n - 1)"
    using assms by (simp add: rloo_scalars_def group_dict_eq id2mean_def mean_list_def Let_def)
  also have "\<dots> = scores ! i - (sum_list ?grp - scores ! i) / (?n - 1)" by (rule rloo_arith(1) [OF n])
  finally show ?thesis .
qed

lemma rloo_vectorized_nth:
  fixes index :: "'g::linorder list"
  assumes len: "length scores = length index" and i: "i < length scores"
  shows "rloo_vectorized_scalars scores (unique_inverse index) ! i =
    (if length (group_of index scores (index ! i)) = 1 then 0 else rloo_scalars scores index ! i)"
proof -
  let ?gi = "unique_inverse index"
  let ?g = "?gi ! i" and ?grp = "group_of index scores (index ! i)"
  let ?n = "foldl max 0 ?gi + 1"
  have ne: "?gi \<noteq> []" using i len by (auto simp flip: length_0_conv)
  have g: "?g < ?n" using i len by (intro foldl_max_bound) simp
  have grp: "group_of ?gi scores ?g = ?grp" using group_of_inverse [of index scores i] i len by simp
  have len': "length ?gi = length scores" using len by simp
  have c: "index_add ?n ?gi (map (\<lambda>_. 1) ?gi) ! ?g = real (length ?grp)"
  proof -
    have "map (\<lambda>_. 1) ?gi = map (\<lambda>_. 1 :: real) scores" using len by (simp add: map_replicate_const)
    then show ?thesis using index_add_nth [OF g] length_group_const [OF len', of ?g] grp by simp
  qed
  have s: "index_add ?n ?gi scores ! ?g = sum_list ?grp" using index_add_nth [OF g] grp by simp
  have v: "rloo_vectorized_scalars scores ?gi ! i =
      (real (length ?grp) * scores ! i - sum_list ?grp) / max (real (length ?grp) - 1) 1 * (if real (length ?grp) > 1 then 1 else 0)"
    using ne i len c s by (simp add: rloo_vectorized_scalars_def Let_def)
  have pos: "1 \<le> real (length ?grp)" using group_of_nonempty [of index scores i] len i by simp
  show ?thesis
  proof (cases "length ?grp = 1")
    case False
    then have big: "1 < length ?grp" "max (real (length ?grp) - 1) 1 = real (length ?grp) - 1" "real (length ?grp) - 1 \<noteq> 0" using pos by auto
    have r: "rloo_scalars scores index ! i = scores ! i - (sum_list ?grp - scores ! i) / (real (length ?grp) - 1)"
      by (rule rloo_leave_one_out [OF len i big(1)])
    have "rloo_vectorized_scalars scores ?gi ! i = (real (length ?grp) * scores ! i - sum_list ?grp) / (real (length ?grp) - 1)"
      unfolding v big(2) using big(1) by simp
    also have "\<dots> = scores ! i - (sum_list ?grp - scores ! i) / (real (length ?grp) - 1)" using pos by (intro rloo_arith(2) [OF big(3)]) linarith
    finally show ?thesis using r False by simp
  qed (simp add: v)
qed

section \<open>Properties\<close>

text \<open>
  C33. GAE skips masked tokens: on every row whose mask is 0 or 1, the advantage of a kept token is the sum of the
  discounted temporal differences over the kept tokens from it on, as if the masked ones were not in the
  row; rewards, values and positions of masked tokens have no influence on it.
\<close>
theorem gae_skips_masked_tokens:
  assumes "length r = length m" "length v = length m" "\<forall>x\<in>set m. x = 0 \<or> x = 1" "j < length (kept m)"
  shows "gae_row gamma lam r v m ! (kept m ! j) =
    (\<Sum>l<length (kept m) - j. (gamma * lam) ^ l * (r ! (kept m ! (j + l)) +
       gamma * (if Suc (j + l) < length (kept m) then v ! (kept m ! Suc (j + l)) else 0) - v ! (kept m ! (j + l))))"
  by (rule gae_kept [OF assms])

text \<open>
  C32. The vectorised GRPO estimator returns what the loop over dictionaries returns, with and without normalisation by the
  standard deviation, singleton groups included, for every batch whose labels are not ambiguous: integers that are not
  negative, Booleans, floats that are whole numbers up to \<open>1e-6\<close> and stay apart when rounded, and strings. Strings are
  unambiguous when one of them is not an integer (as in \<open>uid\<close>s), or when all are integers that are not negative
  and no two of them are the same number (unlike \<open>'1'\<close> and \<open>'01'\<close>, which the loop keeps apart and the vectorised version merges).
\<close>
theorem grpo_vectorized_equals_loop:
  assumes "length (label_keys index) = length token_level_rewards" "unambiguous parse index"
  shows "compute_grpo_vectorized_outcome_advantage parse str_float token_level_rewards response_mask index epsilon norm_adv_by_std =
    Inr (compute_grpo_outcome_advantage token_level_rewards response_mask (label_keys index) epsilon norm_adv_by_std)"
proof -
  let ?s = "map sum_list token_level_rewards" and ?k = "label_keys index"
  obtain g where g: "as_torch_index parse str_float index = map int g" "length g = length ?k"
    "\<And>i j. i < length ?k \<Longrightarrow> j < length ?k \<Longrightarrow> g ! i = g ! j \<longleftrightarrow> ?k ! i = ?k ! j"
    using as_torch_index_groups [OF assms(2)] by metis
  have len: "length ?s = length g" "length ?k = length ?s" using assms(1) g(2) by simp_all
  show ?thesis
  proof (cases "g = []")
    case True
    then show ?thesis using g len unfolding compute_grpo_vectorized_outcome_advantage_def compute_grpo_outcome_advantage_def
      by (simp add: group_mean_std_def grpo_scalars_def Let_def)
  next
    case False
    then obtain mean std cnt where st: "group_mean_std ?s (map int g) 0 = Inr (mean, std, cnt)"
      using group_mean_std_nth [OF len(1), of 0] by auto
    have nth: "g ! i < length mean \<and> mean ! (g ! i) = id2mean (group_of ?k ?s (?k ! i)) \<and> std ! (g ! i) = id2std (group_of ?k ?s (?k ! i))"
      if i: "i < length ?k" for i
      using group_mean_std_nth [OF len(1), of i] st i g(2) group_of_cong [OF g(2) i, of ?s] g(3) by simp
    have "map (\<lambda>(s, j). if norm_adv_by_std then (s - mean ! nat j) / (std ! nat j + epsilon) else s - mean ! nat j) (zip ?s (map int g)) =
        grpo_scalars ?s ?k epsilon norm_adv_by_std"
      using nth assms(1) g(2) by (intro nth_equalityI) (simp_all add: grpo_scalars_def group_dict_eq Let_def)
    moreover have "\<not> (\<exists>j\<in>set (map int g). j < 0 \<or> int (length mean) \<le> j)" using nth g(2) by (fastforce simp: in_set_conv_nth)
    ultimately show ?thesis
      unfolding compute_grpo_vectorized_outcome_advantage_def compute_grpo_outcome_advantage_def Let_def g(1) st rbind_Inr prod.case by simp
  qed
qed

text \<open>
  C34. RLOO: in a group of at least two, the advantage of a response is its score minus the mean score of
  the others in its group; the vectorised estimator agrees with it there and gives 0 to the response
  of a singleton group, where the loop keeps its score.
\<close>
theorem rloo_is_leave_one_out:
  fixes index :: "'g::linorder list"
  assumes "length scores = length index" "i < length scores"
  shows "(if 1 < length (group_of index scores (index ! i))
      then rloo_scalars scores index ! i = scores ! i - (sum_list (group_of index scores (index ! i)) - scores ! i) / (real (length (group_of index scores (index ! i))) - 1) \<and>
        rloo_vectorized_scalars scores (unique_inverse index) ! i = rloo_scalars scores index ! i
      else rloo_scalars scores index ! i = scores ! i \<and> rloo_vectorized_scalars scores (unique_inverse index) ! i = 0)"
proof -
  have "1 \<le> real (length (group_of index scores (index ! i)))" using group_of_nonempty [of index scores i] assms by simp
  then have "length (group_of index scores (index ! i)) = 1" if "\<not> 1 < length (group_of index scores (index ! i))" using that by linarith
  then show ?thesis
    using rloo_leave_one_out [OF assms] rloo_vectorized_nth [OF assms] assms by (auto simp: rloo_scalars_def group_dict_eq Let_def)
qed

section \<open>Witnesses\<close>

theorem gae_skips_masked_tokens_witness: "gae_row 1 1 [1, 5, 2] [0, 7, 1] [1, 0, 1] ! 0 = 3"
proof -
  have k: "kept [1, 0, 1] = [0, 2]" by (simp add: kept_def upt_rec numeral_2_eq_2)
  show ?thesis using gae_skips_masked_tokens [of "[1, 5, 2]" "[1, 0, 1]" "[0, 7, 1]" 0 1 1]
    by (simp add: k numeral_2_eq_2)
qed

theorem grpo_vectorized_equals_loop_witness:
  "compute_grpo_vectorized_outcome_advantage (\<lambda>s. if s = ''7'' then Some 7 else None) (\<lambda>_. []) [[1, 0], [0, 3], [2, 2]] [[1, 1], [1, 0], [1, 1]]
     (StrArray [''7'', ''7'', ''a9'']) (1 / 10 ^ 6) True =
   Inr (compute_grpo_outcome_advantage [[1, 0], [0, 3], [2, 2]] [[1, 1], [1, 0], [1, 1]] [StrKey ''7'', StrKey ''7'', StrKey ''a9''] (1 / 10 ^ 6) True) \<and>
   compute_grpo_vectorized_outcome_advantage (\<lambda>_. None) (\<lambda>_. []) [[1], [3]] [[1], [1]] (IntArray [4, 4]) 0 False = Inr ([[- 1], [1]], [[- 1], [1]])"
proof
  show "compute_grpo_vectorized_outcome_advantage (\<lambda>s. if s = ''7'' then Some 7 else None) (\<lambda>_. []) [[1, 0], [0, 3], [2, 2]] [[1, 1], [1, 0], [1, 1]]
     (StrArray [''7'', ''7'', ''a9'']) (1 / 10 ^ 6) True =
   Inr (compute_grpo_outcome_advantage [[1, 0], [0, 3], [2, 2]] [[1, 1], [1, 0], [1, 1]] [StrKey ''7'', StrKey ''7'', StrKey ''a9''] (1 / 10 ^ 6) True)"
    using grpo_vectorized_equals_loop [of "StrArray [''7'', ''7'', ''a9'']" "[[1, 0], [0, 3], [2, 2]]" "\<lambda>s. if s = ''7'' then Some 7 else None"]
    by (simp add: label_keys_def unambiguous_def)
  show "compute_grpo_vectorized_outcome_advantage (\<lambda>_. None) (\<lambda>_. []) [[1], [3]] [[1], [1]] (IntArray [4, 4]) 0 False = Inr ([[- 1], [1]], [[- 1], [1]])"
    using grpo_vectorized_equals_loop [of "IntArray [4, 4]" "[[1], [3]]" "\<lambda>_. None"]
    by (simp add: label_keys_def unambiguous_def compute_grpo_outcome_advantage_def grpo_scalars_def group_dict_def id2mean_def mean_list_def broadcast_mask_def Let_def)
qed

theorem rloo_is_leave_one_out_witness:
  "rloo_scalars [1, 3, 4] [7, 7, 9 :: nat] ! 0 = - 2 \<and> rloo_scalars [1, 3, 4] [7, 7, 9 :: nat] ! 2 = 4 \<and>
   rloo_vectorized_scalars [1, 3, 4] (unique_inverse [7, 7, 9 :: nat]) ! 2 = 0"
  using rloo_is_leave_one_out [of "[1, 3, 4]" "[7, 7, 9 :: nat]" 0] rloo_is_leave_one_out [of "[1, 3, 4]" "[7, 7, 9 :: nat]" 2]
  by (simp add: group_of_def)
end
