(* ===== verification/Policy_Loss.thy ===== *)
theory Policy_Loss
  imports Advantages
begin

text \<open>
  The losses of the policy update (\<open>verl/trainer/ppo/core_algos.py\<close>): the aggregation of a token loss over a
  batch, the registered policy losses with their metrics, among them GrowMTP's asymmetric loss, the value loss
  and the KL penalty.

  \<^item> Tensors are matrices of reals as in \<open>Advantages\<close>. \<open>detach\<close> changes gradients only and is the identity on
    values. A quotient by zero, which the code would make infinite or NaN, is 0 here.
  \<^item> Each loss is its token loss and a common \<open>finish_loss\<close>: rollout weights, aggregation, metrics.
\<close>

section \<open>\<open>agg_loss\<close>\<close>

definition mmap2 :: "('a \<Rightarrow> 'b \<Rightarrow> 'c) \<Rightarrow> 'a list list \<Rightarrow> 'b list list \<Rightarrow> 'c list list" where
  "mmap2 f A B = map (\<lambda>(r, s). map (\<lambda>(x, y). f x y) (zip r s)) (zip A B)"

record batch_info =
  bi_dp_size :: nat
  bi_batch_num_tokens :: "real option"
  bi_global_batch_size :: "real option"
  bi_loss_scale_factor :: "real option"

definition seq_sums :: "matrix \<Rightarrow> matrix \<Rightarrow> real list" where
  "seq_sums loss_mat loss_mask = map sum_list (mmap2 (*) loss_mat loss_mask)"

definition indicator_pos :: "real list \<Rightarrow> real list" where
  "indicator_pos xs = map (\<lambda>x. if x > 0 then 1 else 0) xs"

text \<open>\<open>loss_mask.shape[-1]\<close>: the common length of the rows.\<close>

definition horizon :: "matrix \<Rightarrow> nat" where
  "horizon loss_mask = (case loss_mask of [] \<Rightarrow> 0 | m # _ \<Rightarrow> length m)"

definition agg_loss :: "matrix \<Rightarrow> matrix \<Rightarrow> string \<Rightarrow> batch_info \<Rightarrow> real result" where
  "agg_loss loss_mat loss_mask loss_agg_mode info =
     (if loss_agg_mode = ''token-mean''
      then rbind (case bi_batch_num_tokens info of
                    Some n \<Rightarrow> Inr n
                  | None \<Rightarrow> if bi_dp_size info > 1 then Inl (ValueError ''(global) batch_num_tokens is required when dp_size > 1'')
                            else Inr (sum_list (concat loss_mask))) (\<lambda>batch_num_tokens.
           Inr (masked_sum_list (concat loss_mat) (concat loss_mask) / batch_num_tokens * real (bi_dp_size info)))
      else if loss_agg_mode = ''seq-mean-token-sum'' \<or> loss_agg_mode = ''seq-mean-token-sum-norm''
      then let seq_losses = seq_sums loss_mat loss_mask; seq_mask = indicator_pos (map sum_list loss_mask) in
           rbind (case bi_global_batch_size info of
                    Some n \<Rightarrow> Inr n
                  | None \<Rightarrow> if bi_dp_size info > 1 then Inl (ValueError ''global_batch_size is required when dp_size > 1'')
                            else Inr (sum_list seq_mask)) (\<lambda>global_batch_size.
           let loss = masked_sum_list seq_losses seq_mask / global_batch_size * real (bi_dp_size info) in
           Inr (if loss_agg_mode = ''seq-mean-token-sum-norm''
                then loss / (case bi_loss_scale_factor info of None \<Rightarrow> real (horizon loss_mask) | Some f \<Rightarrow> f) else loss))
      else if loss_agg_mode = ''seq-mean-token-mean''
      then let seq_len = map sum_list loss_mask;
               seq_losses = map (\<lambda>(s, n). s / (n + 1 / 10 ^ 8)) (zip (seq_sums loss_mat loss_mask) seq_len);
               seq_mask = indicator_pos seq_len in
           rbind (case bi_global_batch_size info of
                    Some n \<Rightarrow> Inr n
                  | None \<Rightarrow> if bi_dp_size info > 1 then Inl (ValueError ''global_batch_size is required when dp_size > 1'')
                            else Inr (sum_list seq_mask)) (\<lambda>global_batch_size.
           Inr (masked_sum_list seq_losses seq_mask / global_batch_size * real (bi_dp_size info)))
      else Inl (ValueError ''Invalid loss_agg_mode''))"

section \<open>Policy losses\<close>

record actor_config =
  ac_clip_ratio :: real
  ac_clip_ratio_low :: "real option"
  ac_clip_ratio_high :: "real option"
  ac_clip_ratio_c :: "real option"
  ac_negative_advantage_weight :: real
  ac_tau_pos :: real
  ac_tau_neg :: real
  ac_batch_info :: batch_info

record pg_metrics =
  pg_clipfrac :: real
  ppo_kl :: real
  pg_clipfrac_lower :: real

definition clip_low :: "actor_config \<Rightarrow> real" where
  "clip_low config = (case ac_clip_ratio_low config of None \<Rightarrow> ac_clip_ratio config | Some x \<Rightarrow> x)"

definition clip_high :: "actor_config \<Rightarrow> real" where
  "clip_high config = (case ac_clip_ratio_high config of None \<Rightarrow> ac_clip_ratio config | Some x \<Rightarrow> x)"

definition negative_approx_kl :: "real \<Rightarrow> real \<Rightarrow> real" where
  "negative_approx_kl old_log_prob log_prob = clamp (- 20) 20 (log_prob - old_log_prob)"

definition of_bool_real :: "bool \<Rightarrow> real" where
  "of_bool_real b = (if b then 1 else 0)"

text \<open>The token losses of the clipped objective before and after the dual clip, for one token.\<close>

definition pg_losses1 :: "real \<Rightarrow> real \<Rightarrow> real \<Rightarrow> real" where
  "pg_losses1 old lp adv = - adv * exp (negative_approx_kl old lp)"

definition pg_losses2 :: "real \<Rightarrow> real \<Rightarrow> real \<Rightarrow> real \<Rightarrow> real \<Rightarrow> real" where
  "pg_losses2 low high old lp adv = - adv * clamp (1 - low) (1 + high) (exp (negative_approx_kl old lp))"

definition clip_pg_losses1 :: "real \<Rightarrow> real \<Rightarrow> real \<Rightarrow> real \<Rightarrow> real \<Rightarrow> real" where
  "clip_pg_losses1 low high old lp adv = max (pg_losses1 old lp adv) (pg_losses2 low high old lp adv)"

definition clip_pg_losses2 :: "real \<Rightarrow> real \<Rightarrow> real \<Rightarrow> real \<Rightarrow> real \<Rightarrow> real \<Rightarrow> real" where
  "clip_pg_losses2 low high c old lp adv = min (- adv * c) (clip_pg_losses1 low high old lp adv)"

definition vanilla_token :: "real \<Rightarrow> real \<Rightarrow> real \<Rightarrow> real \<Rightarrow> real \<Rightarrow> real \<Rightarrow> real" where
  "vanilla_token low high c old lp adv = (if adv < 0 then clip_pg_losses2 low high c old lp adv else clip_pg_losses1 low high old lp adv)"

definition asym_token :: "real \<Rightarrow> real \<Rightarrow> real \<Rightarrow> real \<Rightarrow> real \<Rightarrow> real \<Rightarrow> real \<Rightarrow> real" where
  "asym_token w_neg low high c old lp adv =
     (if adv < 0 then w_neg * clip_pg_losses2 low high c old lp adv else clip_pg_losses1 low high old lp adv)"

text \<open>One value per token of the batch; the arguments are the old and new log-probabilities and the advantages.\<close>

definition tokenwise :: "(real \<Rightarrow> real \<Rightarrow> real \<Rightarrow> real) \<Rightarrow> matrix \<Rightarrow> matrix \<Rightarrow> matrix \<Rightarrow> matrix" where
  "tokenwise f old_log_prob log_prob advantages = mmap2 (\<lambda>(o', l) a. f o' l a) (mmap2 Pair old_log_prob log_prob) advantages"

definition mean_metric :: "matrix \<Rightarrow> matrix \<Rightarrow> real" where
  "mean_metric values response_mask = masked_mean_list (concat values) (concat response_mask)"

definition finish_loss :: "actor_config \<Rightarrow> matrix option \<Rightarrow> string \<Rightarrow> matrix \<Rightarrow> matrix \<Rightarrow> 'm \<Rightarrow> (real \<times> 'm) result" where
  "finish_loss config rollout_is_weights loss_agg_mode pg_losses response_mask metrics =
     (let pg_losses = (case rollout_is_weights of None \<Rightarrow> pg_losses | Some w \<Rightarrow> mmap2 (*) pg_losses w) in
      rbind (agg_loss pg_losses response_mask loss_agg_mode (ac_batch_info config)) (\<lambda>pg_loss. Inr (pg_loss, metrics)))"

definition clip_metrics :: "actor_config \<Rightarrow> real \<Rightarrow> matrix \<Rightarrow> matrix \<Rightarrow> matrix \<Rightarrow> matrix \<Rightarrow> pg_metrics" where
  "clip_metrics config c old_log_prob log_prob advantages response_mask =
     (let low = clip_low config; high = clip_high config in
      \<lparr> pg_clipfrac = mean_metric (tokenwise (\<lambda>o' l a. of_bool_real (pg_losses2 low high o' l a > pg_losses1 o' l a)) old_log_prob log_prob advantages) response_mask,
        ppo_kl = mean_metric (mmap2 (\<lambda>o' l. - negative_approx_kl o' l) old_log_prob log_prob) response_mask,
        pg_clipfrac_lower = mean_metric (tokenwise (\<lambda>o' l a. of_bool_real (clip_pg_losses1 low high o' l a > - a * c) * of_bool_real (a < 0))
          old_log_prob log_prob advantages) response_mask \<rparr>)"

definition compute_policy_loss_vanilla ::
  "matrix \<Rightarrow> matrix \<Rightarrow> matrix \<Rightarrow> matrix \<Rightarrow> string \<Rightarrow> actor_config \<Rightarrow> matrix option \<Rightarrow> (real \<times> pg_metrics) result" where
  "compute_policy_loss_vanilla old_log_prob log_prob advantages response_mask loss_agg_mode config rollout_is_weights =
     (let c = (case ac_clip_ratio_c config of None \<Rightarrow> 3 | Some c \<Rightarrow> c) in
      if \<not> c > 1 then Inl (AssertionError ''The lower bound of the clip_ratio_c for dual-clip PPO should be greater than 1.0,'')
      else finish_loss config rollout_is_weights loss_agg_mode
             (tokenwise (vanilla_token (clip_low config) (clip_high config) c) old_log_prob log_prob advantages) response_mask
             (clip_metrics config c old_log_prob log_prob advantages response_mask))"

definition compute_policy_loss_asym ::
  "matrix \<Rightarrow> matrix \<Rightarrow> matrix \<Rightarrow> matrix \<Rightarrow> string \<Rightarrow> actor_config \<Rightarrow> matrix option \<Rightarrow> (real \<times> pg_metrics \<times> real) result" where
  "compute_policy_loss_asym old_log_prob log_prob advantages response_mask loss_agg_mode config rollout_is_weights =
     (let w_neg = ac_negative_advantage_weight config;
          c = (case ac_clip_ratio_c config of None \<Rightarrow> 3 | Some c \<Rightarrow> c) in
      if \<not> c > 1 then Inl (AssertionError ''The lower bound of the clip_ratio_c for dual-clip PPO should be greater than 1.0,'')
      else finish_loss config rollout_is_weights loss_agg_mode
             (tokenwise (asym_token w_neg (clip_low config) (clip_high config) c) old_log_prob log_prob advantages) response_mask
             (clip_metrics config c old_log_prob log_prob advantages response_mask, w_neg))"

text \<open>The deprecated entry point, with its clip ranges as arguments and no batch information.\<close>

definition plain_info :: batch_info where
  "plain_info = \<lparr> bi_dp_size = 1, bi_batch_num_tokens = None, bi_global_batch_size = None, bi_loss_scale_factor = None \<rparr>"

definition compute_policy_loss ::
  "matrix \<Rightarrow> matrix \<Rightarrow> matrix \<Rightarrow> matrix \<Rightarrow> real \<Rightarrow> real option \<Rightarrow> real option \<Rightarrow> real \<Rightarrow> string \<Rightarrow> (real \<times> real \<times> real \<times> real) result" where
  "compute_policy_loss old_log_prob log_prob advantages response_mask cliprange cliprange_low cliprange_high clip_ratio_c loss_agg_mode =
     (let low = (case cliprange_low of None \<Rightarrow> cliprange | Some x \<Rightarrow> x); high = (case cliprange_high of None \<Rightarrow> cliprange | Some x \<Rightarrow> x) in
      if \<not> clip_ratio_c > 1 then Inl (AssertionError ''The lower bound of the clip_ratio_c for dual-clip PPO should be greater than 1.0,'')
      else rbind (agg_loss (tokenwise (vanilla_token low high clip_ratio_c) old_log_prob log_prob advantages) response_mask loss_agg_mode plain_info) (\<lambda>pg_loss.
        Inr (pg_loss,
          mean_metric (tokenwise (\<lambda>o' l a. of_bool_real (pg_losses2 low high o' l a > pg_losses1 o' l a)) old_log_prob log_prob advantages) response_mask,
          mean_metric (mmap2 (\<lambda>o' l. - negative_approx_kl o' l) old_log_prob log_prob) response_mask,
          mean_metric (tokenwise (\<lambda>o' l a. of_bool_real (clip_pg_losses1 low high o' l a > - a * clip_ratio_c) * of_bool_real (a < 0))
            old_log_prob log_prob advantages) response_mask)))"

section \<open>The other registered losses\<close>

text \<open>DPPO: a truncated ratio and a mask of the tokens whose divergence from the old policy is small.\<close>

definition tv_valid :: "real \<Rightarrow> real \<Rightarrow> real \<Rightarrow> real \<Rightarrow> real \<Rightarrow> bool" where
  "tv_valid low high old lp adv = (if adv > 0 then exp lp - exp old \<le> high else exp lp - exp old \<ge> - low)"

definition binary_kl :: "real \<Rightarrow> real \<Rightarrow> real" where
  "binary_kl old lp = exp old * (old - lp) + (1 - exp old) * ln ((1 - exp old + 1 / 10 ^ 8) / (1 - exp lp + 1 / 10 ^ 8))"

definition kl_valid :: "real \<Rightarrow> real \<Rightarrow> real \<Rightarrow> real \<Rightarrow> real \<Rightarrow> bool" where
  "kl_valid low high old lp adv =
     (if adv > 0 then binary_kl old lp \<le> high \<or> exp lp \<le> exp old else binary_kl old lp \<le> low \<or> exp lp \<ge> exp old)"

definition dppo_token :: "(real \<Rightarrow> real \<Rightarrow> real \<Rightarrow> bool) \<Rightarrow> real \<Rightarrow> real \<Rightarrow> real \<Rightarrow> real \<Rightarrow> real" where
  "dppo_token valid c old lp adv = - adv * min (exp (negative_approx_kl old lp)) c * lp * of_bool_real (valid old lp adv)"

definition dppo_loss ::
  "(real \<Rightarrow> real \<Rightarrow> real \<Rightarrow> bool) \<Rightarrow> matrix \<Rightarrow> matrix \<Rightarrow> matrix \<Rightarrow> matrix \<Rightarrow> string \<Rightarrow> actor_config \<Rightarrow> matrix option \<Rightarrow> (real \<times> pg_metrics) result" where
  "dppo_loss valid old_log_prob log_prob advantages response_mask loss_agg_mode config rollout_is_weights =
     (let c = (case ac_clip_ratio_c config of None \<Rightarrow> 20 | Some c \<Rightarrow> c) in
      finish_loss config rollout_is_weights loss_agg_mode (tokenwise (dppo_token valid c) old_log_prob log_prob advantages) response_mask
        \<lparr> pg_clipfrac = mean_metric (tokenwise (\<lambda>o' l a. 1 - of_bool_real (valid o' l a)) old_log_prob log_prob advantages) response_mask,
          ppo_kl = mean_metric (mmap2 (\<lambda>o' l. - negative_approx_kl o' l) old_log_prob log_prob) response_mask,
          pg_clipfrac_lower = mean_metric (tokenwise (\<lambda>o' l a. of_bool_real (exp (negative_approx_kl o' l) > c) * of_bool_real (valid o' l a))
            old_log_prob log_prob advantages) response_mask \<rparr>)"

definition compute_policy_loss_dppo_tv ::
  "matrix \<Rightarrow> matrix \<Rightarrow> matrix \<Rightarrow> matrix \<Rightarrow> string \<Rightarrow> actor_config \<Rightarrow> matrix option \<Rightarrow> (real \<times> pg_metrics) result" where
  "compute_policy_loss_dppo_tv old_log_prob log_prob advantages response_mask loss_agg_mode config rollout_is_weights =
     dppo_loss (tv_valid (clip_low config) (clip_high config)) old_log_prob log_prob advantages response_mask loss_agg_mode config rollout_is_weights"

definition compute_policy_loss_dppo_kl ::
  "matrix \<Rightarrow> matrix \<Rightarrow> matrix \<Rightarrow> matrix \<Rightarrow> string \<Rightarrow> actor_config \<Rightarrow> matrix option \<Rightarrow> (real \<times> pg_metrics) result" where
  "compute_policy_loss_dppo_kl old_log_prob log_prob advantages response_mask loss_agg_mode config rollout_is_weights =
     dppo_loss (kl_valid (clip_low config) (clip_high config)) old_log_prob log_prob advantages response_mask loss_agg_mode config rollout_is_weights"

text \<open>GSPO: one importance ratio per sequence, the geometric mean of the token ratios.\<close>

definition seq_log_ratio :: "real list \<Rightarrow> real list \<Rightarrow> real list \<Rightarrow> real" where
  "seq_log_ratio old lp m = (\<Sum>((o', l), x)\<leftarrow>zip (zip old lp) m. (l - o') * x) / max 1 (sum_list m)"

definition gspo_ratio :: "real list \<Rightarrow> real list \<Rightarrow> real list \<Rightarrow> real" where
  "gspo_ratio old lp m = exp (min 10 (seq_log_ratio old lp m))"

definition gspo_losses :: "(real \<Rightarrow> real \<Rightarrow> real) \<Rightarrow> matrix \<Rightarrow> matrix \<Rightarrow> matrix \<Rightarrow> matrix \<Rightarrow> matrix" where
  "gspo_losses f old_log_prob log_prob advantages response_mask =
     map (\<lambda>((old, lp), (adv, m)). map (\<lambda>a. f (gspo_ratio old lp m) a) adv)
       (zip (zip old_log_prob log_prob) (zip advantages response_mask))"

definition compute_policy_loss_gspo ::
  "matrix \<Rightarrow> matrix \<Rightarrow> matrix \<Rightarrow> matrix \<Rightarrow> actor_config \<Rightarrow> matrix option \<Rightarrow> (real \<times> pg_metrics) result" where
  "compute_policy_loss_gspo old_log_prob log_prob advantages response_mask config rollout_is_weights =
     (let low = clip_low config; high = clip_high config;
          l1 = (\<lambda>s a. - a * s); l2 = (\<lambda>s a. - a * clamp (1 - low) (1 + high) s) in
      finish_loss config rollout_is_weights ''seq-mean-token-mean''
        (gspo_losses (\<lambda>s a. max (l1 s a) (l2 s a)) old_log_prob log_prob advantages response_mask) response_mask
        \<lparr> pg_clipfrac = mean_metric (gspo_losses (\<lambda>s a. of_bool_real (l2 s a > l1 s a)) old_log_prob log_prob advantages response_mask) response_mask,
          ppo_kl = mean_metric (mmap2 (\<lambda>o' l. - (l - o')) old_log_prob log_prob) response_mask,
          pg_clipfrac_lower = 0 \<rparr>)"

definition sigmoid :: "real \<Rightarrow> real" where
  "sigmoid x = 1 / (1 + exp (- x))"

definition gate_function :: "real \<Rightarrow> real \<Rightarrow> real" where
  "gate_function x tau = sigmoid (tau * (x - 1)) * (4 / tau)"

definition sapo_token :: "real \<Rightarrow> real \<Rightarrow> real \<Rightarrow> real \<Rightarrow> real \<Rightarrow> real" where
  "sapo_token tau_pos tau_neg old lp adv =
     - gate_function (exp (negative_approx_kl old lp)) (if adv > 0 then tau_pos else tau_neg) * adv"

definition compute_policy_loss_sapo ::
  "matrix \<Rightarrow> matrix \<Rightarrow> matrix \<Rightarrow> matrix \<Rightarrow> actor_config \<Rightarrow> matrix option \<Rightarrow> (real \<times> pg_metrics) result" where
  "compute_policy_loss_sapo old_log_prob log_prob advantages response_mask config rollout_is_weights =
     finish_loss config rollout_is_weights ''seq-mean-token-mean''
       (tokenwise (sapo_token (ac_tau_pos config) (ac_tau_neg config)) old_log_prob log_prob advantages) response_mask
       \<lparr> pg_clipfrac = 0, ppo_kl = mean_metric (mmap2 (\<lambda>o' l. - negative_approx_kl o' l) old_log_prob log_prob) response_mask, pg_clipfrac_lower = 0 \<rparr>"

definition compute_policy_loss_gpg ::
  "matrix \<Rightarrow> matrix \<Rightarrow> matrix \<Rightarrow> string \<Rightarrow> actor_config \<Rightarrow> matrix option \<Rightarrow> (real \<times> unit) result" where
  "compute_policy_loss_gpg log_prob advantages response_mask loss_agg_mode config rollout_is_weights =
     finish_loss config rollout_is_weights loss_agg_mode (mmap2 (\<lambda>l a. - l * a) log_prob advantages) response_mask ()"

definition cispo_token :: "real \<Rightarrow> real \<Rightarrow> real \<Rightarrow> real \<Rightarrow> real \<Rightarrow> real" where
  "cispo_token low high old lp adv = - clamp (1 - low) (1 + high) (exp (negative_approx_kl old lp)) * adv * lp"

definition compute_policy_loss_cispo ::
  "matrix \<Rightarrow> matrix \<Rightarrow> matrix \<Rightarrow> matrix \<Rightarrow> string \<Rightarrow> actor_config \<Rightarrow> matrix option \<Rightarrow> (real \<times> pg_metrics) result" where
  "compute_policy_loss_cispo old_log_prob log_prob advantages response_mask loss_agg_mode config rollout_is_weights =
     (let low = clip_low config; high = clip_high config in
      finish_loss config rollout_is_weights loss_agg_mode
        (tokenwise (cispo_token low high) old_log_prob log_prob advantages) response_mask
        \<lparr> pg_clipfrac = mean_metric (mmap2 (\<lambda>o' l. of_bool_real (exp (negative_approx_kl o' l) \<noteq> clamp (1 - low) (1 + high) (exp (negative_approx_kl o' l)))) old_log_prob log_prob) response_mask,
          ppo_kl = mean_metric (mmap2 (\<lambda>o' l. - negative_approx_kl o' l) old_log_prob log_prob) response_mask,
          pg_clipfrac_lower = 0 \<rparr>)"

text \<open>GMPO: token log-ratios clipped on the side of the advantage, their geometric mean per sequence.\<close>

definition geo_clip :: "real \<Rightarrow> real \<Rightarrow> real \<Rightarrow> real \<Rightarrow> real" where
  "geo_clip low high d adv = sgn adv * min (sgn adv * d) (sgn adv * clamp (- low) high d)"

definition geo_loss :: "real \<Rightarrow> real \<Rightarrow> real list \<Rightarrow> real list \<Rightarrow> real list \<Rightarrow> real list \<Rightarrow> real" where
  "geo_loss low high old lp adv m =
     (let n = sum_list m + 1 / 10 ^ 8;
          ratio = exp ((\<Sum>((o', l), (a, x))\<leftarrow>zip (zip old lp) (zip adv m). geo_clip low high (l - o') a * x) / n);
          advantage = (\<Sum>(a, x)\<leftarrow>zip adv m. a * x) / n
      in - advantage * ratio)"

definition seq_is_weight :: "real list \<Rightarrow> real list \<Rightarrow> real" where
  "seq_is_weight w m = exp ((\<Sum>(v, x)\<leftarrow>zip w m. ln (v + 1 / 10 ^ 10) * x) / (sum_list m + 1 / 10 ^ 8))"

definition compute_policy_loss_geo_mean ::
  "matrix \<Rightarrow> matrix \<Rightarrow> matrix \<Rightarrow> matrix \<Rightarrow> actor_config \<Rightarrow> matrix option \<Rightarrow> real \<times> pg_metrics" where
  "compute_policy_loss_geo_mean old_log_prob log_prob advantages response_mask config rollout_is_weights =
     (let low = clip_low config; high = clip_high config;
          pg_losses = map (\<lambda>((old, lp), (adv, m)). geo_loss low high old lp adv m) (zip (zip old_log_prob log_prob) (zip advantages response_mask));
          pg_losses = (case rollout_is_weights of None \<Rightarrow> pg_losses
                       | Some w \<Rightarrow> map (\<lambda>(x, (v, m)). x * seq_is_weight v m) (zip pg_losses (zip w response_mask)));
          clipped = (\<lambda>o' l. l - o' \<noteq> clamp (- low) high (l - o'))
      in (mean_list pg_losses,
          \<lparr> pg_clipfrac = mean_metric (tokenwise (\<lambda>o' l a. of_bool_real (clipped o' l \<and> a > 0)) old_log_prob log_prob advantages) response_mask,
            ppo_kl = mean_metric (mmap2 (\<lambda>o' l. - (l - o')) old_log_prob log_prob) response_mask,
            pg_clipfrac_lower = mean_metric (tokenwise (\<lambda>o' l a. of_bool_real (clipped o' l \<and> a < 0)) old_log_prob log_prob advantages) response_mask \<rparr>))"

text \<open>REINFORCE: no ratio; the metric is the divergence from the rollout policy.\<close>

definition compute_policy_loss_reinforce ::
  "matrix \<Rightarrow> matrix \<Rightarrow> matrix \<Rightarrow> matrix \<Rightarrow> string \<Rightarrow> actor_config \<Rightarrow> matrix option \<Rightarrow> (real \<times> real) result" where
  "compute_policy_loss_reinforce rollout_log_prob log_prob advantages response_mask loss_agg_mode config rollout_is_weights =
     finish_loss config rollout_is_weights loss_agg_mode (mmap2 (\<lambda>a l. - a * l) advantages log_prob) response_mask
       (mean_metric (mmap2 (\<lambda>o' l. - (l - o')) rollout_log_prob log_prob) response_mask)"

section \<open>Rewards, value loss, KL penalty\<close>

definition compute_rewards :: "matrix \<Rightarrow> matrix \<Rightarrow> matrix \<Rightarrow> real \<Rightarrow> matrix" where
  "compute_rewards token_level_scores old_log_prob ref_log_prob kl_ratio =
     mmap2 (\<lambda>s kl. s - kl * kl_ratio) token_level_scores (mmap2 (\<lambda>o' r. o' - r) old_log_prob ref_log_prob)"

definition clip_by_value :: "real \<Rightarrow> real \<Rightarrow> real \<Rightarrow> real" where
  "clip_by_value x lo hi = max (min x hi) lo"

definition vf_losses :: "real \<Rightarrow> real \<Rightarrow> real \<Rightarrow> real \<Rightarrow> real \<times> real" where
  "vf_losses cliprange_value vpred ret val =
     (let vpredclipped = clip_by_value vpred (val - cliprange_value) (val + cliprange_value) in
      ((vpred - ret)\<^sup>2, (vpredclipped - ret)\<^sup>2))"

definition compute_value_loss :: "matrix \<Rightarrow> matrix \<Rightarrow> matrix \<Rightarrow> matrix \<Rightarrow> real \<Rightarrow> string \<Rightarrow> (real \<times> real) result" where
  "compute_value_loss vpreds returns values response_mask cliprange_value loss_agg_mode =
     (let losses = mmap2 (\<lambda>(p, r) v. vf_losses cliprange_value p r v) (mmap2 Pair vpreds returns) values in
      rbind (agg_loss (map (map (\<lambda>(a, b). max a b)) losses) response_mask loss_agg_mode plain_info) (\<lambda>loss.
      Inr (1 / 2 * loss, mean_metric (map (map (\<lambda>(a, b). of_bool_real (b > a))) losses) response_mask)))"

definition kl_penalty_forward :: "real \<Rightarrow> real \<Rightarrow> string \<Rightarrow> real result" where
  "kl_penalty_forward logprob ref_logprob kl_penalty =
     (if kl_penalty = ''kl'' \<or> kl_penalty = ''k1'' then Inr (logprob - ref_logprob)
      else if kl_penalty = ''abs'' then Inr \<bar>logprob - ref_logprob\<bar>
      else if kl_penalty = ''mse'' \<or> kl_penalty = ''k2'' then Inr (1 / 2 * (logprob - ref_logprob)\<^sup>2)
      else if kl_penalty = ''low_var_kl'' \<or> kl_penalty = ''k3''
      then let kl = clamp (- 20) 20 (ref_logprob - logprob) in Inr (clamp (- 10) 10 (exp kl - kl - 1))
      else Inl (RuntimeError ''NotImplementedError''))"

text \<open>The value of \<open>kl_penalty\<close>; its straight-through term \<open>x - x.detach()\<close> is zero.\<close>

definition ends_with_plus :: "string \<Rightarrow> bool" where
  "ends_with_plus s \<longleftrightarrow> s \<noteq> [] \<and> last s = CHR ''+''"

definition kl_penalty :: "real \<Rightarrow> real \<Rightarrow> string \<Rightarrow> real result" where
  "kl_penalty logprob ref_logprob name =
     (let base_kl_penalty = (if ends_with_plus name then butlast name else name) in
      rbind (kl_penalty_forward logprob ref_logprob base_kl_penalty) (\<lambda>forward_score.
        if \<not> ends_with_plus name \<or> name = ''mse'' \<or> name = ''k2'' then Inr forward_score
        else let backward_score = 1 / 2 * (logprob - ref_logprob)\<^sup>2 in Inr (backward_score - backward_score + forward_score)))"

section \<open>The clipped token loss\<close>

lemma pessimistic_positive:
  assumes "0 \<le> a" "low + high \<ge> (0 :: real)"
  shows "max (- a * r) (- a * clamp (1 - low) (1 + high) r) = - a * min r (1 + high)"
proof -
  have "min r (clamp (1 - low) (1 + high) r) = min r (1 + high)" using assms(2) by (auto simp: clamp_def min_def max_def)
  moreover have "max (- a * r) (- a * s) = - a * min r s" for s
  proof (cases "r \<le> s")
    case True
    then show ?thesis using mult_left_mono [OF True assms(1)] by (simp add: min_def max_def)
  next
    case False
    then have "s \<le> r" by simp
    then show ?thesis using mult_left_mono [OF \<open>s \<le> r\<close> assms(1)] False by (simp add: min_def max_def)
  qed
  ultimately show ?thesis by simp
qed

lemma pessimistic_negative:
  assumes "a < 0" "low + high \<ge> (0 :: real)"
  shows "max (- a * r) (- a * clamp (1 - low) (1 + high) r) = - a * max r (1 - low)"
proof -
  have "max r (clamp (1 - low) (1 + high) r) = max r (1 - low)" using assms(2) by (auto simp: clamp_def min_def max_def)
  moreover have "max (- a * r) (- a * s) = - a * max r s" for s
  proof (cases "r \<le> s")
    case True
    then show ?thesis using mult_left_mono [OF True, of "- a"] assms(1) by (simp add: max_def)
  next
    case False
    then have "s \<le> r" by simp
    then show ?thesis using mult_left_mono [OF \<open>s \<le> r\<close>, of "- a"] assms(1) False by (auto simp: max_def)
  qed
  ultimately show ?thesis by simp
qed

lemma min_scale: "0 \<le> (k :: real) \<Longrightarrow> min (k * x) (k * y) = k * min x y"
  by (auto simp: min_def mult_left_mono) (metis mult_le_cancel_left_pos nless_le mult_zero_left)

text \<open>
  C39. The clipped objective of a token, in closed form. With advantage A and ratio r, the loss is
  -A min(r, 1 + high) for A at least 0, and -A min(c, max(r, 1 - low)) for negative A: the gain from
  raising a good token stops at 1 + high, the loss of a bad one at c, and the asymmetric loss scales the
  second case by \<open>w_neg\<close> and leaves the first.
\<close>
theorem policy_token_loss_closed_form:
  assumes "0 \<le> low + high" "r = exp (negative_approx_kl old lp)"
  shows "asym_token w_neg low high c old lp adv =
      (if adv < 0 then w_neg * (- adv * min c (max r (1 - low))) else - adv * min r (1 + high)) \<and>
    vanilla_token low high c old lp adv = asym_token 1 low high c old lp adv"
proof -
  have p: "clip_pg_losses1 low high old lp adv = - adv * min r (1 + high)" if "\<not> adv < 0"
    using pessimistic_positive [of adv low high r] that assms by (simp add: clip_pg_losses1_def pg_losses1_def pg_losses2_def)
  have n: "clip_pg_losses2 low high c old lp adv = - adv * min c (max r (1 - low))" if a: "adv < 0"
    using pessimistic_negative [OF a assms(1), of r] assms(2) a min_scale [of "- adv" c "max r (1 - low)"]
    by (simp add: clip_pg_losses2_def clip_pg_losses1_def pg_losses1_def pg_losses2_def)
  show ?thesis using p n by (simp add: asym_token_def vanilla_token_def)
qed

section \<open>Whole losses\<close>

text \<open>
  GrowMTP's asymmetric loss with weight 1 is the vanilla loss: same value, same metrics, same errors, in
  every aggregation mode, with and without rollout weights.
\<close>
theorem asym_weight_one_is_vanilla:
  assumes "ac_negative_advantage_weight config = 1"
  shows "compute_policy_loss_asym old_log_prob log_prob advantages response_mask loss_agg_mode config rollout_is_weights =
    rbind (compute_policy_loss_vanilla old_log_prob log_prob advantages response_mask loss_agg_mode config rollout_is_weights)
      (\<lambda>(loss, metrics). Inr (loss, metrics, 1))"
proof -
  have "asym_token 1 low high c = vanilla_token low high c" for low high c
    by (intro ext) (simp add: asym_token_def vanilla_token_def)
  then show ?thesis using assms
    by (simp add: compute_policy_loss_asym_def compute_policy_loss_vanilla_def finish_loss_def Let_def rbind_def split: sum.split option.split)
qed

section \<open>Aggregation over data-parallel ranks\<close>

text \<open>The numerator, the default divisor and the scale that \<open>agg_loss\<close> computes in each mode.\<close>

definition agg_num :: "string \<Rightarrow> matrix \<Rightarrow> matrix \<Rightarrow> real" where
  "agg_num mode L M =
     (if mode = ''token-mean'' then masked_sum_list (concat L) (concat M)
      else if mode = ''seq-mean-token-mean''
      then masked_sum_list (map (\<lambda>(s, n). s / (n + 1 / 10 ^ 8)) (zip (seq_sums L M) (map sum_list M))) (indicator_pos (map sum_list M))
      else masked_sum_list (seq_sums L M) (indicator_pos (map sum_list M)))"

definition agg_den :: "string \<Rightarrow> matrix \<Rightarrow> real" where
  "agg_den mode M = (if mode = ''token-mean'' then sum_list (concat M) else sum_list (indicator_pos (map sum_list M)))"

definition agg_scale :: "string \<Rightarrow> real option \<Rightarrow> nat \<Rightarrow> real" where
  "agg_scale mode f w = (if mode = ''seq-mean-token-sum-norm'' then case f of None \<Rightarrow> real w | Some x \<Rightarrow> x else 1)"

definition agg_modes :: "string list" where
  "agg_modes = [''token-mean'', ''seq-mean-token-sum'', ''seq-mean-token-sum-norm'', ''seq-mean-token-mean'']"

text \<open>A mask with rows, all of length \<open>w\<close>.\<close>

definition rows_of :: "nat \<Rightarrow> matrix \<Rightarrow> bool" where
  "rows_of w M \<longleftrightarrow> M \<noteq> [] \<and> (\<forall>m \<in> set M. length m = w)"

lemma horizon_rows: "rows_of w M \<Longrightarrow> horizon M = w"
  by (cases M) (auto simp: rows_of_def horizon_def)

lemma agg_loss_counts:
  assumes "mode \<in> set agg_modes" "bi_batch_num_tokens info = Some tokens" "bi_global_batch_size info = Some seqs"
  shows "agg_loss L M mode info =
    Inr (agg_num mode L M / (if mode = ''token-mean'' then tokens else seqs) * real (bi_dp_size info)
      / agg_scale mode (bi_loss_scale_factor info) (horizon M))"
  using assms by (auto simp: agg_modes_def agg_loss_def agg_num_def agg_scale_def Let_def rbind_def)

lemma agg_loss_single:
  assumes "mode \<in> set agg_modes"
  shows "agg_loss L M mode \<lparr> bi_dp_size = 1, bi_batch_num_tokens = None, bi_global_batch_size = None, bi_loss_scale_factor = f \<rparr> =
    Inr (agg_num mode L M / agg_den mode M / agg_scale mode f (horizon M))"
  using assms by (auto simp: agg_modes_def agg_loss_def agg_num_def agg_den_def agg_scale_def Let_def rbind_def)

lemma agg_den_no_masked_row:
  assumes "\<forall>m \<in> set M. 0 < sum_list m" "mode \<noteq> ''token-mean''"
  shows "agg_den mode M = real (length M)"
  using assms(1) unfolding agg_den_def by (induction M) (use assms(2) in \<open>auto simp: indicator_pos_def\<close>)

lemma masked_sum_list_append:
  "length xs = length ms \<Longrightarrow> masked_sum_list (xs @ ys) (ms @ ns) = masked_sum_list xs ms + masked_sum_list ys ns"
  by (simp add: masked_sum_list_def)

lemma seq_sums_append: "length L = length M \<Longrightarrow> seq_sums (L @ L') (M @ M') = seq_sums L M @ seq_sums L' M'"
  by (simp add: seq_sums_def mmap2_def)

lemma length_seq_sums [simp]: "length (seq_sums L M) = min (length L) (length M)"
  by (simp add: seq_sums_def mmap2_def)

lemma indicator_pos_append: "indicator_pos (xs @ ys) = indicator_pos xs @ indicator_pos ys"
  by (simp add: indicator_pos_def)

lemma length_indicator_pos [simp]: "length (indicator_pos xs) = length xs"
  by (simp add: indicator_pos_def)

lemma agg_num_append:
  assumes "map length L = map length M"
  shows "agg_num mode (L @ L') (M @ M') = agg_num mode L M + agg_num mode L' M'"
proof -
  have len: "length L = length M" using assms by (metis length_map)
  have "length (concat L) = length (concat M)" using assms by (simp add: length_concat)
  then show ?thesis using len
    by (simp add: agg_num_def seq_sums_append indicator_pos_append masked_sum_list_append)
qed

lemma agg_num_Nil: "agg_num mode [] [] = 0"
  by (simp add: agg_num_def masked_sum_list_def seq_sums_def mmap2_def indicator_pos_def)

lemma agg_num_concat:
  assumes "\<forall>(L, M) \<in> set ranks. map length L = map length M"
  shows "agg_num mode (concat (map fst ranks)) (concat (map snd ranks)) = (\<Sum>(L, M)\<leftarrow>ranks. agg_num mode L M)"
  using assms by (induction ranks) (auto simp: agg_num_Nil agg_num_append)

lemma agg_num_select:
  assumes "\<forall>i \<in> set p. length (L ! i) = length (M ! i)"
  shows "agg_num mode (map ((!) L) p) (map ((!) M) p) = (\<Sum>i\<leftarrow>p. agg_num mode [L ! i] [M ! i])"
  using agg_num_concat [of "map (\<lambda>i. ([L ! i], [M ! i])) p" mode] assms by (simp add: comp_def)

text \<open>
  C36. \<open>agg_loss\<close> does not depend on how a batch is spread over data-parallel ranks. Every rank passes the
  number of ranks and the same counts, whatever they are: the trainer passes the valid tokens of the global
  batch and its configured mini-batch size. Then in each of the four modes every rank gets a loss, and the mean
  of these losses over the ranks, which gradient averaging takes, is the loss that one rank computes for the
  whole batch with these counts. If the counts are the tokens and the rows of the batch and no row is fully
  masked, it is also the loss of the call that passes no counts. (With a fully masked row the two calls differ:
  the default divides by the rows that are kept.)
\<close>
theorem agg_loss_data_parallel:
  assumes "ranks \<noteq> []" "\<forall>(L, M) \<in> set ranks. map length L = map length M \<and> rows_of w M" "mode \<in> set agg_modes"
    and G: "G = concat (map snd ranks)"
  shows "\<exists>losses. map (\<lambda>(L, M). agg_loss L M mode \<lparr> bi_dp_size = length ranks, bi_batch_num_tokens = Some tokens,
      bi_global_batch_size = Some seqs, bi_loss_scale_factor = f \<rparr>) ranks = map Inr losses \<and>
    agg_loss (concat (map fst ranks)) G mode \<lparr> bi_dp_size = 1, bi_batch_num_tokens = Some tokens,
      bi_global_batch_size = Some seqs, bi_loss_scale_factor = f \<rparr> = Inr (sum_list losses / real (length ranks)) \<and>
    (tokens = sum_list (concat G) \<and> seqs = real (length G) \<and> (\<forall>m \<in> set G. 0 < sum_list m) \<longrightarrow>
      agg_loss (concat (map fst ranks)) G mode \<lparr> bi_dp_size = 1, bi_batch_num_tokens = None,
        bi_global_batch_size = None, bi_loss_scale_factor = f \<rparr> = Inr (sum_list losses / real (length ranks)))"
proof -
  define d where "d = (if mode = ''token-mean'' then tokens else seqs)"
  define q where "q = real (length ranks) / d / agg_scale mode f w"
  define losses where "losses = map (\<lambda>(L, M). agg_num mode L M * q) ranks"
  have shape: "\<forall>(L, M) \<in> set ranks. map length L = map length M" using assms(2) by auto
  have rows: "rows_of w G" using assms(1,2) unfolding G rows_of_def by (cases ranks) auto
  have scale: "(\<Sum>(L, M)\<leftarrow>xs. agg_num mode L M * c) = (\<Sum>(L, M)\<leftarrow>xs. agg_num mode L M) * c" for xs and c :: real
    by (induction xs) (auto simp: algebra_simps)
  have mean: "sum_list losses / real (length ranks) = agg_num mode (concat (map fst ranks)) G / d / agg_scale mode f w"
    using assms(1) agg_num_concat [OF shape, of mode] unfolding losses_def scale G by (simp add: q_def)
  have rank: "agg_loss L M mode \<lparr> bi_dp_size = length ranks, bi_batch_num_tokens = Some tokens,
      bi_global_batch_size = Some seqs, bi_loss_scale_factor = f \<rparr> = Inr (agg_num mode L M * q)" if "(L, M) \<in> set ranks" for L M
    using that assms(2) agg_loss_counts [OF assms(3), of _ tokens seqs L M] by (auto simp: horizon_rows q_def d_def)
  have "map (\<lambda>(L, M). agg_loss L M mode \<lparr> bi_dp_size = length ranks, bi_batch_num_tokens = Some tokens,
      bi_global_batch_size = Some seqs, bi_loss_scale_factor = f \<rparr>) ranks = map Inr losses"
    using rank by (auto simp: losses_def)
  moreover have "agg_loss (concat (map fst ranks)) G mode \<lparr> bi_dp_size = 1, bi_batch_num_tokens = Some tokens,
      bi_global_batch_size = Some seqs, bi_loss_scale_factor = f \<rparr> = Inr (sum_list losses / real (length ranks))"
    unfolding mean using agg_loss_counts [OF assms(3), of _ tokens seqs _ G] by (simp add: horizon_rows [OF rows] d_def)
  moreover have "agg_loss (concat (map fst ranks)) G mode \<lparr> bi_dp_size = 1, bi_batch_num_tokens = None,
      bi_global_batch_size = None, bi_loss_scale_factor = f \<rparr> = Inr (sum_list losses / real (length ranks))"
    if c: "tokens = sum_list (concat G) \<and> seqs = real (length G) \<and> (\<forall>m \<in> set G. 0 < sum_list m)"
  proof -
    have "agg_den mode G = d" using c agg_den_no_masked_row [of G mode] by (auto simp: d_def agg_den_def)
    then show ?thesis unfolding mean agg_loss_single [OF assms(3)] by (simp add: horizon_rows [OF rows])
  qed
  ultimately show ?thesis by (intro exI [of _ losses]) blast
qed

section \<open>The KL penalty\<close>

lemma kl_penalty_plain: "last name \<noteq> CHR ''+'' \<Longrightarrow> kl_penalty lp ref name = kl_penalty_forward lp ref name"
  by (simp add: kl_penalty_def ends_with_plus_def rbind_def Let_def split: sum.split)

text \<open>
  The KL estimators and their direction: for a token drawn from the policy p, the expected value of \<open>k1\<close> is
  the divergence of p from the reference q, and so is that of the low-variance \<open>k3\<close> where its two
  clamps do not bite.
\<close>

definition k3_in_range :: "real \<Rightarrow> bool" where
  "k3_in_range d \<longleftrightarrow> \<bar>d\<bar> \<le> 20 \<and> exp d - d - 1 \<le> 10"

lemma k1_value: "kl_penalty lp ref ''k1'' = Inr (lp - ref)"
  by (simp add: kl_penalty_plain kl_penalty_forward_def)

lemma k3_value:
  assumes "k3_in_range (ref - lp)"
  shows "kl_penalty lp ref ''k3'' = Inr (exp (ref - lp) - (ref - lp) - 1)"
proof -
  have "exp (ref - lp) - (ref - lp) - 1 \<ge> 0" using exp_ge_add_one_self [of "ref - lp"] by linarith
  then show ?thesis using assms
    by (auto simp: k3_in_range_def kl_penalty_plain kl_penalty_forward_def clamp_def Let_def min_def max_def)
qed

lemma k3_expectation:
  assumes "length q = length (p :: real list)" "\<forall>x \<in> set p. 0 < x" "\<forall>y \<in> set q. 0 < y" "sum_list p = 1" "sum_list q = 1"
  shows "(\<Sum>(x, y)\<leftarrow>zip p q. x * (ln x - ln y)) = (\<Sum>(x, y)\<leftarrow>zip p q. x * (exp (ln y - ln x) - (ln y - ln x) - 1))"
proof -
  have "(\<Sum>(x, y)\<leftarrow>zip p q. x * (exp (ln y - ln x) - (ln y - ln x) - 1)) =
      (\<Sum>(x, y)\<leftarrow>zip p q. x * (ln x - ln y)) + sum_list q - sum_list p"
    using assms(1-3)
  proof (induction q p rule: list_induct2)
    case (Cons y q x p)
    then have "exp (ln y - ln x) = y / x" by (subst exp_diff) (simp add: exp_ln)
    then have "x * exp (ln y - ln x) = y" using Cons(3) by simp
    then have "x * (exp (ln y - ln x) - (ln y - ln x) - 1) = x * (ln x - ln y) + y - x" by (simp add: algebra_simps)
    with Cons show ?case by simp
  qed simp
  then show ?thesis using assms(4,5) by simp
qed

lemma kl_estimators_unbiased:
  assumes "length q = length p" "\<forall>x \<in> set p. 0 < x" "\<forall>y \<in> set q. 0 < y" "sum_list p = 1" "sum_list q = 1"
    and "\<forall>(x, y) \<in> set (zip p q). k3_in_range (ln y - ln x)"
  shows "\<exists>k1 k3. map (\<lambda>(x, y). kl_penalty (ln x) (ln y) ''k1'') (zip p q) = map Inr k1 \<and>
    map (\<lambda>(x, y). kl_penalty (ln x) (ln y) ''k3'') (zip p q) = map Inr k3 \<and>
    (\<Sum>(x, v)\<leftarrow>zip p k1. x * v) = (\<Sum>(x, y)\<leftarrow>zip p q. x * ln (x / y)) \<and>
    (\<Sum>(x, v)\<leftarrow>zip p k3. x * v) = (\<Sum>(x, y)\<leftarrow>zip p q. x * ln (x / y))"
proof -
  define k1 where "k1 = map (\<lambda>(x, y). ln x - ln y) (zip p q)"
  define k3 where "k3 = map (\<lambda>(x, y). exp (ln y - ln x) - (ln y - ln x) - 1) (zip p q)"
  have kl: "(\<Sum>(x, y)\<leftarrow>zip p q. x * ln (x / y)) = (\<Sum>(x, y)\<leftarrow>zip p q. x * (ln x - ln y))"
    using assms(1-3) by (induction q p rule: list_induct2) (simp_all add: ln_div)
  have weigh: "(\<Sum>(x, v)\<leftarrow>zip p (map g (zip p q)). x * v) = (\<Sum>(x, y)\<leftarrow>zip p q. x * g (x, y))" for g :: "real \<times> real \<Rightarrow> real"
    using assms(1) by (induction q p rule: list_induct2) simp_all
  have "map (\<lambda>(x, y). kl_penalty (ln x) (ln y) ''k1'') (zip p q) = map Inr k1" by (auto simp: k1_def k1_value)
  moreover have "map (\<lambda>(x, y). kl_penalty (ln x) (ln y) ''k3'') (zip p q) = map Inr k3"
    using assms(6) by (auto simp: k3_def k3_value)
  ultimately show ?thesis using kl k3_expectation [OF assms(1-5)]
    by (intro exI [of _ k1] exI [of _ k3]) (simp add: k1_def k3_def weigh)
qed

section \<open>Witnesses\<close>

text \<open>A good token whose ratio grew past the clip range.\<close>

lemma policy_token_loss_closed_form_witness:
  "asym_token (1 / 2) (2 / 10) (2 / 10) 3 (- 1) 0 2 = - 2 * min (exp 1) (12 / 10) \<and>
   vanilla_token (2 / 10) (2 / 10) 3 (- 1) 0 2 = asym_token 1 (2 / 10) (2 / 10) 3 (- 1) 0 2"
  using policy_token_loss_closed_form [of "2 / 10" "2 / 10" "exp (negative_approx_kl (- 1) 0)" "- 1" 0 "1 / 2" 3 2]
  by (simp add: negative_approx_kl_def clamp_def)

definition example_actor :: actor_config where
  "example_actor = \<lparr> ac_clip_ratio = 2 / 10, ac_clip_ratio_low = None, ac_clip_ratio_high = Some (28 / 100), ac_clip_ratio_c = None,
     ac_negative_advantage_weight = 1, ac_tau_pos = 1, ac_tau_neg = 2, ac_batch_info = plain_info \<rparr>"

lemma asym_weight_one_is_vanilla_witness:
  "compute_policy_loss_asym [[0, - 1]] [[0, - 1]] [[1, - 2]] [[1, 1]] ''token-mean'' example_actor None =
    rbind (compute_policy_loss_vanilla [[0, - 1]] [[0, - 1]] [[1, - 2]] [[1, 1]] ''token-mean'' example_actor None)
      (\<lambda>(loss, metrics). Inr (loss, metrics, 1))"
  by (rule asym_weight_one_is_vanilla) (simp add: example_actor_def)

text \<open>Two ranks of unequal size in the mode that divides by the width, without and with a fully masked row.\<close>

lemma agg_loss_data_parallel_witness:
  "(\<exists>losses. map (\<lambda>(L, M). agg_loss L M ''seq-mean-token-sum-norm''
      \<lparr> bi_dp_size = 2, bi_batch_num_tokens = Some 4, bi_global_batch_size = Some 3, bi_loss_scale_factor = None \<rparr>)
      [([[1, 2]], [[1, 1]]), ([[3, 4], [5, 6]], [[1, 0], [0, 1]])] = map Inr losses \<and>
    agg_loss [[1, 2], [3, 4], [5, 6]] [[1, 1], [1, 0], [0, 1]] ''seq-mean-token-sum-norm'' plain_info = Inr (sum_list losses / 2)) \<and>
   (\<exists>losses. map (\<lambda>(L, M). agg_loss L M ''seq-mean-token-sum''
      \<lparr> bi_dp_size = 2, bi_batch_num_tokens = Some 3, bi_global_batch_size = Some 3, bi_loss_scale_factor = None \<rparr>)
      [([[1, 2]], [[1, 1]]), ([[3, 4], [5, 6]], [[1, 0], [0, 0]])] = map Inr losses \<and>
    agg_loss [[1, 2], [3, 4], [5, 6]] [[1, 1], [1, 0], [0, 0]] ''seq-mean-token-sum''
      \<lparr> bi_dp_size = 1, bi_batch_num_tokens = Some 3, bi_global_batch_size = Some 3, bi_loss_scale_factor = None \<rparr> = Inr (sum_list losses / 2))"
proof -
  define A :: "(matrix \<times> matrix) list" where "A = [([[1, 2]], [[1, 1]]), ([[3, 4], [5, 6]], [[1, 0], [0, 1]])]"
  define B :: "(matrix \<times> matrix) list" where "B = [([[1, 2]], [[1, 1]]), ([[3, 4], [5, 6]], [[1, 0], [0, 0]])]"
  have r: "A \<noteq> []" "B \<noteq> []" "\<forall>(L, M) \<in> set A. map length L = map length M \<and> rows_of 2 M"
    "\<forall>(L, M) \<in> set B. map length L = map length M \<and> rows_of 2 M" "length A = 2" "length B = 2"
    by (simp_all add: A_def B_def rows_of_def)
  have m: "''seq-mean-token-sum-norm'' \<in> set agg_modes" "''seq-mean-token-sum'' \<in> set agg_modes" by (simp_all add: agg_modes_def)
  have c: "concat (map fst A) = [[1, 2], [3, 4], [5, 6]]" "concat (map snd A) = [[1, 1], [1, 0], [0, 1]]"
    "concat (map fst B) = [[1, 2], [3, 4], [5, 6]]" "concat (map snd B) = [[1, 1], [1, 0], [0, 0]]" by (simp_all add: A_def B_def)
  show ?thesis
    using agg_loss_data_parallel [OF r(1,3) m(1) refl, of 4 3 None] agg_loss_data_parallel [OF r(2,4) m(2) refl, of 3 3 None]
    unfolding c r(5,6) A_def [symmetric] B_def [symmetric] plain_info_def by auto
qed

end
