(* ===== verification/Rollout_Corr.thy ===== *)
theory Rollout_Corr
  imports Policy_Loss
begin

text \<open>
  Rollout correction (\<open>verl/trainer/ppo/rollout_corr_helper.py\<close>): the importance weights and the rejection mask
  that make up for the difference between the policy that generated a batch and the policy that is trained,
  their diagnostics, and the bypass-mode loss of \<open>verl/trainer/ppo/core_algos.py\<close> that uses them.

  \<^item> \<open>float\<close> on strings is a parameter \<open>py_float\<close>, \<open>None\<close> where Python raises; strings that denote infinities or NaN
    are not modelled.
  \<^item> A metrics dictionary is a record, without the key prefixes. A maximum over masked values takes the values
    where the mask is not 0; the fill with infinities in the code has this effect.
  \<^item> \<open>reduce_all\<close> is \<open>None\<close> without torch.distributed and otherwise the SUM all-reduce of the local sum and the local count.
\<close>

section \<open>Thresholds\<close>

datatype threshold = ThBool bool | ThNum real | ThStr string | ThOther

definition is_space :: "char \<Rightarrow> bool" where
  "is_space c \<longleftrightarrow> c \<in> {CHR '' '', CHR 0x09, CHR 0x0A, CHR 0x0B, CHR 0x0C, CHR 0x0D}"

definition strip :: "string \<Rightarrow> string" where
  "strip s = rev (dropWhile is_space (rev (dropWhile is_space s)))"

fun split_char :: "char \<Rightarrow> string \<Rightarrow> string list" where
  "split_char d [] = [[]]"
| "split_char d (c # s) = (if c = d then [] # split_char d s
     else case split_char d s of [] \<Rightarrow> [[c]] | p # ps \<Rightarrow> (c # p) # ps)"

definition split_once :: "char \<Rightarrow> string \<Rightarrow> string \<times> string" where
  "split_once d s = (takeWhile (\<lambda>c. c \<noteq> d) s, tl (dropWhile (\<lambda>c. c \<noteq> d) s))"

definition parse_parts :: "string \<Rightarrow> string list" where
  "parse_parts s = filter (\<lambda>p. p \<noteq> []) (map strip (split_char (CHR '','') s))"

definition to_float :: "(string \<Rightarrow> real option) \<Rightarrow> string \<Rightarrow> real result" where
  "to_float py_float s = (case py_float s of None \<Rightarrow> Inl (ValueError ''could not convert string to float'') | Some x \<Rightarrow> Inr x)"

definition check_is_bounds :: "real \<Rightarrow> real option \<Rightarrow> (real \<times> real option) result" where
  "check_is_bounds upper lower =
     (if upper \<le> 0 then Inl (ValueError ''rollout_is_threshold upper bound must be positive'')
      else case lower of None \<Rightarrow> Inr (upper, None)
        | Some l \<Rightarrow> if l \<le> 0 then Inl (ValueError ''rollout_is_threshold lower bound must be positive'')
                    else if l > upper then Inl (ValueError ''rollout_is_threshold lower bound must be <= upper bound.'')
                    else Inr (upper, Some l))"

fun parse_rollout_is_threshold :: "(string \<Rightarrow> real option) \<Rightarrow> threshold \<Rightarrow> (real \<times> real option) result" where
  "parse_rollout_is_threshold py_float (ThBool b) = Inl (TypeError ''rollout_is_threshold must be specified as a float or a string threshold specification, not a boolean.'')"
| "parse_rollout_is_threshold py_float (ThNum x) = check_is_bounds x None"
| "parse_rollout_is_threshold py_float (ThStr s) =
     (let spec = strip s in
      if spec = [] then Inl (ValueError ''rollout_is_threshold must not be an empty string.'')
      else if CHR ''_'' \<in> set spec
      then case split_once (CHR ''_'') spec of (lower_str, upper_str) \<Rightarrow>
        rbind (to_float py_float lower_str) (\<lambda>lower. rbind (to_float py_float upper_str) (\<lambda>upper. check_is_bounds upper (Some lower)))
      else rbind (to_float py_float spec) (\<lambda>upper. check_is_bounds upper None))"
| "parse_rollout_is_threshold py_float ThOther = Inl (TypeError ''rollout_is_threshold must be a float or a string threshold specification.'')"

text \<open>A raw threshold: a string, or a number whose text \<open>float\<close> reads back.\<close>

datatype raw_spec = RawNum real | RawStr string

fun spec_float :: "(string \<Rightarrow> real option) \<Rightarrow> raw_spec \<Rightarrow> real result" where
  "spec_float py_float (RawNum x) = Inr x"
| "spec_float py_float (RawStr s) = to_float py_float s"

fun spec_has_underscore :: "raw_spec \<Rightarrow> bool" where
  "spec_has_underscore (RawNum x) = False"
| "spec_has_underscore (RawStr s) = (CHR ''_'' \<in> set s)"

definition ends_with :: "string \<Rightarrow> string \<Rightarrow> bool" where
  "ends_with s suf \<longleftrightarrow> length suf \<le> length s \<and> drop (length s - length suf) s = suf"

definition starts_with :: "string \<Rightarrow> string \<Rightarrow> bool" where
  "starts_with s pre \<longleftrightarrow> take (length pre) s = pre"

definition parse_option :: "(string \<Rightarrow> real option) \<Rightarrow> string \<Rightarrow> raw_spec \<Rightarrow> (real option \<times> real) result" where
  "parse_option py_float opt spec =
     (if ends_with opt ''k1''
      then rbind (if spec_has_underscore spec
                  then case spec of RawNum x \<Rightarrow> Inr (x, x)
                    | RawStr s \<Rightarrow> (case split_once (CHR ''_'') s of (lower_str, upper_str) \<Rightarrow>
                        rbind (to_float py_float lower_str) (\<lambda>lower. rbind (to_float py_float upper_str) (\<lambda>upper. Inr (lower, upper))))
                  else rbind (spec_float py_float spec) (\<lambda>upper. if upper = 0 then Inl ZeroDivisionError else Inr (1 / upper, upper)))
             (\<lambda>(lower, upper). if lower \<le> 0 \<or> upper \<le> 0 then Inl (ValueError ''Thresholds must be positive'') else Inr (Some lower, upper))
      else if spec_has_underscore spec then Inl (ValueError ''rollout_rs_threshold must provide a single upper bound without _'')
      else rbind (spec_float py_float spec) (\<lambda>upper.
             if upper \<le> 0 then Inl (ValueError ''Threshold must be positive'') else Inr (None, upper)))"

definition raw_specs :: "threshold \<Rightarrow> raw_spec list result" where
  "raw_specs t = (case t of ThBool b \<Rightarrow> Inr [RawStr (if b then ''True'' else ''False'')]
     | ThNum x \<Rightarrow> Inr [RawNum x] | ThStr s \<Rightarrow> Inr (map RawStr (parse_parts s))
     | ThOther \<Rightarrow> Inl (TypeError ''rollout_rs_threshold must be a string or numeric value specifying per-option thresholds.''))"

definition parse_rollout_rs_thresholds ::
  "(string \<Rightarrow> real option) \<Rightarrow> string list \<Rightarrow> threshold option \<Rightarrow> (string \<times> real option \<times> real) list result" where
  "parse_rollout_rs_thresholds py_float opts threshold_spec =
     (case threshold_spec of None \<Rightarrow> Inl (ValueError ''rollout_rs_threshold must be provided for rejection sampling.'')
      | Some t \<Rightarrow> rbind (raw_specs t) (\<lambda>raw.
          if raw = [] then Inl (ValueError ''rollout_rs_threshold must contain at least one threshold value.'')
          else if length raw \<noteq> 1 \<and> length raw \<noteq> length opts then Inl (ValueError ''rollout_rs_threshold expects one threshold or one per option'')
          else let raw = (if length raw = 1 \<and> length opts > 1 then replicate (length opts) (hd raw) else raw) in
            rmap (\<lambda>(opt, spec). rbind (parse_option py_float opt spec) (\<lambda>bounds. Inr (opt, bounds))) (zip opts raw)))"

section \<open>Rejection mask\<close>

definition SUPPORTED_ROLLOUT_RS_OPTIONS :: "string list" where
  "SUPPORTED_ROLLOUT_RS_OPTIONS = [''token_k1'', ''token_k2'', ''token_k3'', ''seq_sum_k1'', ''seq_sum_k2'', ''seq_sum_k3'',
     ''seq_mean_k1'', ''seq_mean_k2'', ''seq_mean_k3'', ''seq_max_k2'', ''seq_max_k3'']"

definition TOKEN_LEVEL_ROLLOUT_RS_OPTIONS :: "string list" where
  "TOKEN_LEVEL_ROLLOUT_RS_OPTIONS = [''token_k1'', ''token_k2'', ''token_k3'']"

definition SAFETY_BOUND :: real where
  "SAFETY_BOUND = 20"

definition mask_any :: "matrix \<Rightarrow> bool" where
  "mask_any response_mask \<longleftrightarrow> (\<exists>m \<in> set (concat response_mask). m \<noteq> 0)"

definition masked_values :: "real list \<Rightarrow> real list \<Rightarrow> real list" where
  "masked_values values msk = map fst (filter (\<lambda>(v, m). m \<noteq> 0) (zip values msk))"

definition max_list :: "real list \<Rightarrow> real" where
  "max_list xs = Max (set xs)"

definition min_list :: "real list \<Rightarrow> real" where
  "min_list xs = Min (set xs)"

definition fraction :: "(real \<Rightarrow> bool) \<Rightarrow> real list \<Rightarrow> real" where
  "fraction P xs = mean_list (map (\<lambda>x. of_bool_real (P x)) xs)"

text \<open>The divergence estimate of a token and its aggregate over a sequence.\<close>

definition token_stat :: "string \<Rightarrow> real \<Rightarrow> real" where
  "token_stat opt log_ratio =
     (let x = clamp (- SAFETY_BOUND) SAFETY_BOUND log_ratio in
      if ends_with opt ''k1'' then - x else if ends_with opt ''k2'' then 1 / 2 * x\<^sup>2 else exp x - 1 - x)"

definition sequence_max :: "real list \<Rightarrow> real list \<Rightarrow> real" where
  "sequence_max values msk = (let vs = masked_values values msk in if vs = [] then 0 else max_list vs)"

definition seq_stat :: "string \<Rightarrow> real list \<Rightarrow> real list \<Rightarrow> real" where
  "seq_stat opt log_ratio msk =
     (let values = map (token_stat opt) log_ratio in
      if starts_with opt ''seq_sum'' then masked_sum_list values msk
      else if starts_with opt ''seq_mean'' then masked_mean_list values msk
      else sequence_max values msk)"

definition rs_statistic :: "string \<Rightarrow> matrix \<Rightarrow> matrix \<Rightarrow> matrix \<times> real list option" where
  "rs_statistic opt log_ratio response_mask =
     (if opt \<in> set TOKEN_LEVEL_ROLLOUT_RS_OPTIONS then (map (map (token_stat opt)) log_ratio, None)
      else let stats = map (\<lambda>(r, m). seq_stat opt r m) (zip log_ratio response_mask)
           in (map (\<lambda>(s, m). map (\<lambda>_. s) m) (zip stats response_mask), Some stats))"

definition rs_keep :: "string \<Rightarrow> real option \<times> real \<Rightarrow> real \<Rightarrow> bool" where
  "rs_keep opt bounds v = (case bounds of (lower, upper) \<Rightarrow>
     (case lower of Some l \<Rightarrow> ln l \<le> v \<and> v \<le> ln upper | None \<Rightarrow> v \<le> upper))"

record rs_metrics =
  rs_mean :: real
  rs_max :: real
  rs_min :: real
  rs_fraction_high :: real
  rs_fraction_low :: real
  rs_std :: real
  rs_seq_mean :: real
  rs_seq_std :: real
  rs_seq_max :: real
  rs_seq_min :: real
  rs_seq_max_deviation :: real
  rs_seq_fraction_high :: real
  rs_seq_fraction_low :: "real option"

definition compute_rs_metrics ::
  "matrix \<Rightarrow> matrix \<Rightarrow> bool list \<Rightarrow> bool \<Rightarrow> real list option \<Rightarrow> real \<Rightarrow> real \<Rightarrow> bool \<Rightarrow> rs_metrics result" where
  "compute_rs_metrics stat response_mask seq_valid_mask sequence_level per_sequence_values upper lower apply_lower =
     (if \<not> mask_any response_mask then Inl (ValueError ''response_mask must contain at least one valid token (1).'')
      else
       let seq_values = (case per_sequence_values of Some v \<Rightarrow> v
             | None \<Rightarrow> map (\<lambda>(v, m). masked_mean_list v m) (zip stat response_mask));
           valid = map fst (filter snd (zip seq_values seq_valid_mask));
           tokens = masked_values (concat stat) (concat response_mask);
           by_seq = (sequence_level \<and> valid \<noteq> []);
           indicator = (\<lambda>P. mean_metric (map (map (\<lambda>v. of_bool_real (P v))) stat) response_mask);
           clamped = map (map (clamp (if apply_lower then lower else 0) upper)) stat;
           mean_clamped = mean_metric clamped response_mask;
           var = mean_metric (map (map (\<lambda>v. v\<^sup>2)) clamped) response_mask - mean_clamped\<^sup>2
       in Inr \<lparr> rs_mean = mean_metric stat response_mask,
           rs_max = max_list (if by_seq then valid else tokens), rs_min = min_list (if by_seq then valid else tokens),
           rs_fraction_high = (if by_seq then fraction (\<lambda>v. v > upper) valid else indicator (\<lambda>v. v > upper)),
           rs_fraction_low = (if apply_lower then if by_seq then fraction (\<lambda>v. v < lower) valid else indicator (\<lambda>v. v < lower) else 0),
           rs_std = (if sum_list (concat response_mask) > 1 then sqrt (max 0 var) else 0),
           rs_seq_mean = (if valid \<noteq> [] then mean_list valid else 0),
           rs_seq_std = (if length valid > 1 then std_list valid else 0),
           rs_seq_max = (if valid \<noteq> [] then max_list valid else 0), rs_seq_min = (if valid \<noteq> [] then min_list valid else 0),
           rs_seq_max_deviation = (if valid \<noteq> [] then max_list (map abs valid) else 0),
           rs_seq_fraction_high = (if valid \<noteq> [] then fraction (\<lambda>v. v > upper) valid else 0),
           rs_seq_fraction_low = (if valid \<noteq> [] then if apply_lower then Some (fraction (\<lambda>v. v < lower) valid) else None else Some 0) \<rparr>)"

text \<open>One option: the mask it leaves, its metrics and the fractions of tokens and sequences it masks.\<close>

definition rs_option ::
  "matrix \<Rightarrow> matrix \<Rightarrow> matrix \<times> (string \<times> rs_metrics \<times> real \<times> real) list \<Rightarrow> string \<times> real option \<times> real \<Rightarrow>
   (matrix \<times> (string \<times> rs_metrics \<times> real \<times> real) list) result" where
  "rs_option log_ratio response_mask s x =
     (case s of (combined_mask, metrics) \<Rightarrow> case x of (opt, bounds) \<Rightarrow>
        let k1 = ends_with opt ''k1'';
            (stat, per_sequence) = rs_statistic opt log_ratio response_mask;
            keep = map (map (rs_keep opt bounds)) stat;
            keep_mask = map (map of_bool_real) keep;
            seq_valid = map (\<lambda>m. sum_list m > 0) response_mask;
            upper = (if k1 then ln (snd bounds) else snd bounds);
            lower = (case fst bounds of Some l \<Rightarrow> if k1 then ln l else 0 | None \<Rightarrow> 0)
        in rbind (compute_rs_metrics stat response_mask seq_valid (opt \<notin> set TOKEN_LEVEL_ROLLOUT_RS_OPTIONS) per_sequence upper lower k1) (\<lambda>ms.
           let token_fraction = mean_metric (map (map (\<lambda>v. 1 - v)) keep_mask) response_mask;
               valid = map (\<lambda>(k, m). of_bool_real (\<exists>(b, v) \<in> set (zip k m). \<not> b \<and> v \<noteq> 0))
                         (map fst (filter snd (zip (zip keep response_mask) seq_valid)));
               seq_fraction = (if valid \<noteq> [] then mean_list valid else 0)
           in Inr (mmap2 (*) combined_mask keep_mask, metrics @ [(opt, ms, token_fraction, seq_fraction)])))"

record rejection_metrics =
  rm_options :: "(string \<times> rs_metrics \<times> real \<times> real) list"
  rm_masked_fraction :: real
  rm_seq_masked_fraction :: real

definition normalize_options :: "string list \<Rightarrow> string list result" where
  "normalize_options modes =
     rfold (\<lambda>acc opt. if opt \<notin> set SUPPORTED_ROLLOUT_RS_OPTIONS then Inl (ValueError ''Invalid rollout_rs option'')
                      else Inr (if opt \<in> set acc then acc else acc @ [opt])) [] modes"

definition compute_rollout_rejection_mask ::
  "(string \<Rightarrow> real option) \<Rightarrow> matrix \<Rightarrow> matrix \<Rightarrow> string option \<Rightarrow> threshold option \<Rightarrow> (matrix \<times> rejection_metrics option) result" where
  "compute_rollout_rejection_mask py_float log_ratio response_mask rollout_rs rollout_rs_threshold =
     (case rollout_rs of None \<Rightarrow> Inl (ValueError ''rollout_rs must be a non-empty string (comma separated for multiple options).'')
      | Some rs \<Rightarrow>
      if rollout_rs_threshold = None then Inl (ValueError ''rollout_rs_threshold must be provided for rejection sampling.'')
      else if log_ratio = [] then Inr (response_mask, None)
      else let option_modes = parse_parts rs in
        if option_modes = [] then Inl (ValueError ''rollout_rs must contain at least one valid option.'')
        else rbind (normalize_options option_modes) (\<lambda>opts.
          rbind (parse_rollout_rs_thresholds py_float opts rollout_rs_threshold) (\<lambda>specs.
          rbind (rfold (rs_option log_ratio response_mask) (map (map (\<lambda>_. 1)) response_mask, []) specs) (\<lambda>(final_mask, metrics).
            Inr (mmap2 (*) response_mask final_mask,
              Some \<lparr> rm_options = metrics,
                rm_masked_fraction = mean_metric (map (map (\<lambda>v. 1 - v)) final_mask) response_mask,
                rm_seq_masked_fraction = mean_list (map (\<lambda>(f, m). of_bool_real (\<exists>(v, x) \<in> set (zip f m). \<not> v > 1 / 2 \<and> x \<noteq> 0))
                  (zip final_mask response_mask)) \<rparr>)))))"

section \<open>Importance weights\<close>

record is_metrics =
  is_mean :: real
  is_max :: real
  is_min :: real
  is_ratio_fraction_high :: real
  is_ratio_fraction_low :: real
  is_std :: real
  is_eff_sample_size :: real
  is_seq_mean :: real
  is_seq_std :: real
  is_seq_max :: real
  is_seq_min :: real
  is_seq_max_deviation :: real
  is_seq_fraction_high :: real
  is_seq_fraction_low :: real

definition compute_is_metrics ::
  "matrix \<Rightarrow> matrix \<Rightarrow> real list \<Rightarrow> matrix \<Rightarrow> string \<Rightarrow> real \<Rightarrow> real option \<Rightarrow> is_metrics result" where
  "compute_is_metrics weights raw_weights log_ratio_sum response_mask rollout_is upper lower =
     (if \<not> mask_any response_mask then Inl (ValueError ''response_mask must contain at least one valid token (1).'')
      else
       let lower = (case lower of None \<Rightarrow> 1 / upper | Some l \<Rightarrow> l);
           seq_level = (rollout_is = ''sequence'');
           tokens = masked_values (concat weights) (concat response_mask);
           indicator = (\<lambda>P. mean_metric (map (map (\<lambda>v. of_bool_real (P v))) raw_weights) response_mask);
           clamped = map (map (clamp 0 upper)) weights;
           mean_clamped = mean_metric clamped response_mask;
           var = mean_metric (map (map (\<lambda>v. v\<^sup>2)) clamped) response_mask - mean_clamped\<^sup>2;
           normalized = map (map (\<lambda>v. v / (mean_clamped + 1 / 10 ^ 8))) clamped;
           seq_mean = map (\<lambda>(v, m). masked_mean_list v m) (zip weights response_mask)
       in Inr \<lparr> is_mean = mean_metric weights response_mask,
           is_max = (if seq_level then exp (min SAFETY_BOUND (max_list log_ratio_sum)) else max_list tokens),
           is_min = (if seq_level then exp (min_list log_ratio_sum) else min_list tokens),
           is_ratio_fraction_high = (if seq_level then fraction (\<lambda>v. v > ln upper) log_ratio_sum else indicator (\<lambda>v. v > upper)),
           is_ratio_fraction_low = (if seq_level then fraction (\<lambda>v. v < ln lower) log_ratio_sum else indicator (\<lambda>v. v < lower)),
           is_std = (if sum_list (concat response_mask) > 1 then sqrt (max 0 var) else 0),
           is_eff_sample_size = 1 / mean_metric (map (map (\<lambda>v. v\<^sup>2)) normalized) response_mask,
           is_seq_mean = mean_list seq_mean, is_seq_std = (if length seq_mean > 1 then std_list seq_mean else 0),
           is_seq_max = max_list seq_mean, is_seq_min = min_list seq_mean,
           is_seq_max_deviation = max_list (map (\<lambda>v. \<bar>v - 1\<bar>) seq_mean),
           is_seq_fraction_high = fraction (\<lambda>v. v > upper) seq_mean,
           is_seq_fraction_low = fraction (\<lambda>v. v < lower) seq_mean \<rparr>)"

definition distributed_masked_mean :: "(real \<times> real \<Rightarrow> real \<times> real) \<Rightarrow> real list \<Rightarrow> real list \<Rightarrow> real" where
  "distributed_masked_mean all_reduce values msk =
     (case all_reduce (\<Sum>(v, m)\<leftarrow>zip values msk. v * m, sum_list msk) of (s, n) \<Rightarrow> s / n)"

definition raw_is_weights :: "string \<Rightarrow> matrix \<Rightarrow> matrix \<Rightarrow> matrix" where
  "raw_is_weights rollout_is log_ratio response_mask =
     (if rollout_is = ''token''
      then mmap2 (\<lambda>r m. exp (clamp (- SAFETY_BOUND) SAFETY_BOUND r) * m) log_ratio response_mask
      else map (\<lambda>(r, m). map (\<lambda>(_, x). exp (clamp (- SAFETY_BOUND) SAFETY_BOUND (masked_sum_list r m)) * x) (zip r m)) (zip log_ratio response_mask))"

definition truncate_weight :: "real \<Rightarrow> real option \<Rightarrow> real \<Rightarrow> real" where
  "truncate_weight upper lower w =
     (case lower of None \<Rightarrow> min w upper | Some l \<Rightarrow> if l \<le> w \<and> w \<le> upper then w else 0)"

definition weights_mean :: "(real \<times> real \<Rightarrow> real \<times> real) option \<Rightarrow> string \<Rightarrow> matrix \<Rightarrow> matrix \<Rightarrow> real" where
  "weights_mean reduce_all rollout_is weights response_mask =
     (if rollout_is = ''token''
      then case reduce_all of Some f \<Rightarrow> distributed_masked_mean f (concat weights) (concat response_mask)
           | None \<Rightarrow> mean_metric weights response_mask
      else let seq_weights = map (\<lambda>(v, m). masked_mean_list v m) (zip weights response_mask);
               seq_mask = indicator_pos (map sum_list response_mask) in
           case reduce_all of Some f \<Rightarrow> distributed_masked_mean f seq_weights seq_mask
           | None \<Rightarrow> (\<Sum>(v, m)\<leftarrow>zip seq_weights seq_mask. v * m) / max (sum_list seq_mask) (1 / 10 ^ 8))"

record weight_metrics =
  wm_is :: is_metrics
  wm_oob_ratio :: "real option"
  wm_batch_norm_factor :: "real option"

definition compute_rollout_correction_weights ::
  "(string \<Rightarrow> real option) \<Rightarrow> (real \<times> real \<Rightarrow> real \<times> real) option \<Rightarrow> matrix \<Rightarrow> matrix \<Rightarrow> string \<Rightarrow> threshold \<Rightarrow> bool \<Rightarrow>
   (matrix \<times> weight_metrics) result" where
  "compute_rollout_correction_weights py_float reduce_all log_ratio response_mask rollout_is rollout_is_threshold batch_normalize =
     (if rollout_is \<notin> {''token'', ''sequence''} then Inl (ValueError ''Invalid rollout_is'')
      else rbind (parse_rollout_is_threshold py_float rollout_is_threshold) (\<lambda>(upper, lower).
        let raw = raw_is_weights rollout_is log_ratio response_mask;
            weights = map (map (truncate_weight upper lower)) raw;
            seq_ratios = map (\<lambda>(r, m). masked_sum_list r m) (zip log_ratio response_mask) in
        rbind (compute_is_metrics weights raw seq_ratios response_mask rollout_is upper lower) (\<lambda>ms.
          let oob = (case lower of None \<Rightarrow> None
                | Some l \<Rightarrow> Some (mean_metric (map (map (\<lambda>w. of_bool_real (w < l \<or> w > upper))) raw) response_mask));
              mean = weights_mean reduce_all rollout_is weights response_mask
          in Inr (if batch_normalize \<and> mean > 1 / 10 ^ 8 then map (map (\<lambda>w. w / mean)) weights else weights,
               \<lparr> wm_is = ms, wm_oob_ratio = oob,
                 wm_batch_norm_factor = (if batch_normalize then Some (if mean > 1 / 10 ^ 8 then mean else 1) else None) \<rparr>))))"

section \<open>Off-policy diagnostics\<close>

record offpolicy_metrics =
  om_training_ppl :: real
  om_training_log_ppl :: real
  om_rollout :: "(real \<times> real \<times> real \<times> real \<times> real \<times> real \<times> real \<times> real \<times> real \<times> real \<times> real) option"

text \<open>
  The rollout part, in order: \<open>kl\<close>, \<open>k3_kl\<close>, \<open>rollout_ppl\<close>, \<open>rollout_log_ppl\<close>, \<open>log_ppl_diff\<close>, \<open>log_ppl_abs_diff\<close>,
  \<open>log_ppl_diff_max\<close>, \<open>log_ppl_diff_min\<close>, \<open>ppl_ratio\<close>, \<open>chi2_token\<close>, \<open>chi2_seq\<close>.
\<close>

definition compute_offpolicy_metrics :: "matrix \<Rightarrow> matrix option \<Rightarrow> matrix \<Rightarrow> offpolicy_metrics result" where
  "compute_offpolicy_metrics old_log_prob rollout_log_prob response_mask =
     (if \<not> mask_any response_mask then Inl (AssertionError ''Expected at least one valid token in response_mask'')
      else let row_means = (\<lambda>A. map (\<lambda>(r, m). masked_mean_list r m) (zip A response_mask));
               training = row_means old_log_prob
      in Inr \<lparr> om_training_ppl = mean_list (map (\<lambda>x. exp (- x)) training), om_training_log_ppl = mean_list (map uminus training),
         om_rollout = (case rollout_log_prob of None \<Rightarrow> None | Some rlp \<Rightarrow>
           let log_ratio = mmap2 (-) old_log_prob rlp; rollout = row_means rlp;
               diff = map (\<lambda>(a, b). a - b) (zip rollout training);
               seq_ratios = map (\<lambda>(r, m). masked_sum_list r m) (zip log_ratio response_mask);
               safe = clamp (- SAFETY_BOUND) SAFETY_BOUND
           in Some (mean_metric (mmap2 (-) rlp old_log_prob) response_mask,
                mean_metric (map (map (\<lambda>x. exp x - x - 1)) log_ratio) response_mask,
                mean_list (map (\<lambda>x. exp (- x)) rollout), mean_list (map uminus rollout),
                mean_list diff, mean_list (map abs diff), max_list diff, min_list diff, mean_list (map exp diff),
                mean_metric (map (map (\<lambda>x. (exp (safe x))\<^sup>2)) log_ratio) response_mask - 1,
                mean_list (map (\<lambda>x. exp (2 * safe x)) seq_ratios) - 1)) \<rparr>)"

section \<open>The whole correction\<close>

record rollout_corr_config =
  rcc_loss_type :: string
  rcc_rollout_is :: "string option"
  rcc_rollout_is_threshold :: "threshold option"
  rcc_rollout_is_batch_normalize :: bool
  rcc_rollout_rs :: "string option"
  rcc_rollout_rs_threshold :: "threshold option"

type_synonym corr_metrics = "weight_metrics option \<times> rejection_metrics option \<times> offpolicy_metrics"

definition compute_rollout_correction_and_rejection_mask ::
  "(string \<Rightarrow> real option) \<Rightarrow> (real \<times> real \<Rightarrow> real \<times> real) option \<Rightarrow> matrix \<Rightarrow> matrix \<Rightarrow> matrix \<Rightarrow> rollout_corr_config \<Rightarrow>
   (matrix option \<times> matrix \<times> corr_metrics) result" where
  "compute_rollout_correction_and_rejection_mask py_float reduce_all old_log_prob rollout_log_prob response_mask cfg =
     (if \<not> mask_any response_mask then Inl (ValueError ''response_mask must contain at least one valid token (1).'')
      else if map length old_log_prob \<noteq> map length rollout_log_prob then Inl (ValueError ''old_log_prob shape does not match rollout_log_prob shape'')
      else if map length old_log_prob \<noteq> map length response_mask then Inl (ValueError ''log_prob shape does not match response_mask shape'')
      else let log_ratio = mmap2 (-) old_log_prob rollout_log_prob in
        rbind (case (rcc_rollout_is cfg, rcc_rollout_is_threshold cfg) of
                 (Some level, Some t) \<Rightarrow>
                   rbind (compute_rollout_correction_weights py_float reduce_all log_ratio response_mask level t (rcc_rollout_is_batch_normalize cfg))
                     (\<lambda>(w, ms). Inr (Some w, Some ms))
               | _ \<Rightarrow> Inr (None, None)) (\<lambda>(weights, is_ms).
        rbind (case rcc_rollout_rs cfg of None \<Rightarrow> Inr (response_mask, None)
               | Some rs \<Rightarrow>
                 if rcc_rollout_rs_threshold cfg = None then Inl (ValueError ''rollout_rs_threshold must be explicitly provided when rollout_rs is enabled.'')
                 else compute_rollout_rejection_mask py_float log_ratio response_mask (Some rs) (rcc_rollout_rs_threshold cfg)) (\<lambda>(modified, rs_ms).
        rbind (compute_offpolicy_metrics old_log_prob (Some rollout_log_prob) response_mask) (\<lambda>off.
        Inr (weights, modified, is_ms, rs_ms, off)))))"

record corr_batch =
  cb_old_log_probs :: matrix
  cb_rollout_log_probs :: matrix
  cb_response_mask :: matrix
  cb_rollout_is_weights :: "matrix option"

definition compute_rollout_correction_and_add_to_batch ::
  "(string \<Rightarrow> real option) \<Rightarrow> (real \<times> real \<Rightarrow> real \<times> real) option \<Rightarrow> corr_batch \<Rightarrow> rollout_corr_config \<Rightarrow> (corr_batch \<times> corr_metrics) result" where
  "compute_rollout_correction_and_add_to_batch py_float reduce_all batch cfg =
     rbind (compute_rollout_correction_and_rejection_mask py_float reduce_all (cb_old_log_probs batch) (cb_rollout_log_probs batch) (cb_response_mask batch) cfg)
       (\<lambda>(weights, modified, metrics).
         let batch = batch\<lparr> cb_response_mask := modified \<rparr> in
         Inr (case weights of None \<Rightarrow> batch | Some w \<Rightarrow> batch\<lparr> cb_rollout_is_weights := Some w \<rparr>, metrics))"

text \<open>Bypass mode: \<open>old_log_prob\<close> is the rollout policy; the clipped loss does not use the importance weights.\<close>

definition compute_policy_loss_bypass_mode ::
  "(string \<Rightarrow> real option) \<Rightarrow> (real \<times> real \<Rightarrow> real \<times> real) option \<Rightarrow> matrix \<Rightarrow> matrix \<Rightarrow> matrix \<Rightarrow> matrix \<Rightarrow> string \<Rightarrow> actor_config \<Rightarrow>
   rollout_corr_config option \<Rightarrow> (real \<times> (real + pg_metrics) \<times> corr_metrics) result" where
  "compute_policy_loss_bypass_mode py_float reduce_all old_log_prob log_prob advantages response_mask loss_agg_mode config rollout_corr =
     (case rollout_corr of None \<Rightarrow> Inl (ValueError ''rollout_correction config not found in policy_loss.'')
      | Some cfg \<Rightarrow>
        rbind (compute_rollout_correction_and_rejection_mask py_float reduce_all log_prob old_log_prob response_mask cfg) (\<lambda>(weights, effective_mask, metrics).
          if rcc_loss_type cfg = ''reinforce''
          then rbind (compute_policy_loss_reinforce old_log_prob log_prob advantages effective_mask loss_agg_mode config weights)
                 (\<lambda>(loss, kl). Inr (loss, Inl kl, metrics))
          else if rcc_loss_type cfg = ''ppo_clip''
          then rbind (compute_policy_loss_vanilla old_log_prob log_prob advantages effective_mask loss_agg_mode config None)
                 (\<lambda>(loss, ms). Inr (loss, Inr ms, metrics))
          else Inl (ValueError ''Invalid loss_type'')))"

section \<open>The rejection mask is the conjunction of its criteria\<close>

definition rs_passes :: "string \<times> real option \<times> real \<Rightarrow> real list \<Rightarrow> real list \<Rightarrow> real \<Rightarrow> bool" where
  "rs_passes x r m lr = (case x of (opt, bounds) \<Rightarrow>
     rs_keep opt bounds (if opt \<in> set TOKEN_LEVEL_ROLLOUT_RS_OPTIONS then token_stat opt lr else seq_stat opt r m))"

definition rs_kept_mask :: "(string \<times> real option \<times> real) list \<Rightarrow> matrix \<Rightarrow> matrix \<Rightarrow> matrix" where
  "rs_kept_mask specs log_ratio response_mask =
     map (\<lambda>(r, m). map (\<lambda>(lr, _). of_bool_real (\<forall>x \<in> set specs. rs_passes x r m lr)) (zip r m)) (zip log_ratio response_mask)"

lemma nth_mmap2_row:
  "i < length A \<Longrightarrow> i < length B \<Longrightarrow> mmap2 f A B ! i = map (\<lambda>(x, y). f x y) (zip (A ! i) (B ! i))"
  by (simp add: mmap2_def)

lemma rs_keep_matrix:
  assumes "map length log_ratio = map length response_mask"
  shows "map (map of_bool_real) (map (map (rs_keep opt bounds)) (fst (rs_statistic opt log_ratio response_mask))) =
    rs_kept_mask [(opt, bounds)] log_ratio response_mask"
proof -
  have len: "length log_ratio = length response_mask" using assms by (metis length_map)
  have row: "length (log_ratio ! i) = length (response_mask ! i)" if "i < length response_mask" for i
    using assms that len by (metis nth_map)
  show ?thesis
  proof (cases "opt \<in> set TOKEN_LEVEL_ROLLOUT_RS_OPTIONS")
    case True
    then show ?thesis using len row
      by (intro nth_equalityI) (auto simp: rs_statistic_def rs_kept_mask_def rs_passes_def intro!: nth_equalityI)
  next
    case False
    then show ?thesis using len row
      by (intro nth_equalityI) (auto simp: rs_statistic_def rs_kept_mask_def rs_passes_def Let_def intro!: nth_equalityI)
  qed
qed

lemma rs_kept_mask_snoc:
  assumes "map length log_ratio = map length response_mask"
  shows "mmap2 (*) (rs_kept_mask xs log_ratio response_mask) (rs_kept_mask [x] log_ratio response_mask) =
    rs_kept_mask (xs @ [x]) log_ratio response_mask"
proof -
  have len: "length log_ratio = length response_mask" using assms by (metis length_map)
  show ?thesis using len
    by (intro nth_equalityI) (auto simp: mmap2_def rs_kept_mask_def of_bool_real_def intro!: nth_equalityI)
qed

lemma compute_rs_metrics_total:
  "mask_any response_mask \<Longrightarrow> \<exists>ms. compute_rs_metrics stat response_mask seq_valid level per_seq upper lower apply_lower = Inr ms"
  by (simp add: compute_rs_metrics_def Let_def)

lemma rs_option_step:
  assumes "map length log_ratio = map length response_mask" "mask_any response_mask"
  shows "\<exists>ms'. rs_option log_ratio response_mask (rs_kept_mask xs log_ratio response_mask, ms) x =
    Inr (rs_kept_mask (xs @ [x]) log_ratio response_mask, ms @ ms')"
proof -
  obtain opt bounds where x: "x = (opt, bounds)" by (cases x)
  obtain stat per_seq where st: "rs_statistic opt log_ratio response_mask = (stat, per_seq)" by (cases "rs_statistic opt log_ratio response_mask")
  have keep: "map (map of_bool_real) (map (map (rs_keep opt bounds)) stat) = rs_kept_mask [x] log_ratio response_mask"
    using rs_keep_matrix [OF assms(1), of opt bounds] by (simp add: st x)
  from rs_kept_mask_snoc [OF assms(1), of xs x] compute_rs_metrics_total [OF assms(2)] show ?thesis
    unfolding rs_option_def x prod.case st Let_def keep [unfolded x, symmetric]
    by (metis (no_types, lifting) rbind_Inr x)
qed

lemma rs_options_run:
  assumes "map length log_ratio = map length response_mask" "mask_any response_mask"
  shows "\<exists>ms. rfold (rs_option log_ratio response_mask) (map (map (\<lambda>_. 1)) response_mask, []) specs =
    Inr (rs_kept_mask specs log_ratio response_mask, ms)"
proof -
  have len: "length log_ratio = length response_mask" using assms by (metis length_map)
  have row: "length (log_ratio ! i) = length (response_mask ! i)" if "i < length response_mask" for i
    using assms that len by (metis nth_map)
  have start: "map (map (\<lambda>_. 1)) response_mask = rs_kept_mask [] log_ratio response_mask"
    using len row by (intro nth_equalityI) (auto simp: rs_kept_mask_def of_bool_real_def intro!: nth_equalityI)
  have "\<exists>s'. rfold (rs_option log_ratio response_mask) (rs_kept_mask [] log_ratio response_mask, []) specs = Inr s' \<and>
      fst s' = rs_kept_mask specs log_ratio response_mask"
  proof (rule rfold_invariant)
    fix "done" x rest and s :: "matrix \<times> (string \<times> rs_metrics \<times> real \<times> real) list"
    assume "fst s = rs_kept_mask done log_ratio response_mask"
    then obtain ms where "s = (rs_kept_mask done log_ratio response_mask, ms)" by (cases s) simp
    then show "\<exists>s'. rs_option log_ratio response_mask s x = Inr s' \<and> fst s' = rs_kept_mask (done @ [x]) log_ratio response_mask"
      using rs_option_step [OF assms, of "done" ms x] by force
  qed simp
  then show ?thesis unfolding start by (metis prod.collapse)
qed

lemma normalize_options_spec:
  assumes "normalize_options modes = Inr opts"
  shows "distinct opts \<and> set opts = set modes \<and> set modes \<subseteq> set SUPPORTED_ROLLOUT_RS_OPTIONS"
proof -
  let ?f = "\<lambda>acc opt. if opt \<notin> set SUPPORTED_ROLLOUT_RS_OPTIONS then Inl (ValueError ''Invalid rollout_rs option'')
    else Inr (if opt \<in> set acc then acc else acc @ [opt])"
  have "distinct opts \<and> set opts = set acc \<union> set modes \<and> set modes \<subseteq> set SUPPORTED_ROLLOUT_RS_OPTIONS"
    if "rfold ?f acc modes = Inr opts" "distinct acc" for acc
    using that
  proof (induction modes arbitrary: acc)
    case (Cons m modes)
    then have sup: "m \<in> set SUPPORTED_ROLLOUT_RS_OPTIONS" by (auto split: if_splits)
    show ?case
    proof (cases "m \<in> set acc")
      case True
      then show ?thesis using Cons.IH [of acc] Cons.prems sup by auto
    next
      case False
      then show ?thesis using Cons.IH [of "acc @ [m]"] Cons.prems sup by auto
    qed
  qed simp
  from this [of "[]"] assms show ?thesis by (simp add: normalize_options_def)
qed

text \<open>
  C37. Rejection sampling keeps exactly the tokens that meet every requested criterion. With parsed options and
  thresholds the function returns; the options are the distinct supported ones of the list; a token keeps its
  mask value if every option accepts it (token options) or its sequence (sequence options), otherwise it is 0.
\<close>
theorem rejection_mask_conjunction:
  assumes "parse_parts rs \<noteq> []" "normalize_options (parse_parts rs) = Inr opts"
    and "parse_rollout_rs_thresholds py_float opts (Some t) = Inr specs"
    and "map length log_ratio = map length response_mask" "mask_any response_mask"
  shows "set opts = set (parse_parts rs) \<and> distinct opts \<and> set opts \<subseteq> set SUPPORTED_ROLLOUT_RS_OPTIONS \<and>
    (\<exists>ms. compute_rollout_rejection_mask py_float log_ratio response_mask (Some rs) (Some t) =
      Inr (map (\<lambda>(r, m). map (\<lambda>(lr, v). if \<forall>x \<in> set specs. rs_passes x r m lr then v else 0) (zip r m)) (zip log_ratio response_mask), Some ms))"
proof -
  have ne: "log_ratio \<noteq> []" using assms(4,5) by (auto simp: mask_any_def)
  have len: "length log_ratio = length response_mask" using assms by (metis length_map)
  have row: "length (log_ratio ! i) = length (response_mask ! i)" if "i < length response_mask" for i
    using assms that len by (metis nth_map)
  obtain ms where run: "rfold (rs_option log_ratio response_mask) (map (map (\<lambda>_. 1)) response_mask, []) specs =
      Inr (rs_kept_mask specs log_ratio response_mask, ms)" using rs_options_run [OF assms(4,5)] by blast
  have "mmap2 (*) response_mask (rs_kept_mask specs log_ratio response_mask) =
      map (\<lambda>(r, m). map (\<lambda>(lr, v). if \<forall>x \<in> set specs. rs_passes x r m lr then v else 0) (zip r m)) (zip log_ratio response_mask)"
    using len row by (intro nth_equalityI) (auto simp: mmap2_def rs_kept_mask_def of_bool_real_def intro!: nth_equalityI)
  then show ?thesis using normalize_options_spec [OF assms(2)] ne assms(1-3) run
    by (auto simp: compute_rollout_rejection_mask_def Let_def)
qed

section \<open>Truncated importance weights\<close>

lemma check_is_bounds_eq: "check_is_bounds u l = Inr (upper, lower) \<Longrightarrow> 0 < upper \<and> (\<forall>x. lower = Some x \<longrightarrow> 0 < x \<and> x \<le> upper)"
  by (auto simp: check_is_bounds_def split: option.splits if_splits)

lemma parse_is_threshold_bounds:
  assumes "parse_rollout_is_threshold py_float t = Inr (upper, lower)"
  shows "0 < upper \<and> (\<forall>x. lower = Some x \<longrightarrow> 0 < x \<and> x \<le> upper)"
  using assms
  by (cases t) (auto simp: Let_def result_simps split: if_splits prod.splits dest!: check_is_bounds_eq)

definition is_ratio :: "string \<Rightarrow> matrix \<Rightarrow> matrix \<Rightarrow> nat \<Rightarrow> nat \<Rightarrow> real" where
  "is_ratio rollout_is log_ratio response_mask i j =
     exp (clamp (- SAFETY_BOUND) SAFETY_BOUND
       (if rollout_is = ''token'' then log_ratio ! i ! j else masked_sum_list (log_ratio ! i) (response_mask ! i)))"

lemma raw_is_weights_nth:
  assumes "map length log_ratio = map length response_mask"
  shows "map length (raw_is_weights rollout_is log_ratio response_mask) = map length response_mask"
    and "i < length response_mask \<Longrightarrow> j < length (response_mask ! i) \<Longrightarrow>
      raw_is_weights rollout_is log_ratio response_mask ! i ! j = is_ratio rollout_is log_ratio response_mask i j * response_mask ! i ! j"
proof -
  have len: "length log_ratio = length response_mask" using assms by (metis length_map)
  have row: "length (log_ratio ! i) = length (response_mask ! i)" if "i < length response_mask" for i
    using assms that len by (metis nth_map)
  show "map length (raw_is_weights rollout_is log_ratio response_mask) = map length response_mask"
    using len row by (intro nth_equalityI) (auto simp: raw_is_weights_def mmap2_def)
  show "i < length response_mask \<Longrightarrow> j < length (response_mask ! i) \<Longrightarrow>
      raw_is_weights rollout_is log_ratio response_mask ! i ! j = is_ratio rollout_is log_ratio response_mask i j * response_mask ! i ! j"
    using len row by (auto simp: raw_is_weights_def mmap2_def is_ratio_def)
qed

lemma truncate_weight_bounds:
  "0 < upper \<Longrightarrow> 0 \<le> w \<Longrightarrow> 0 \<le> truncate_weight upper lower w \<and> truncate_weight upper lower w \<le> upper"
  by (auto simp: truncate_weight_def split: option.split)

text \<open>
  C38. The importance weights without batch normalisation (\<open>rollout_is_batch_normalize=False\<close>, the default): where the threshold parses and the mask has a valid token the function
  returns a weight for every token, between 0 and the upper threshold. Padding has weight 0. A valid token
  has the ratio of the two policies (its own, or the product over its sequence) cut off at the upper threshold; with
  a lower threshold the ratio is kept only inside the interval and is 0 outside.
\<close>
theorem rollout_weights_truncated:
  assumes "rollout_is \<in> {''token'', ''sequence''}" "parse_rollout_is_threshold py_float t = Inr (upper, lower)"
    and "map length log_ratio = map length response_mask" "\<forall>m \<in> set (concat response_mask). m = 0 \<or> m = 1" "mask_any response_mask"
  shows "\<exists>w ms. compute_rollout_correction_weights py_float reduce_all log_ratio response_mask rollout_is t False = Inr (w, ms) \<and>
    map length w = map length response_mask \<and>
    (\<forall>i < length response_mask. \<forall>j < length (response_mask ! i).
      0 \<le> w ! i ! j \<and> w ! i ! j \<le> upper \<and>
      w ! i ! j = (let ratio = is_ratio rollout_is log_ratio response_mask i j in
        if response_mask ! i ! j = 0 then 0
        else case lower of None \<Rightarrow> min ratio upper | Some l \<Rightarrow> if l \<le> ratio \<and> ratio \<le> upper then ratio else 0))"
proof -
  note bounds = parse_is_threshold_bounds [OF assms(2)]
  let ?raw = "raw_is_weights rollout_is log_ratio response_mask"
  let ?w = "map (map (truncate_weight upper lower)) ?raw"
  note raw = raw_is_weights_nth [OF assms(3)]
  have rlen: "length ?raw = length response_mask" using raw(1) by (metis length_map)
  have rrow: "length (?raw ! i) = length (response_mask ! i)" if "i < length response_mask" for i
    using raw(1) that rlen by (metis nth_map)
  have run: "\<exists>ms. compute_rollout_correction_weights py_float reduce_all log_ratio response_mask rollout_is t False = Inr (?w, ms)"
    using assms(1,2,5) by (simp add: compute_rollout_correction_weights_def compute_is_metrics_def Let_def)
  have shape: "map length ?w = map length response_mask" using raw(1) by (simp add: comp_def)
  have "0 \<le> ?w ! i ! j \<and> ?w ! i ! j \<le> upper \<and>
      ?w ! i ! j = (let ratio = is_ratio rollout_is log_ratio response_mask i j in
        if response_mask ! i ! j = 0 then 0
        else case lower of None \<Rightarrow> min ratio upper | Some l \<Rightarrow> if l \<le> ratio \<and> ratio \<le> upper then ratio else 0)"
    if i: "i < length response_mask" and j: "j < length (response_mask ! i)" for i j
  proof -
    have "response_mask ! i ! j \<in> set (concat response_mask)" using nth_mem [OF i] nth_mem [OF j] by auto
    then have m: "response_mask ! i ! j = 0 \<or> response_mask ! i ! j = 1" using assms(4) by blast
    have w: "?w ! i ! j = truncate_weight upper lower (is_ratio rollout_is log_ratio response_mask i j * response_mask ! i ! j)"
      using raw(2) [OF i j, of rollout_is] i j rlen rrow by simp
    have pos: "0 \<le> is_ratio rollout_is log_ratio response_mask i j" by (simp add: is_ratio_def)
    then have "0 \<le> is_ratio rollout_is log_ratio response_mask i j * response_mask ! i ! j" using m by auto
    then show ?thesis using m bounds truncate_weight_bounds [of upper] unfolding w
      by (auto simp: truncate_weight_def Let_def split: option.split)
  qed
  then show ?thesis using run shape by blast
qed

text \<open>Batch normalisation over tokens makes the masked mean of the weights 1.\<close>

lemma batch_normalized_mean:
  assumes "compute_rollout_correction_weights py_float None log_ratio response_mask ''token'' t True = Inr (w, ms)"
    and "wm_batch_norm_factor ms = Some factor" "factor \<noteq> 1"
  shows "mean_metric w response_mask = 1"
proof -
  have scale: "mean_metric (map (map (\<lambda>x. x / c)) A) response_mask = mean_metric A response_mask / c" for A c
  proof -
    have "masked_sum_list (map (\<lambda>x. x / c) xs) ms = masked_sum_list xs ms / c" for xs ms
      unfolding masked_sum_list_def
    proof (induction xs arbitrary: ms)
      case (Cons x xs)
      then show ?case by (cases ms) (auto simp: add_divide_distrib)
    qed simp
    then show ?thesis by (simp add: mean_metric_def masked_mean_list_def map_concat [symmetric] del: map_map)
  qed
  obtain upper lower where parsed: "parse_rollout_is_threshold py_float t = Inr (upper, lower)"
    using assms(1) by (auto simp: compute_rollout_correction_weights_def result_simps)
  define W where "W = map (map (truncate_weight upper lower)) (raw_is_weights ''token'' log_ratio response_mask)"
  have mean: "weights_mean None ''token'' W response_mask = mean_metric W response_mask" by (simp add: weights_mean_def)
  have w: "w = (if mean_metric W response_mask > 1 / 10 ^ 8 then map (map (\<lambda>x. x / mean_metric W response_mask)) W else W)"
    and f: "factor = (if mean_metric W response_mask > 1 / 10 ^ 8 then mean_metric W response_mask else 1)"
    using assms(1,2) unfolding compute_rollout_correction_weights_def parsed rbind_Inr prod.case Let_def W_def [symmetric] mean
    by (auto simp: result_simps simp del: map_map)
  then have "mean_metric W response_mask > 1 / 10 ^ 8" using assms(3) by (metis (full_types))
  then show ?thesis unfolding w using scale [of "mean_metric W response_mask" W] by simp
qed

section \<open>Witnesses\<close>

definition example_float :: "string \<Rightarrow> real option" where
  "example_float s = map_of [(''2'', 2), (''0.5'', 1 / 2), (''1'', 1)] s"

text \<open>Two criteria on two sequences, of which the second has one token.\<close>

lemma rejection_mask_conjunction_witness:
  "\<exists>ms. compute_rollout_rejection_mask example_float [[0, 3], [1, 0]] [[1, 1], [1, 0]] (Some ''token_k1, seq_max_k2'') (Some (ThStr ''0.5_2, 2'')) =
     Inr ([[if \<forall>x \<in> set [(''token_k1'', Some (1 / 2), 2), (''seq_max_k2'', None, 2)]. rs_passes x [0, 3] [1, 1] 0 then 1 else 0,
            if \<forall>x \<in> set [(''token_k1'', Some (1 / 2), 2), (''seq_max_k2'', None, 2)]. rs_passes x [0, 3] [1, 1] 3 then 1 else 0],
           [if \<forall>x \<in> set [(''token_k1'', Some (1 / 2), 2), (''seq_max_k2'', None, 2)]. rs_passes x [1, 0] [1, 0] 1 then 1 else 0, 0]], Some ms)"
proof -
  have parts: "parse_parts ''token_k1, seq_max_k2'' = [''token_k1'', ''seq_max_k2'']" by code_simp
  have raw: "parse_parts ''0.5_2, 2'' = [''0.5_2'', ''2'']" by code_simp
  have opts: "normalize_options [''token_k1'', ''seq_max_k2''] = Inr [''token_k1'', ''seq_max_k2'']"
    by (simp add: normalize_options_def SUPPORTED_ROLLOUT_RS_OPTIONS_def)
  have specs: "parse_rollout_rs_thresholds example_float [''token_k1'', ''seq_max_k2''] (Some (ThStr ''0.5_2, 2'')) =
      Inr [(''token_k1'', Some (1 / 2), 2), (''seq_max_k2'', None, 2)]"
    by (simp add: parse_rollout_rs_thresholds_def raw_specs_def raw parse_option_def ends_with_def split_once_def to_float_def example_float_def Let_def)
  show ?thesis
    using rejection_mask_conjunction [of "''token_k1, seq_max_k2''" _ example_float "ThStr ''0.5_2, 2''" _ "[[0, 3], [1, 0]]" "[[1, 1], [1, 0]]",
      unfolded parts, OF _ opts specs]
    by (simp add: mask_any_def)
qed

lemma rollout_weights_truncated_witness:
  "\<exists>w ms. compute_rollout_correction_weights example_float None [[0, ln 3], [0, 0]] [[1, 1], [1, 0]] ''token'' (ThNum 2) False = Inr (w, ms) \<and>
    w ! 0 ! 0 = 1 \<and> w ! 0 ! 1 \<le> 2 \<and> w ! 1 ! 1 = 0"
proof -
  let ?m = "[[1, 1], [1, 0]] :: matrix" and ?lr = "[[0, ln 3], [0, 0]] :: matrix"
  have parsed: "parse_rollout_is_threshold example_float (ThNum 2) = Inr (2, None)" by (simp add: check_is_bounds_def)
  have shape: "map length ?lr = map length ?m" "\<forall>m \<in> set (concat ?m). m = 0 \<or> m = 1" "mask_any ?m" by (simp_all add: mask_any_def)
  obtain w ms where
    run: "compute_rollout_correction_weights example_float None ?lr ?m ''token'' (ThNum 2) False = Inr (w, ms)" and
    at: "\<forall>i < length ?m. \<forall>j < length (?m ! i). 0 \<le> w ! i ! j \<and> w ! i ! j \<le> 2 \<and>
      w ! i ! j = (let ratio = is_ratio ''token'' ?lr ?m i j in if ?m ! i ! j = 0 then 0
        else case None of None \<Rightarrow> min ratio 2 | Some l \<Rightarrow> if l \<le> ratio \<and> ratio \<le> 2 then ratio else 0)"
    using rollout_weights_truncated [OF _ parsed shape, of "''token''" None] by blast
  have "w ! 0 ! 0 = 1" using at [rule_format, of 0 0] by (simp add: is_ratio_def clamp_def SAFETY_BOUND_def)
  moreover have "w ! 0 ! 1 \<le> 2" using at [rule_format, of 0 1] by simp
  moreover have "w ! 1 ! 1 = 0" using at [rule_format, of 1 1] by simp
  ultimately show ?thesis using run by blast
qed

end
