(* ===== verification/Token_Baseline.thy ===== *)
theory Token_Baseline
  imports Advantages
begin

text \<open>
  Three more estimators of \<open>verl/trainer/ppo/core_algos.py\<close>: pass@k GRPO, and the optimal token baseline for
  single-turn and for multi-turn responses.

  \<^item> The loops over prompt groups write the rows of one group at a time, and every row is in one group, so
    the baseline of row \<open>i\<close> is a function of its group.
  \<^item> \<open>torch.topk\<close> does not say which of several equal scores it returns; the advantage is 0 then, and the
    model takes the first.
\<close>

section \<open>Operations\<close>

definition prompt_group :: "'g list \<Rightarrow> nat list \<Rightarrow> 'g \<Rightarrow> nat list" where
  "prompt_group index rows g = filter (\<lambda>i. index ! i = g) rows"

definition topk2 :: "real list \<Rightarrow> (real \<times> nat) \<times> real" where
  "topk2 rewards =
     (let r_max = Max (set rewards); i = length (takeWhile (\<lambda>r. r \<noteq> r_max) rewards)
      in ((r_max, i), Max (set (take i rewards @ drop (Suc i) rewards))))"

definition passk_scalar :: "real list \<Rightarrow> 'g list \<Rightarrow> real \<Rightarrow> bool \<Rightarrow> nat \<Rightarrow> real" where
  "passk_scalar scores index epsilon norm_adv_by_std i =
     (let indices = prompt_group index [0..<length scores] (index ! i);
          rewards = map (\<lambda>j. scores ! j) indices;
          ((r_max, top), r_second_max) = topk2 rewards;
          advantage = r_max - r_second_max
      in if indices ! top = i then if norm_adv_by_std then advantage / (std_list rewards + epsilon) else advantage else 0)"

definition compute_grpo_passk_outcome_advantage :: "matrix \<Rightarrow> matrix \<Rightarrow> 'g list \<Rightarrow> real \<Rightarrow> bool \<Rightarrow> (matrix \<times> matrix) result" where
  "compute_grpo_passk_outcome_advantage token_level_rewards response_mask index epsilon norm_adv_by_std =
     (let scores = map sum_list token_level_rewards in
      if \<exists>i \<in> set [0..<length scores]. length (prompt_group index [0..<length scores] (index ! i)) < 2
      then Inl (ValueError ''Pass@k requires at least 2 samples per group.'')
      else let advantages = broadcast_mask (map (passk_scalar scores index epsilon norm_adv_by_std) [0..<length scores]) response_mask
           in Inr (advantages, advantages))"

text \<open>Rewards to go and the cumulative path-variance proxy of a row.\<close>

definition token_returns :: "matrix \<Rightarrow> matrix \<Rightarrow> matrix" where
  "token_returns token_level_rewards response_mask = map suffix_sums (times_mask token_level_rewards response_mask)"

definition w_per_timestep :: "matrix \<Rightarrow> matrix \<Rightarrow> matrix option \<Rightarrow> matrix" where
  "w_per_timestep old_log_probs sum_pi_squared rollout_is_weights =
     (let w = map (\<lambda>(o', s). map (\<lambda>(x, y). 1 - 2 * exp x + y) (zip o' s)) (zip old_log_probs sum_pi_squared) in
      case rollout_is_weights of None \<Rightarrow> w
      | Some r \<Rightarrow> map (\<lambda>(a, b). map (\<lambda>(x, y). x * y\<^sup>2) (zip a b)) (zip w r))"

definition prefix_cumsum :: "real list \<Rightarrow> real list" where
  "prefix_cumsum xs = map (\<lambda>t. sum_list (take (Suc t) xs)) [0..<length xs]"

definition w_cumulative :: "matrix \<Rightarrow> matrix \<Rightarrow> matrix option \<Rightarrow> matrix \<Rightarrow> matrix" where
  "w_cumulative old_log_probs sum_pi_squared rollout_is_weights response_mask =
     map prefix_cumsum (times_mask (w_per_timestep old_log_probs sum_pi_squared rollout_is_weights) response_mask)"

text \<open>
  \<open>handle_zero_tail\<close>: of the one row that is longer than every other of its group, the baseline past the
  second longest is cleared.
\<close>

definition response_length :: "real list \<Rightarrow> nat" where
  "response_length m = nat \<lfloor>sum_list m\<rfloor>"

definition zero_tail :: "nat list \<Rightarrow> nat list \<Rightarrow> nat \<Rightarrow> real list \<Rightarrow> real list" where
  "zero_tail lengths trajectory_indices i b =
     (let sorted_lengths = sort lengths;
          max_length = sorted_lengths ! (length lengths - 1);
          second_max_length = sorted_lengths ! (length lengths - 2);
          max_length_idx = filter (\<lambda>k. lengths ! k = max_length) [0..<length lengths]
      in if length max_length_idx = 1 \<and> max_length > second_max_length \<and> trajectory_indices ! (max_length_idx ! 0) = i
         then take second_max_length b @ replicate (length b - second_max_length) 0 else b)"

definition otb_baseline :: "matrix \<Rightarrow> matrix \<Rightarrow> matrix \<Rightarrow> 'g list \<Rightarrow> bool \<Rightarrow> real \<Rightarrow> nat \<Rightarrow> nat \<Rightarrow> real list" where
  "otb_baseline returns w response_mask index handle_zero_tail epsilon seq_len i =
     (let trajectory_indices = prompt_group index [0..<length returns] (index ! i) in
      if length trajectory_indices = 1 then replicate seq_len 0
      else let b = map (\<lambda>t. (\<Sum>j\<leftarrow>trajectory_indices. returns ! j ! t * w ! j ! t * response_mask ! j ! t)
                         / ((\<Sum>j\<leftarrow>trajectory_indices. w ! j ! t * response_mask ! j ! t) + epsilon)) [0..<seq_len]
           in if handle_zero_tail
              then zero_tail (map (\<lambda>j. response_length (response_mask ! j)) trajectory_indices) trajectory_indices i b else b)"

definition compute_optimal_token_baseline_advantage ::
  "matrix \<Rightarrow> matrix \<Rightarrow> 'g list \<Rightarrow> matrix \<Rightarrow> matrix \<Rightarrow> matrix option \<Rightarrow> bool \<Rightarrow> real \<Rightarrow> nat \<Rightarrow> matrix \<times> matrix" where
  "compute_optimal_token_baseline_advantage token_level_rewards response_mask index old_log_probs sum_pi_squared
     rollout_is_weights handle_zero_tail epsilon seq_len =
     (let returns = token_returns token_level_rewards response_mask;
          w = w_cumulative old_log_probs sum_pi_squared rollout_is_weights response_mask;
          baselines = map (otb_baseline returns w response_mask index handle_zero_tail epsilon seq_len) [0..<length returns];
          advantages = times_mask (map (\<lambda>(r, b). map (\<lambda>(x, y). x - y) (zip r b)) (zip returns baselines)) response_mask
      in (advantages, returns))"

text \<open>Reading and writing the positions of a mask.\<close>

definition pick_mask :: "real list \<Rightarrow> real list \<Rightarrow> real list" where
  "pick_mask m xs = map fst (filter (\<lambda>(x, y). y \<noteq> 0) (zip xs m))"

fun scatter_mask :: "real list \<Rightarrow> real list \<Rightarrow> real list" where
  "scatter_mask [] vs = []"
| "scatter_mask (m # ms) [] = 0 # scatter_mask ms []"
| "scatter_mask (m # ms) (v # vs) = (if m \<noteq> 0 then v # scatter_mask ms vs else 0 # scatter_mask ms (v # vs))"

definition left_align :: "nat \<Rightarrow> real list \<Rightarrow> real list \<Rightarrow> real list" where
  "left_align n m xs = (let l = response_length m in take l (pick_mask m xs) @ replicate (n - l) 0)"

definition tir_baseline :: "matrix \<Rightarrow> matrix \<Rightarrow> nat list \<Rightarrow> 'g list \<Rightarrow> bool \<Rightarrow> real \<Rightarrow> nat \<Rightarrow> nat \<Rightarrow> real list" where
  "tir_baseline all_returns all_w_values response_lengths index handle_zero_tail epsilon n i =
     (let trajectory_indices = prompt_group index (filter (\<lambda>j. response_lengths ! j \<noteq> 0) [0..<length all_returns]) (index ! i) in
      if response_lengths ! i = 0 \<or> length trajectory_indices = 1 then replicate n 0
      else let b = map (\<lambda>t. (\<Sum>j\<leftarrow>trajectory_indices. all_returns ! j ! t * all_w_values ! j ! t)
                         / ((\<Sum>j\<leftarrow>trajectory_indices. all_w_values ! j ! t) + epsilon)) [0..<n]
           in if handle_zero_tail
              then zero_tail (map (\<lambda>j. response_lengths ! j) trajectory_indices) trajectory_indices i b else b)"

definition compute_multi_turn_optimal_token_baseline_advantage ::
  "matrix \<Rightarrow> matrix \<Rightarrow> 'g list \<Rightarrow> matrix \<Rightarrow> matrix \<Rightarrow> matrix option \<Rightarrow> bool \<Rightarrow> real \<Rightarrow> matrix \<times> matrix" where
  "compute_multi_turn_optimal_token_baseline_advantage token_level_rewards response_mask index old_log_probs sum_pi_squared
     rollout_is_weights handle_zero_tail epsilon =
     (let returns = token_returns token_level_rewards response_mask;
          w = w_cumulative old_log_probs sum_pi_squared rollout_is_weights response_mask;
          response_lengths = map response_length response_mask;
          max_response_length = (if response_lengths \<noteq> [] then foldl max 0 response_lengths else 0);
          all_w_values = map (\<lambda>(m, r). left_align max_response_length m r) (zip response_mask w);
          all_returns = map (\<lambda>(m, r). left_align max_response_length m r) (zip response_mask returns);
          baselines = map (tir_baseline all_returns all_w_values response_lengths index handle_zero_tail epsilon max_response_length)
                        [0..<length all_returns];
          all_advantages = map (\<lambda>(r, b). map (\<lambda>(x, y). x - y) (zip r b)) (zip all_returns baselines);
          advantages = map (\<lambda>(m, a). scatter_mask m (take (response_length m) a)) (zip response_mask all_advantages)
      in (times_mask advantages response_mask, returns))"

section \<open>The two optimal token baselines agree on single-turn responses\<close>

text \<open>A single-turn response fills a prefix of its row.\<close>

definition prefix_mask :: "nat \<Rightarrow> nat \<Rightarrow> real list" where
  "prefix_mask n l = replicate l 1 @ replicate (n - l) 0"

lemma response_length_prefix [simp]: "response_length (prefix_mask n l) = l"
  by (simp add: response_length_def prefix_mask_def sum_list_replicate)

lemma length_prefix_mask [simp]: "l \<le> n \<Longrightarrow> length (prefix_mask n l) = n"
  by (simp add: prefix_mask_def)

lemma nth_prefix_mask: "l \<le> n \<Longrightarrow> t < n \<Longrightarrow> prefix_mask n l ! t = (if t < l then 1 else 0)"
  by (simp add: prefix_mask_def nth_append)

lemma pick_prefix: "length xs = n \<Longrightarrow> l \<le> n \<Longrightarrow> pick_mask (prefix_mask n l) xs = take l xs"
proof (induction xs arbitrary: n l)
  case (Cons x xs)
  have zero: "pick_mask (replicate m 0) ys = []" for m and ys :: "real list"
    by (auto simp: pick_mask_def filter_empty_conv set_zip)
  show ?case using Cons zero [of "Suc (length xs)" "x # xs"]
    by (cases l; cases n) (auto simp: prefix_mask_def pick_mask_def)
qed (simp add: pick_mask_def)

lemma scatter_zeros: "scatter_mask (replicate m 0) vs = replicate m 0"
  by (induction m) (cases vs; simp)+

lemma scatter_ones: "scatter_mask (replicate (length vs) 1 @ replicate k 0) vs = vs @ replicate k 0"
  by (induction vs) (simp_all add: scatter_zeros)

lemma scatter_prefix: "length vs = l \<Longrightarrow> scatter_mask (prefix_mask n l) vs = vs @ replicate (n - l) 0"
  using scatter_ones [of vs "n - l"] by (simp add: prefix_mask_def)

lemma left_align_prefix:
  assumes "length xs = n" "l \<le> n" "l \<le> k"
  shows "length (left_align k (prefix_mask n l) xs) = k"
    and "t < k \<Longrightarrow> left_align k (prefix_mask n l) xs ! t = (if t < l then xs ! t else 0)"
  using assms by (auto simp: left_align_def Let_def pick_prefix nth_append)

text \<open>\<open>zero_tail\<close> acts position by position, so it commutes with shortening the baseline.\<close>

lemma nth_zero_tail:
  assumes "t < length b"
  shows "zero_tail lengths idx i b ! t =
    (let s = sort lengths; mx = s ! (length lengths - 1); sm = s ! (length lengths - 2);
         longest = filter (\<lambda>k. lengths ! k = mx) [0..<length lengths]
     in if length longest = 1 \<and> mx > sm \<and> idx ! (longest ! 0) = i \<and> sm \<le> t then 0 else b ! t)"
  using assms by (auto simp: zero_tail_def Let_def nth_append)

lemma nth_zero_tail_cong:
  assumes "t < length b" "t < length c" "b ! t = c ! t"
  shows "zero_tail lengths idx i b ! t = zero_tail lengths idx i c ! t"
  unfolding nth_zero_tail [OF assms(1)] nth_zero_tail [OF assms(2)] assms(3) ..

lemma otb_tir_baseline:
  assumes ls: "\<forall>l \<in> set ls. 0 < l \<and> l \<le> n \<and> l \<le> k" and "k \<le> n"
    and R: "length R = length ls" "\<forall>r \<in> set R. length r = n"
    and W: "length W = length ls" "\<forall>r \<in> set W. length r = n"
    and i: "i < length ls" and t: "t < k"
  shows "tir_baseline (map (\<lambda>(m, r). left_align k m r) (zip (map (prefix_mask n) ls) R))
      (map (\<lambda>(m, r). left_align k m r) (zip (map (prefix_mask n) ls) W)) ls index hz epsilon k i ! t =
    otb_baseline R W (map (prefix_mask n) ls) index hz epsilon n i ! t"
proof -
  define idx where "idx = prompt_group index [0..<length ls] (index ! i)"
  have in_idx: "j < length ls" if "j \<in> set idx" for j using that by (auto simp: idx_def prompt_group_def)
  have all: "filter (\<lambda>j. ls ! j \<noteq> 0) [0..<length ls] = [0..<length ls]" using ls by (auto simp: filter_True)
  have pos: "ls ! i \<noteq> 0" using ls nth_mem [OF i] by fastforce
  have r: "left_align k (prefix_mask n (ls ! j)) (R ! j) ! t = (if t < ls ! j then R ! j ! t else 0)"
    and w: "left_align k (prefix_mask n (ls ! j)) (W ! j) ! t = W ! j ! t * prefix_mask n (ls ! j) ! t"
    if "j < length ls" for j
    using left_align_prefix(2) [of "R ! j" n "ls ! j" k t] left_align_prefix(2) [of "W ! j" n "ls ! j" k t]
      nth_prefix_mask [of "ls ! j" n t] ls R W that t assms(2) by auto
  have sums: "(\<Sum>j\<leftarrow>idx. left_align k (prefix_mask n (ls ! j)) (R ! j) ! t * left_align k (prefix_mask n (ls ! j)) (W ! j) ! t)
      = (\<Sum>j\<leftarrow>idx. R ! j ! t * W ! j ! t * prefix_mask n (ls ! j) ! t)"
    "(\<Sum>j\<leftarrow>idx. left_align k (prefix_mask n (ls ! j)) (W ! j) ! t) = (\<Sum>j\<leftarrow>idx. W ! j ! t * prefix_mask n (ls ! j) ! t)"
    using in_idx r w nth_prefix_mask ls t assms(2) by (auto intro!: arg_cong [of _ _ sum_list] map_cong)
  have at: "map (\<lambda>(m, r). left_align k m r) (zip (map (prefix_mask n) ls) X) ! j = left_align k (prefix_mask n (ls ! j)) (X ! j)"
    if "j < length ls" "length X = length ls" for j X using that by simp
  define B where "B = map (\<lambda>t. (\<Sum>j\<leftarrow>idx. R ! j ! t * W ! j ! t * prefix_mask n (ls ! j) ! t)
      / ((\<Sum>j\<leftarrow>idx. W ! j ! t * prefix_mask n (ls ! j) ! t) + epsilon)) [0..<n]"
  define B' where "B' = map (\<lambda>t. (\<Sum>j\<leftarrow>idx. left_align k (prefix_mask n (ls ! j)) (R ! j) ! t * left_align k (prefix_mask n (ls ! j)) (W ! j) ! t)
      / ((\<Sum>j\<leftarrow>idx. left_align k (prefix_mask n (ls ! j)) (W ! j) ! t) + epsilon)) [0..<k]"
  have "B' ! t = B ! t" using t assms(2) sums by (simp add: B_def B'_def)
  moreover have "length B = n" "length B' = k" by (simp_all add: B_def B'_def)
  ultimately have z: "zero_tail lens js i B' ! t = zero_tail lens js i B ! t" for lens js
    using t assms(2) by (intro nth_zero_tail_cong) auto
  have len: "length (map (\<lambda>(m, r). left_align k m r) (zip (map (prefix_mask n) ls) R)) = length ls" using R(1) by simp
  have otb: "otb_baseline R W (map (prefix_mask n) ls) index hz epsilon n i =
      (if length idx = 1 then replicate n 0 else if hz then zero_tail (map (\<lambda>j. ls ! j) idx) idx i B else B)"
    using in_idx unfolding otb_baseline_def R(1) idx_def [symmetric] Let_def B_def
    by (simp cong: map_cong)
  have tir: "tir_baseline (map (\<lambda>(m, r). left_align k m r) (zip (map (prefix_mask n) ls) R))
      (map (\<lambda>(m, r). left_align k m r) (zip (map (prefix_mask n) ls) W)) ls index hz epsilon k i =
      (if length idx = 1 then replicate k 0 else if hz then zero_tail (map (\<lambda>j. ls ! j) idx) idx i B' else B')"
    using in_idx R(1) W(1) i pos unfolding tir_baseline_def len all idx_def [symmetric] Let_def B'_def
    by (simp cong: map_cong)
  show ?thesis unfolding otb tir using z \<open>B' ! t = B ! t\<close> t assms(2) by simp
qed

definition has_shape :: "nat \<Rightarrow> nat \<Rightarrow> matrix \<Rightarrow> bool" where
  "has_shape b n M \<longleftrightarrow> length M = b \<and> (\<forall>r \<in> set M. length r = n)"

lemma length_suffix_sums [simp]: "length (suffix_sums xs) = length xs"
proof -
  have "length (foldl (\<lambda>acc x. acc @ [last acc + x]) a ys) = length a + length ys" for a ys :: "real list"
    by (induction ys arbitrary: a) simp_all
  then show ?thesis by (simp add: suffix_sums_def)
qed

lemma has_shape_zip_map:
  "has_shape b n A \<Longrightarrow> has_shape b n B \<Longrightarrow> has_shape b n (map (\<lambda>(r, s). map (\<lambda>(x, y). f x y) (zip r s)) (zip A B))"
  by (auto simp: has_shape_def set_zip)

lemma has_shape_times_mask: "has_shape b n A \<Longrightarrow> has_shape b n B \<Longrightarrow> has_shape b n (times_mask A B)"
  unfolding times_mask_def by (rule has_shape_zip_map)

lemma has_shape_returns: "has_shape b n A \<Longrightarrow> has_shape b n B \<Longrightarrow> has_shape b n (token_returns A B)"
  using has_shape_times_mask [of b n A B] by (simp add: token_returns_def has_shape_def)

lemma has_shape_w:
  assumes "has_shape b n A" "has_shape b n B" "has_shape b n M" "\<forall>r. ris = Some r \<longrightarrow> has_shape b n r"
  shows "has_shape b n (w_cumulative A B ris M)"
proof -
  have "has_shape b n (w_per_timestep A B ris)"
    using assms by (cases ris) (simp_all add: w_per_timestep_def Let_def has_shape_zip_map)
  from has_shape_times_mask [OF this assms(3)] show ?thesis by (simp add: w_cumulative_def has_shape_def prefix_cumsum_def)
qed

lemma has_shape_prefix_mask: "\<forall>l \<in> set ls. l \<le> n \<Longrightarrow> has_shape (length ls) n (map (prefix_mask n) ls)"
  by (auto simp: has_shape_def)

lemma masked_row:
  assumes "length r = n" "length b = n" "l \<le> n"
  shows "map (\<lambda>(x, y). x * y) (zip (map (\<lambda>(x, y). x - y) (zip r b)) (prefix_mask n l)) =
    map (\<lambda>t. if t < l then r ! t - b ! t else 0) [0..<n]"
  using assms by (intro nth_equalityI) (simp_all add: nth_prefix_mask)

lemma scattered_row:
  assumes "length r = k" "length b = k" "l \<le> k" "l \<le> n"
  shows "map (\<lambda>(x, y). x * y) (zip (scatter_mask (prefix_mask n l) (take l (map (\<lambda>(x, y). x - y) (zip r b)))) (prefix_mask n l)) =
    map (\<lambda>t. if t < l then r ! t - b ! t else 0) [0..<n]"
  using assms by (intro nth_equalityI) (simp_all add: scatter_prefix nth_prefix_mask nth_append)

lemma length_zero_tail: "length (zero_tail lengths idx i b) = length b \<or> (\<exists>s > length b. s \<in> set lengths)"
proof (cases "sort lengths ! (length lengths - 2) \<le> length b")
  case False
  show ?thesis
  proof (cases "lengths = []")
    case True
    then show ?thesis by (simp add: zero_tail_def)
  next
    case ne: False
    then have "sort lengths ! (length lengths - 2) \<in> set (sort lengths)" by (intro nth_mem) (cases lengths; simp)
    then show ?thesis using False by (metis not_le set_sort)
  qed
qed (simp add: zero_tail_def Let_def)

lemma length_otb_baseline:
  assumes "\<forall>l \<in> set ls. l \<le> n" "length R = length ls"
  shows "length (otb_baseline R W (map (prefix_mask n) ls) index hz epsilon n i) = n"
proof -
  have "length (zero_tail (map (\<lambda>j. response_length (map (prefix_mask n) ls ! j)) (prompt_group index [0..<length ls] g)) js i b) = n"
    if "length b = n" for g js b
  proof -
    have "s \<le> n" if "s \<in> set (map (\<lambda>j. response_length (map (prefix_mask n) ls ! j)) (prompt_group index [0..<length ls] g))" for s
      using that assms(1) by (auto simp: prompt_group_def)
    then show ?thesis using length_zero_tail \<open>length b = n\<close> by (metis not_le)
  qed
  then show ?thesis using assms(2) by (simp add: otb_baseline_def Let_def)
qed

lemma length_tir_baseline:
  assumes "\<forall>l \<in> set ls. l \<le> k" "length R = length ls"
  shows "length (tir_baseline R W ls index hz epsilon k i) = k"
proof -
  have "length (zero_tail (map (\<lambda>j. ls ! j) (prompt_group index (filter (\<lambda>j. ls ! j \<noteq> 0) [0..<length ls]) g)) js i b) = k"
    if "length b = k" for g js b
  proof -
    have "s \<le> k" if "s \<in> set (map (\<lambda>j. ls ! j) (prompt_group index (filter (\<lambda>j. ls ! j \<noteq> 0) [0..<length ls]) g))" for s
      using that assms(1) by (auto simp: prompt_group_def)
    then show ?thesis using length_zero_tail \<open>length b = k\<close> by (metis not_le)
  qed
  then show ?thesis using assms(2) unfolding tir_baseline_def Let_def by simp
qed

lemma baseline_rows_agree:
  assumes ls: "\<forall>l \<in> set ls. 0 < l \<and> l \<le> n" and k: "k = foldl max 0 ls"
    and R: "has_shape (length ls) n R" and W: "has_shape (length ls) n W" and i: "i < length ls"
  defines "AR \<equiv> map (\<lambda>(m, r). left_align k m r) (zip (map (prefix_mask n) ls) R)"
    and "AW \<equiv> map (\<lambda>(m, r). left_align k m r) (zip (map (prefix_mask n) ls) W)"
  shows "map (\<lambda>(x, y). x * y) (zip (scatter_mask (prefix_mask n (ls ! i)) (take (ls ! i)
        (map (\<lambda>(x, y). x - y) (zip (AR ! i) (tir_baseline AR AW ls index hz epsilon k i))))) (prefix_mask n (ls ! i))) =
    map (\<lambda>(x, y). x * y) (zip (map (\<lambda>(x, y). x - y) (zip (R ! i) (otb_baseline R W (map (prefix_mask n) ls) index hz epsilon n i)))
        (prefix_mask n (ls ! i)))"
proof -
  have le: "\<forall>l \<in> set ls. 0 < l \<and> l \<le> n \<and> l \<le> k" using ls k foldl_max_ge [of _ 0 ls] by auto
  have kn: "k \<le> n" using foldl_max_in [of 0 ls] k ls by auto
  have shapes: "length R = length ls" "\<forall>r \<in> set R. length r = n" "length W = length ls" "\<forall>r \<in> set W. length r = n"
    using R W by (auto simp: has_shape_def)
  have li: "ls ! i \<le> n" "ls ! i \<le> k" using le i by auto
  have Ri: "length (R ! i) = n" using shapes i by simp
  have AR: "length AR = length ls" "AR ! i = left_align k (prefix_mask n (ls ! i)) (R ! i)" using shapes i by (simp_all add: AR_def)
  note la = left_align_prefix [OF Ri li]
  have "AR ! i ! t - tir_baseline AR AW ls index hz epsilon k i ! t = R ! i ! t - otb_baseline R W (map (prefix_mask n) ls) index hz epsilon n i ! t"
    if "t < ls ! i" for t
    using otb_tir_baseline [OF le kn shapes i, of t index hz epsilon] that li la(2) [of t] AR(2) unfolding AR_def AW_def by simp
  moreover have "length (AR ! i) = k" using AR(2) la(1) by simp
  moreover have otb_len: "length (otb_baseline R W (map (prefix_mask n) ls) index hz epsilon n i) = n"
    using ls shapes(1) by (intro length_otb_baseline) auto
  ultimately show ?thesis
    using scattered_row [of "AR ! i" k "tir_baseline AR AW ls index hz epsilon k i" "ls ! i" n] li kn le Ri AR(1)
      length_tir_baseline [of ls k AR AW index hz epsilon i] shapes
      masked_row [OF Ri otb_len li(1)]
    by (auto cong: map_cong)
qed

text \<open>
  C35. The multi-turn optimal token baseline is a conservative extension of the single-turn one: on responses
  that fill a nonempty prefix of their rows both estimators return the same advantages and returns, for
  every grouping, with and without rollout weights and with and without the zero-tail rule.
\<close>
theorem multi_turn_otb_extends_single_turn:
  assumes "\<forall>l \<in> set ls. 0 < l \<and> l \<le> n" "response_mask = map (prefix_mask n) ls"
    and "has_shape (length ls) n token_level_rewards" "has_shape (length ls) n old_log_probs"
    and "has_shape (length ls) n sum_pi_squared" "\<forall>r. rollout_is_weights = Some r \<longrightarrow> has_shape (length ls) n r"
  shows "compute_multi_turn_optimal_token_baseline_advantage token_level_rewards response_mask index old_log_probs sum_pi_squared
      rollout_is_weights handle_zero_tail epsilon =
    compute_optimal_token_baseline_advantage token_level_rewards response_mask index old_log_probs sum_pi_squared
      rollout_is_weights handle_zero_tail epsilon n"
proof -
  define R where "R = token_returns token_level_rewards (map (prefix_mask n) ls)"
  define W where "W = w_cumulative old_log_probs sum_pi_squared rollout_is_weights (map (prefix_mask n) ls)"
  define k where "k = foldl max 0 ls"
  define AR where "AR = map (\<lambda>(m, r). left_align k m r) (zip (map (prefix_mask n) ls) R)"
  define AW where "AW = map (\<lambda>(m, r). left_align k m r) (zip (map (prefix_mask n) ls) W)"
  have mask: "has_shape (length ls) n (map (prefix_mask n) ls)" using assms(1) has_shape_prefix_mask by simp
  have R: "has_shape (length ls) n R" unfolding R_def by (rule has_shape_returns [OF assms(3) mask])
  have W: "has_shape (length ls) n W" unfolding W_def by (rule has_shape_w [OF assms(4,5) mask assms(6)])
  have len: "length R = length ls" "length AR = length ls" using R by (simp_all add: has_shape_def AR_def)
  have lens: "map response_length (map (prefix_mask n) ls) = ls" by (simp add: comp_def)
  have k: "(if ls \<noteq> [] then foldl max 0 ls else 0) = k" by (simp add: k_def)
  show ?thesis
    unfolding assms(2) compute_multi_turn_optimal_token_baseline_advantage_def compute_optimal_token_baseline_advantage_def Let_def
      lens k R_def [symmetric] W_def [symmetric] AR_def [symmetric] AW_def [symmetric] len
  proof (intro prod_eqI)
    show "fst (times_mask (map (\<lambda>(m, a). scatter_mask m (take (response_length m) a)) (zip (map (prefix_mask n) ls)
          (map (\<lambda>(r, b). map (\<lambda>(x, y). x - y) (zip r b)) (zip AR
            (map (tir_baseline AR AW ls index handle_zero_tail epsilon k) [0..<length ls]))))) (map (prefix_mask n) ls), R) =
      fst (times_mask (map (\<lambda>(r, b). map (\<lambda>(x, y). x - y) (zip r b)) (zip R
            (map (otb_baseline R W (map (prefix_mask n) ls) index handle_zero_tail epsilon n) [0..<length ls]))) (map (prefix_mask n) ls), R)"
      unfolding fst_conv times_mask_def
    proof (rule nth_equalityI, goal_cases)
      case (2 i)
      then have "i < length ls" using len by simp
      then show ?case using baseline_rows_agree [OF assms(1) k_def R W, of i index handle_zero_tail epsilon] len
        by (simp add: AR_def [symmetric] AW_def [symmetric])
    qed (simp add: len)
  qed simp
qed

section \<open>Pass@k\<close>

lemma first_max:
  fixes rewards :: "real list"
  assumes "rewards \<noteq> []"
  defines "i \<equiv> length (takeWhile (\<lambda>r. r \<noteq> Max (set rewards)) rewards)"
  shows "i < length rewards \<and> rewards ! i = Max (set rewards)"
proof -
  have "Max (set rewards) \<in> set rewards" using assms(1) by simp
  then have "i < length rewards" unfolding i_def by (metis (mono_tags, lifting) length_takeWhile_le nat_less_le set_takeWhileD takeWhile_eq_all_conv
    takeWhile_eq_take take_all_iff order_refl)
  moreover have "\<not> rewards ! i \<noteq> Max (set rewards)" using \<open>i < length rewards\<close> unfolding i_def by (rule nth_length_takeWhile)
  ultimately show ?thesis by simp
qed

lemma set_remove_nth:
  assumes "distinct xs" "p < length xs"
  shows "set (take p (map f xs) @ drop (Suc p) (map f xs)) = f ` (set xs - {xs ! p})"
proof -
  have "xs = take p xs @ xs ! p # drop (Suc p) xs" using assms(2) by (simp add: id_take_nth_drop)
  then have "set (take p xs @ drop (Suc p) xs) = set xs - {xs ! p}" using assms(1)
    by (metis (no_types, lifting) Diff_insert_absorb Un_iff distinct.simps(2) distinct_append insert_iff list.simps(15)
      set_append Un_insert_right disjoint_insert(1))
  then show ?thesis by (metis drop_map image_set map_append take_map)
qed

text \<open>
  Only a strictly best response of its group has a nonzero advantage: its lead over the second best, divided
  by the standard deviation of the group where asked.
\<close>

lemma passk_scalar_closed_form:
  assumes i: "i < length scores" and members: "members = prompt_group index [0..<length scores] (index ! i)" "2 \<le> length members"
  shows "passk_scalar scores index epsilon norm_adv_by_std i =
    (if \<forall>j \<in> set members - {i}. scores ! j < scores ! i
     then (scores ! i - Max ((\<lambda>j. scores ! j) ` (set members - {i})))
            / (if norm_adv_by_std then std_list (map (\<lambda>j. scores ! j) members) + epsilon else 1)
     else 0)"
proof -
  define rewards where "rewards = map (\<lambda>j. scores ! j) members"
  define p where "p = length (takeWhile (\<lambda>r. r \<noteq> Max (set rewards)) rewards)"
  have "rewards \<noteq> []" using members(2) by (auto simp: rewards_def)
  from first_max [OF this] have p: "p < length members" "scores ! (members ! p) = Max (set rewards)"
    unfolding p_def [symmetric] by (auto simp: rewards_def)
  have dist: "distinct members" by (simp add: members(1) prompt_group_def)
  have mem: "i \<in> set members" using i by (simp add: members(1) prompt_group_def)
  have "card (set members) \<ge> 2" using members(2) dist by (simp add: distinct_card)
  then have ne: "set members - {j} \<noteq> {}" for j using card_mono [of "{j}" "set members"] by auto
  have le: "scores ! j \<le> scores ! (members ! p)" if "j \<in> set members" for j using that unfolding p(2) by (simp add: rewards_def)
  have rest: "set (take p rewards @ drop (Suc p) rewards) = (\<lambda>j. scores ! j) ` (set members - {members ! p})"
    unfolding rewards_def by (rule set_remove_nth [OF dist p(1)])
  have code: "passk_scalar scores index epsilon norm_adv_by_std i =
      (if members ! p = i then (scores ! (members ! p) - Max ((\<lambda>j. scores ! j) ` (set members - {members ! p})))
        / (if norm_adv_by_std then std_list rewards + epsilon else 1) else 0)"
    unfolding passk_scalar_def topk2_def Let_def members(1) [symmetric] rewards_def [symmetric] p_def [symmetric] rest
    using p(2) by auto
  show ?thesis
  proof (cases "members ! p = i")
    case True
    show ?thesis
    proof (cases "\<forall>j \<in> set members - {i}. scores ! j < scores ! i")
      case False
      then obtain j where j: "j \<in> set members - {i}" "scores ! i \<le> scores ! j" by (auto simp: not_less)
      then have "Max ((\<lambda>j. scores ! j) ` (set members - {i})) = scores ! i"
        using le True by (intro Max_eqI) (auto intro!: image_eqI [of _ _ j] order.antisym)
      then show ?thesis using False True code by simp
    qed (use True code in \<open>simp add: rewards_def\<close>)
  next
    case False
    then have "\<not> (\<forall>j \<in> set members - {i}. scores ! j < scores ! i)" using le [OF mem] nth_mem [OF p(1)]
      by (intro notI) (drule bspec [of _ _ "members ! p"], auto)
    then show ?thesis using False code by auto
  qed
qed

section \<open>Witness\<close>

text \<open>Two responses of one prompt, the second one token longer, and a third alone in its group.\<close>

lemma multi_turn_otb_extends_single_turn_witness:
  "compute_multi_turn_optimal_token_baseline_advantage [[0, 1, 0], [0, 0, 2], [1, 0, 0]] [[1, 1, 0], [1, 1, 1], [1, 0, 0]]
      [''a'', ''a'', ''b''] [[0, 0, 0], [- 1, 0, - 1], [0, 0, 0]] [[1, 1, 1], [1, 1, 1], [1, 1, 1]] None True (1 / 10 ^ 8) =
    compute_optimal_token_baseline_advantage [[0, 1, 0], [0, 0, 2], [1, 0, 0]] [[1, 1, 0], [1, 1, 1], [1, 0, 0]]
      [''a'', ''a'', ''b''] [[0, 0, 0], [- 1, 0, - 1], [0, 0, 0]] [[1, 1, 1], [1, 1, 1], [1, 1, 1]] None True (1 / 10 ^ 8) 3"
  by (rule multi_turn_otb_extends_single_turn [of "[2, 3, 1]"])
    (simp_all add: prefix_mask_def has_shape_def numeral_3_eq_3 numeral_2_eq_2)

end
