(* ===== verification/Spec2Isabelle.thy ===== *)
theory Spec2Isabelle
  imports Micro_Batches Engine Rejection Refresh Paged_Alloc Radix_Cache Rollout_Corr Token_Baseline
begin

text \<open>
  GrowMTP: reinforcement learning of a language model together with the draft head that speeds up its
  own rollouts. The program is a modified veRL (\<open>src/verl\<close>) that trains, and a modified SGLang
  (\<open>src/sglang\<close>) that generates by speculative decoding.

  \<^bold>\<open>One training step.\<close>

  \<^enum> The rollout engine drafts tokens with the head, verifies them and records every verification cycle. It
    keeps keys and values in pages (\<open>Kv_Pool\<close>, \<open>Paged_Alloc\<close>), shares the pages of common prefixes between requests
    (\<open>Radix_Cache\<close> and the theories it builds on) and accepts drafts by rejection sampling (\<open>Rejection\<close>).
  \<^enum> The cycle records travel to the trainer as ragged columns (\<open>Signals\<close>).
  \<^enum> The trainer reorders the batch over its ranks and splits it into micro-batches of similar cost
    (\<open>Heapq\<close>, \<open>Partitioning\<close>, \<open>Balanced_Partitions\<close>, \<open>Micro_Batches\<close>).
  \<^enum> It estimates advantages (\<open>Advantages\<close>, \<open>Token_Baseline\<close>), corrects for
    the difference between rollout and training policy (\<open>Rollout_Corr\<close>) and takes a policy step (\<open>Policy_Loss\<close>).
  \<^enum> It measures how far the policy moved and refreshes the teachers of the trajectories that moved most (\<open>Refresh\<close>).
  \<^enum> It replays the recorded cycles through the head (\<open>Replay\<close>) under the DCA loss (\<open>Loss\<close>) and updates the
    head (\<open>Engine\<close>); counters and statistics are kept by \<open>Metrics\<close>.

  \<^bold>\<open>Theories and sources\<close> (paths under \<open>src/verl/verl\<close>, or under \<open>src/sglang/python/sglang/srt\<close> from \<open>Rejection\<close> on).

  \<^item> \<open>Prelude\<close>: Python errors as values, indexing, slicing, stable sorting over a strict weak order, chunks.
  \<^item> \<open>Heapq\<close>, \<open>Partitioning\<close>, \<open>Balanced_Partitions\<close>: \<open>utils/seqlen_balancing.py\<close>. The locale \<open>weak_order\<close> is the contract
    of \<open>__lt__\<close>, interpreted by the comparisons of \<open>Set\<close> and \<open>State\<close>; the locale \<open>partitioner\<close> is the contract of a
    partitioning function, interpreted by \<open>karmarkar_karp\<close> and \<open>greedy_partition\<close>. Shown: every index lands in exactly one
    partition, sizes are equal where asked, loads differ by at most the largest length, and exactly when the entry point raises.
  \<^item> \<open>Micro_Batches\<close>: the rest of that file, \<open>utils/tensordict_utils.py\<close> (row selection) and \<open>_balance_batch\<close> of
    \<open>trainer/ppo/ray_trainer.py\<close>. Shown: splitting covers every row once, restoring undoes splitting, prompts stay
    together, the dispatch order is a permutation, bounds of the number of micro-batches.
  \<^item> \<open>Signals\<close>: \<open>trainer/mtp/signals.py\<close>. Shown: packing round trip, the rebuilt prefix covers every committed
    position, the supervised depths.
  \<^item> \<open>Loss\<close>: \<open>trainer/mtp/loss.py\<close>. Shown: the chunked sparse loss is the reference loss; its exponential is the
    expected number of accepted drafts; the top-k overlap bounds the acceptance probability.
  \<^item> \<open>Replay\<close>: \<open>models/transformers/mtp/head.py\<close> and \<open>trainer/mtp/replay.py\<close>. Shown: the batched masked replay computes
    for every cycle the states and logits of drafting that cycle alone.
  \<^item> \<open>Engine\<close>: \<open>trainer/mtp/engine.py\<close>. Shown: the accumulated objective, averaged over ranks, is the global mean loss;
    the learning-rate schedule.
  \<^item> \<open>Metrics\<close>: \<open>trainer/mtp/metrics.py\<close>. The tracker is a state machine with an invariant on its times.
  \<^item> \<open>Refresh\<close>: \<open>trainer/mtp/probe.py\<close> and \<open>trainer/mtp/refresh.py\<close>. Shown: the streamed shift score is exact, the best
    trajectories are selected, replacing teachers keeps every path.
  \<^item> \<open>Advantages\<close>, \<open>Token_Baseline\<close>, \<open>Policy_Loss\<close>: \<open>trainer/ppo/core_algos.py\<close> with \<open>utils/torch_functional.py\<close> and
    \<open>utils/groupwise.py\<close>. Shown: vectorised and looped estimators agree on labels that the conversion to integers keeps apart, masked tokens are skipped, the
    multi-turn baseline extends the single-turn one, aggregated losses do not depend on the number of ranks,
    closed forms of the clipped losses, the KL estimators are unbiased. Together with \<open>Micro_Batches\<close>, at the end of this
    theory: the losses of the micro-batches add up to the loss of the batch.
  \<^item> \<open>Rollout_Corr\<close>: \<open>trainer/ppo/rollout_corr_helper.py\<close> and the bypass-mode loss. Shown: the rejection mask is the conjunction of
    the requested criteria; the importance weights are the truncated policy ratios.
  \<^item> \<open>Rejection\<close>: \<open>speculative/acceptance.py\<close>. Shown: the emitted token has the target distribution.
  \<^item> \<open>Kv_Pool\<close>: \<open>mem_cache/allocator.py\<close>. The locale \<open>page_pool\<close> is the contract of an allocator, interpreted by the token
    and the paged allocator. Shown: the slots of the token allocator are conserved and never handed out twice, in every
    run of a client, and exactly when an allocation succeeds.
  \<^item> \<open>Paged_Alloc\<close>: the kernels of the same file. Shown: the parallel kernel equals the sequential loop for every
    order of its stores, the locations it returns are fresh, decoding is extension by one token; \<open>paged_run\<close> is the state
    machine of the paged allocator with all its operations, in every run of which pages are conserved and no live slot is handed out again.
  \<^item> \<open>Radix_Key\<close>, \<open>Radix_Tree\<close>, \<open>Radix_Inv\<close>, \<open>Radix_Match\<close>, \<open>Radix_Insert\<close>, \<open>Radix_Locks\<close>, \<open>Radix_Evict\<close>, \<open>Radix_Cache\<close>:
    \<open>mem_cache/radix_cache.py\<close> and \<open>mem_cache/evict_policy.py\<close>. The first two are the model, a heap of nodes that point to each
    other; \<open>Radix_Inv\<close> is its invariant, the next four are what each operation does to it, and \<open>Radix_Cache\<close> states the contract
    over all runs of the cache. Shown: a lookup returns the longest cached prefix, insertion adds exactly the new key,
    reference counts and sizes are exact, eviction ends, frees what it reports and never a prefix in use.

  \<^bold>\<open>Conventions.\<close> A raised exception is \<open>Inl\<close>. Python integers are \<open>int\<close>, counts \<open>nat\<close>, \<open>int64\<close> tensors
  64-bit words. Floating-point numbers are reals: rounding and overflow of floats are not modelled, except where a
  rounding function or a non-finite value is explicit. No model uses fuel: loops are folds or recursions with
  a termination proof, and the loops over the heap of the prefix cache are partial functions whose value \<open>None\<close> stands for not ending;
  the theorems show that it does not occur.

  \<^bold>\<open>Parameters.\<close> The decoder layer, norms and projections of transformers and torch, the policy's forward pass, the
  multinomial draw, the random generator, \<open>float\<close> and \<open>int\<close> on strings, \<open>str\<close> of a float, the clock, \<open>bfloat16\<close> rounding and the MAX and SUM all-reduces of torch.distributed. Their
  assumed laws are hypotheses of the theorems that need them, with concrete instances in the witnesses.

  \<^bold>\<open>Not modelled.\<close> Launchers and configuration, dataset reading and answer grading, Ray and FSDP orchestration,
  checkpoints, the SGLang scheduler, model runner, layers and networks, the vendored trainers under \<open>src/extermal\<close>: I/O, device code
  or third-party code. Within modelled files: gradients, debug assertions, JSONL output, the losses that draw
  random token subsets (clip-cov, kl-cov), PF-PPO resampling. In the
  prefix cache: host copies, hashes, events, and the two functions that cache the requests of the scheduler.
\<close>

section \<open>The policy loss over micro-batches\<close>

text \<open>A sum over the rows of a batch is the sum over its micro-batches.\<close>

lemma micro_split_sum:
  assumes "micro_split n g parts"
  shows "(\<Sum>p\<leftarrow>parts. \<Sum>i\<leftarrow>p. f i) = (\<Sum>i\<leftarrow>[0..<n]. f i :: real)"
proof -
  have "(\<Sum>p\<leftarrow>parts. \<Sum>i\<leftarrow>p. f i) = (\<Sum>i\<leftarrow>concat parts. f i)" by (induction parts) simp_all
  also have "\<dots> = (\<Sum>i\<in>#mset (concat parts). f i)" by (metis mset_map sum_mset_sum_list)
  also have "\<dots> = (\<Sum>i\<leftarrow>[0..<n]. f i)" using assms unfolding micro_split_def by (metis mset_map sum_mset_sum_list)
  finally show ?thesis .
qed

text \<open>
  C3. Gradient accumulation over micro-batches is exact: the trainer splits its batch with
  \<open>rearrange_micro_batches\<close>, takes \<open>agg_loss\<close> of every micro-batch with the token and sequence counts of the
  global batch and adds up the results; the sum is \<open>agg_loss\<close> of the whole batch, in each of the four modes.
\<close>
theorem micro_batch_losses_accumulate:
  assumes "td_wf (length lens) batch" "seq_lens batch = Inr (mx, lens)" "mx \<le> mc_max_token_len c"
    and "0 < mc_force_group_size c" "mc_force_group_size c dvd length lens"
    and "\<forall>l \<in> set lens. workload_fits (mc_force_group_size c) l"
    and "count_micro_batches (int (length lens div mc_force_group_size c)) (sum_list lens) (mc_max_token_len c)
        (mc_min_num_micro_batch c) (mc_all_reduce c) (mc_same_micro_num_in_dp c) (mc_num_batches_divided_by c) = Inr n" "1 \<le> n"
    and "length loss_mat = length lens" "map length loss_mat = map length loss_mask" "\<forall>m \<in> set loss_mask. length m = w"
    and "mode \<in> set agg_modes" "bi_batch_num_tokens info = Some tokens" "bi_global_batch_size info = Some seqs"
  shows "\<exists>mbs idx losses. rearrange_micro_batches batch c = Inr (mbs, idx) \<and>
    map (\<lambda>p. agg_loss (map ((!) loss_mat) p) (map ((!) loss_mask) p) mode info) idx = map Inr losses \<and>
    agg_loss loss_mat loss_mask mode info = Inr (sum_list losses)"
proof -
  obtain idx where idx: "micro_batch_indices batch c = Inr idx" "micro_split (length lens) (mc_force_group_size c) idx"
    using micro_batch_indices_split [OF assms(2-8)] by blast
  note run = rearrange_run [OF idx assms(1)]
  define q where "q = real (bi_dp_size info) / (if mode = ''token-mean'' then tokens else seqs)
    / agg_scale mode (bi_loss_scale_factor info) w"
  define f where "f i = agg_num mode [loss_mat ! i] [loss_mask ! i]" for i
  have loss: "agg_loss L M mode info = Inr (agg_num mode L M * q)" if "\<forall>m \<in> set M. length m = w" "length L = length M" for L M
    unfolding agg_loss_counts [OF assms(12-14)] using that horizon_rows [of w M]
    by (cases "M = []") (auto simp: q_def rows_of_def agg_num_Nil)
  have shape: "length (loss_mat ! i) = length (loss_mask ! i)" if "i < length lens" for i
    using assms(9,10) that by (metis length_map nth_map)
  have part: "agg_num mode (map ((!) loss_mat) p) (map ((!) loss_mask) p) = (\<Sum>i\<leftarrow>p. f i)" if "p \<in> set idx" for p
    unfolding f_def using shape micro_split_idx [OF idx(2) that] by (intro agg_num_select) blast
  have len: "length loss_mask = length lens" using assms(9,10) by (metis length_map)
  have mb: "agg_loss (map ((!) loss_mat) p) (map ((!) loss_mask) p) mode info = Inr ((\<Sum>i\<leftarrow>p. f i) * q)" if "p \<in> set idx" for p
    unfolding part [OF that, symmetric] using assms(11) micro_split_idx [OF idx(2) that] len by (intro loss) auto
  from len have "agg_num mode loss_mat loss_mask = (\<Sum>i\<leftarrow>[0..<length lens]. f i)"
    using agg_num_select [of "[0..<length lens]" loss_mat loss_mask mode] shape assms(9) map_nth [of loss_mat] map_nth [of loss_mask]
    by (simp add: f_def)
  also have "\<dots> = (\<Sum>p\<leftarrow>idx. \<Sum>i\<leftarrow>p. f i)" by (rule micro_split_sum [OF idx(2), symmetric])
  finally have "agg_loss loss_mat loss_mask mode info = Inr (\<Sum>p\<leftarrow>idx. (\<Sum>i\<leftarrow>p. f i) * q)"
    using loss [OF assms(11)] assms(9) len by (simp add: sum_list_mult_const)
  then show ?thesis using run mb
    by (intro exI [of _ "map (\<lambda>p. map (map_prod id (take_column p)) batch) idx"] exI [of _ idx]
        exI [of _ "map (\<lambda>p. (\<Sum>i\<leftarrow>p. f i) * q) idx"]) (simp add: comp_def)
qed

text \<open>Three rows of six tokens, two micro-batches.\<close>

lemma micro_batch_losses_accumulate_witness:
  "\<exists>mbs idx losses. rearrange_micro_batches Micro_Batches.example_batch Micro_Batches.example_config = Inr (mbs, idx) \<and>
    map (\<lambda>p. agg_loss (map ((!) [[1, 2], [3, 4], [5, 6]]) p) (map ((!) [[1, 1], [1, 0], [1, 0]]) p) ''token-mean''
      \<lparr> bi_dp_size = 1, bi_batch_num_tokens = Some 4, bi_global_batch_size = Some 3, bi_loss_scale_factor = None \<rparr>) idx = map Inr losses \<and>
    sum_list losses = (11 :: real) / 4"
proof -
  have whole: "agg_loss [[1, 2], [3, 4], [5, 6]] [[1, 1], [1, 0], [1, 0]] ''token-mean''
      \<lparr> bi_dp_size = 1, bi_batch_num_tokens = Some 4, bi_global_batch_size = Some 3, bi_loss_scale_factor = None \<rparr> = Inr (11 / 4)"
    by (simp add: agg_loss_def rbind_def masked_sum_list_def)
  then show ?thesis
    using micro_batch_losses_accumulate [OF Micro_Batches.example_facts(1-7), of "[[1, 2], [3, 4], [5, 6]]" "[[1, 1], [1, 0], [1, 0]]" 2 "''token-mean''"
      "\<lparr> bi_dp_size = 1, bi_batch_num_tokens = Some 4, bi_global_batch_size = Some 3, bi_loss_scale_factor = None \<rparr>" 4 3]
    by (auto simp: agg_modes_def)
qed

end
